theory Spec2Isabelle
  imports Complex_Main "HOL-Library.Word" "HOL-Library.Multiset"
begin

section \<open>Basic types\<close>

text \<open>
  The engine's scalar types. \<open>Move\<close> is an enumeration over \<open>int\<close> whose zero value is
  \<open>MOVE_NONE\<close>: the picker tests moves for truth (\<open>ttm && ...\<close>,
  \<open>if (select_move(...))\<close>) and compares them with \<open>MOVE_NONE\<close> interchangeably.
  \<open>Key\<close> is a 64-bit hash. \<open>Reward\<close> is a \<open>double\<close>; it is idealised here as a real
  number (no rounding, no NaN, no infinities).
\<close>

type_synonym Move = nat
type_synonym Square = nat
type_synonym Piece = nat
type_synonym Key = "64 word"
type_synonym Reward = real

definition MOVE_NONE :: Move where
  "MOVE_NONE = 0"

text \<open>
  The constants and tables of \<open>types.h\<close>, which is not among the source files: they are
  taken as parameters.
\<close>

record types_h =
  ONE_PLY :: int
  DEPTH_QS_CHECKS :: int
  DEPTH_QS_RECAPTURES :: int
  VALUE_KNOWN_WIN :: int
  MAX_EDGES :: nat
  PieceValue_MG :: "Piece \<Rightarrow> int"
  type_of_piece :: "Piece \<Rightarrow> int"
  to_sq :: "Move \<Rightarrow> Square"
  from_to :: "Move \<Rightarrow> nat"

text \<open>
  A position as the move picker and the tree search see it: the answers of the position
  service at one board state. The move generators return the generated moves in
  generation order.
\<close>

record Position =
  key :: Key
  pawn_key :: Key
  checkers :: bool
  side_to_move :: nat
  piece_on :: "Square \<Rightarrow> Piece"
  moved_piece :: "Move \<Rightarrow> Piece"
  pseudo_legal :: "Move \<Rightarrow> bool"
  legal :: "Move \<Rightarrow> bool"
  capture :: "Move \<Rightarrow> bool"
  see_ge :: "Move \<Rightarrow> int \<Rightarrow> bool"
  generate_CAPTURES :: "Move list"
  generate_QUIETS :: "Move list"
  generate_EVASIONS :: "Move list"
  generate_QUIET_CHECKS :: "Move list"

section \<open>The node table\<close>

text \<open>
  An edge and a node of the search tree, with the fields the code reads and writes. The
  edge array of a node has \<open>MAX_EDGES\<close> cells; it is modelled as a total function on
  indices so that a write past the capacity would be visible.
\<close>

record Edge =
  edge_move :: Move
  edge_visits :: nat
  prior :: Reward
  actionValue :: Reward
  meanActionValue :: Reward

record NodeInfo =
  key1 :: Key
  key2 :: Key
  visits :: nat
  sons :: nat
  expandedSons :: nat
  lastMove :: Move
  edges :: "nat \<Rightarrow> Edge"

text \<open>A \<open>Node\<close> is a pointer to a cell of the table: its index.\<close>

type_synonym Node = nat
type_synonym UCTHashTable = "NodeInfo list"

text \<open>
  Modelled from the spec: the indexing operator of the table type is declared in a header
  that is not among the source files; a node's cell is the primary hash modulo the
  number of cells.
\<close>

definition table_index :: "UCTHashTable \<Rightarrow> Key \<Rightarrow> Node" where
  "table_index UCTTable k = unat k mod length UCTTable"

definition get_node :: "UCTHashTable \<Rightarrow> Position \<Rightarrow> Node \<times> UCTHashTable" where
  "get_node UCTTable pos =
     (let k1 = key pos;
          k2 = pawn_key pos;
          node = table_index UCTTable k1
      in if key1 (UCTTable ! node) = k1 \<and> key2 (UCTTable ! node) = k2
         then (node, UCTTable)
         else (node, UCTTable[node := (UCTTable ! node)
                 \<lparr> key1 := k1, key2 := k2, visits := 0, sons := 0,
                   expandedSons := 0, lastMove := MOVE_NONE \<rparr>]))"

definition move_of :: "UCTHashTable \<Rightarrow> Node \<Rightarrow> Move" where
  "move_of UCTTable node = lastMove (UCTTable ! node)"

definition get_list_of_edges :: "UCTHashTable \<Rightarrow> Node \<Rightarrow> nat \<Rightarrow> Edge" where
  "get_list_of_edges UCTTable node = edges (UCTTable ! node)"

definition number_of_sons :: "UCTHashTable \<Rightarrow> Node \<Rightarrow> nat" where
  "number_of_sons UCTTable node = sons (UCTTable ! node)"

text \<open>
  \<open>add_prior_to_node\<close>, as compiled without assertions: the two assertions of the function
  are the predicates \<open>add_prior_assert_pre\<close> and \<open>add_prior_assert_post\<close>. The messages
  written to the error stream are not modelled.
\<close>

definition add_prior_assert_pre :: "types_h \<Rightarrow> NodeInfo \<Rightarrow> bool" where
  "add_prior_assert_pre T node \<longleftrightarrow> sons node < MAX_EDGES T"

definition add_prior_assert_post :: "NodeInfo \<Rightarrow> nat \<Rightarrow> bool" where
  "add_prior_assert_post node moveCount \<longleftrightarrow> sons node = moveCount"

definition add_prior_to_node :: "types_h \<Rightarrow> NodeInfo \<Rightarrow> Move \<Rightarrow> Reward \<Rightarrow> nat \<Rightarrow> NodeInfo" where
  "add_prior_to_node T node m pr moveCount =
     (let n = sons node
      in if n < MAX_EDGES T
         then node \<lparr> edges := (edges node)
                        (n := \<lparr> edge_move = m, edge_visits = 0, prior = pr,
                                actionValue = 0, meanActionValue = 0 \<rparr>),
                     sons := sons node + 1 \<rparr>
         else node)"

section \<open>Properties of the node table\<close>

text \<open>
  C9. \<open>get_node\<close> returns the one cell addressed by the primary hash. The cell then
  carries the position's two hashes. When both stored hashes already matched, the table
  is unchanged; otherwise that cell is re-initialised in place (hashes set, \<open>visits\<close>,
  \<open>sons\<close> and \<open>expandedSons\<close> zero, \<open>lastMove\<close> none, the stale edge cells left as they
  were) and every other cell of the table is untouched: no probing, no chaining.
\<close>

theorem get_node_postcondition:
  assumes "UCTTable \<noteq> []" and "get_node UCTTable pos = (node, UCTTable')"
  shows "node = unat (key pos) mod length UCTTable
       \<and> node < length UCTTable
       \<and> length UCTTable' = length UCTTable
       \<and> (\<forall>j. j \<noteq> node \<longrightarrow> UCTTable' ! j = UCTTable ! j)
       \<and> key1 (UCTTable' ! node) = key pos
       \<and> key2 (UCTTable' ! node) = pawn_key pos
       \<and> (key1 (UCTTable ! node) = key pos \<and> key2 (UCTTable ! node) = pawn_key pos
            \<longrightarrow> UCTTable' = UCTTable)
       \<and> (\<not> (key1 (UCTTable ! node) = key pos \<and> key2 (UCTTable ! node) = pawn_key pos)
            \<longrightarrow> visits (UCTTable' ! node) = 0
              \<and> sons (UCTTable' ! node) = 0
              \<and> expandedSons (UCTTable' ! node) = 0
              \<and> lastMove (UCTTable' ! node) = MOVE_NONE
              \<and> edges (UCTTable' ! node) = edges (UCTTable ! node))"
proof -
  have lt: "unat (key pos) mod length UCTTable < length UCTTable"
    using assms(1) by simp
  show ?thesis
    using assms(2) lt
    by (auto simp: get_node_def table_index_def Let_def split: if_splits)
qed

definition witness_position :: Position where
  "witness_position =
     \<lparr> key = 5, pawn_key = 7, checkers = False, side_to_move = 0,
       piece_on = (\<lambda>_. 0), moved_piece = (\<lambda>_. 0),
       pseudo_legal = (\<lambda>_. True), legal = (\<lambda>_. True),
       capture = (\<lambda>_. False), see_ge = (\<lambda>_ _. True),
       generate_CAPTURES = [], generate_QUIETS = [],
       generate_EVASIONS = [], generate_QUIET_CHECKS = [] \<rparr>"

definition witness_node :: NodeInfo where
  "witness_node =
     \<lparr> key1 = 1, key2 = 1, visits = 3, sons = 2, expandedSons = 1, lastMove = 9,
       edges = (\<lambda>_. \<lparr> edge_move = 4, edge_visits = 1, prior = 1 / 2,
                        actionValue = 0, meanActionValue = 0 \<rparr>) \<rparr>"

theorem get_node_postcondition_witness:
  "[witness_node, witness_node] \<noteq> []
   \<and> fst (get_node [witness_node, witness_node] witness_position) = 1
   \<and> visits (snd (get_node [witness_node, witness_node] witness_position) ! 1) = 0
   \<and> sons (snd (get_node [witness_node, witness_node] witness_position) ! 1) = 0
   \<and> key1 (snd (get_node [witness_node, witness_node] witness_position) ! 1) = 5
   \<and> snd (get_node [witness_node, witness_node] witness_position) ! 0 = witness_node"
proof -
  define G where "G = get_node [witness_node, witness_node] witness_position"
  have ne: "[witness_node, witness_node] \<noteq> []" by simp
  have ev: "get_node [witness_node, witness_node] witness_position = (fst G, snd G)"
    by (simp add: G_def)
  have ix: "unat (key witness_position) mod length [witness_node, witness_node] = 1"
    by (simp add: witness_position_def numeral_2_eq_2 [symmetric])
  note post = get_node_postcondition [OF ne ev]
  from post ix have f: "fst G = 1" by simp
  have mis: "\<not> (key1 ([witness_node, witness_node] ! fst G) = key witness_position
            \<and> key2 ([witness_node, witness_node] ! fst G) = pawn_key witness_position)"
    by (simp add: f witness_node_def witness_position_def)
  from post mis have "visits (snd G ! fst G) = 0" and "sons (snd G ! fst G) = 0"
    by blast+
  moreover from post have "key1 (snd G ! fst G) = key witness_position"
    by blast
  moreover from post have "\<forall>j. j \<noteq> fst G \<longrightarrow> snd G ! j = [witness_node, witness_node] ! j"
    by blast
  then have "snd G ! 0 = witness_node"
    by (simp add: f)
  ultimately show ?thesis
    using f unfolding G_def by (simp add: witness_position_def)
qed

text \<open>
  C10. The capacity guard of \<open>add_prior_to_node\<close> (as compiled without assertions; with
  assertions enabled the first assertion stops the program at a full node instead). A
  node with \<open>sons \<le> MAX_EDGES\<close> keeps that bound. No cell at or beyond \<open>MAX_EDGES\<close> is
  ever written. On a full node nothing changes. On any other node exactly the cell at
  index \<open>sons\<close> is written, with the given move and prior, zero visits and zero action
  values, and \<open>sons\<close> grows by exactly one; every other field and cell is unchanged.
\<close>

theorem add_prior_to_node_capacity:
  "(sons node \<le> MAX_EDGES T \<longrightarrow> sons (add_prior_to_node T node m pr moveCount) \<le> MAX_EDGES T)
   \<and> (\<forall>i. MAX_EDGES T \<le> i \<longrightarrow>
          edges (add_prior_to_node T node m pr moveCount) i = edges node i)
   \<and> (sons node = MAX_EDGES T \<longrightarrow> add_prior_to_node T node m pr moveCount = node)
   \<and> (sons node < MAX_EDGES T \<longrightarrow>
          sons (add_prior_to_node T node m pr moveCount) = sons node + 1
        \<and> edges (add_prior_to_node T node m pr moveCount) (sons node) =
            \<lparr> edge_move = m, edge_visits = 0, prior = pr,
              actionValue = 0, meanActionValue = 0 \<rparr>
        \<and> (\<forall>i. i \<noteq> sons node \<longrightarrow>
              edges (add_prior_to_node T node m pr moveCount) i = edges node i)
        \<and> add_prior_to_node T node m pr moveCount
            \<lparr> edges := edges node, sons := sons node \<rparr> = node)"
  by (simp add: add_prior_to_node_def Let_def)

definition witness_types :: types_h where
  "witness_types =
     \<lparr> ONE_PLY = 1, DEPTH_QS_CHECKS = 0, DEPTH_QS_RECAPTURES = - 5,
       VALUE_KNOWN_WIN = 10000, MAX_EDGES = 2,
       PieceValue_MG = (\<lambda>_. 0), type_of_piece = (\<lambda>_. 0),
       to_sq = (\<lambda>m. m mod 64), from_to = (\<lambda>m. m mod 4096) \<rparr>"

theorem add_prior_to_node_capacity_witness:
  "sons witness_node = MAX_EDGES witness_types
   \<and> add_prior_to_node witness_types witness_node 8 (1 / 4) 3 = witness_node
   \<and> sons (witness_node \<lparr> sons := 1 \<rparr>) < MAX_EDGES witness_types
   \<and> sons (add_prior_to_node witness_types (witness_node \<lparr> sons := 1 \<rparr>) 8 (1 / 4) 2) = 2
   \<and> edge_move (edges (add_prior_to_node witness_types (witness_node \<lparr> sons := 1 \<rparr>) 8 (1 / 4) 2) 1) = 8
   \<and> edges (add_prior_to_node witness_types (witness_node \<lparr> sons := 1 \<rparr>) 8 (1 / 4) 2) 2
       = edges witness_node 2"
proof -
  have full: "sons witness_node = MAX_EDGES witness_types"
    by (simp add: witness_node_def witness_types_def)
  have room: "sons (witness_node \<lparr> sons := 1 \<rparr>) < MAX_EDGES witness_types"
    by (simp add: witness_types_def)
  show ?thesis
    using add_prior_to_node_capacity [of witness_node witness_types 8 "1 / 4" 3]
          add_prior_to_node_capacity [of "witness_node \<lparr> sons := 1 \<rparr>" witness_types 8 "1 / 4" 2]
          full room
    by (simp add: witness_types_def)
qed

section \<open>Double arithmetic\<close>

text \<open>
  The search computes its scores and rewards in IEEE doubles. A double that is neither a
  NaN nor infinite is a real number, and an operation on doubles returns its exact result
  rounded. The rounded operations are parameters of the model: \<open>d_add\<close>, \<open>d_sub\<close>,
  \<open>d_mul\<close> and \<open>d_div\<close> are the four operations, \<open>d_sqrt\<close>, \<open>d_exp\<close> and \<open>d_log\<close> the
  library functions, and \<open>d_lit x\<close> is the double that the compiler takes for the decimal
  literal \<open>x\<close>. The conversion of an \<open>int\<close> to a double is exact, and so are the
  comparisons of doubles and the literals \<open>0.0\<close>, \<open>1.0\<close> and \<open>-100000000.0\<close>. NaNs and
  infinities are not modelled.
\<close>

record double_arith =
  d_lit :: "real \<Rightarrow> real"
  d_add :: "real \<Rightarrow> real \<Rightarrow> real"
  d_sub :: "real \<Rightarrow> real \<Rightarrow> real"
  d_mul :: "real \<Rightarrow> real \<Rightarrow> real"
  d_div :: "real \<Rightarrow> real \<Rightarrow> real"
  d_sqrt :: "real \<Rightarrow> real"
  d_exp :: "real \<Rightarrow> real"
  d_log :: "real \<Rightarrow> real"

text \<open>
  \<open>accurate A u\<close>: the arithmetic \<open>A\<close> rounds with relative error at most \<open>u\<close>
  wherever the exact result does not overflow, up to an absolute error \<open>u * d_tiny\<close> for
  results that underflow, and it is exact on four operations whose exact result is a
  small dyadic number. The arithmetic of IEEE doubles with a library \<open>exp\<close> and \<open>log\<close>
  that is accurate to one unit in the last place is accurate in this sense for
  \<open>u = 2 ^ -52\<close>. \<open>exact_arith\<close> is the arithmetic that does not round.
\<close>

definition d_tiny :: real where
  "d_tiny = 1 / 10 ^ 300"

definition d_huge :: real where
  "d_huge = 10 ^ 300"

definition accurate :: "double_arith \<Rightarrow> real \<Rightarrow> bool" where
  "accurate A u \<longleftrightarrow>
     0 \<le> u
     \<and> (\<forall>x. \<bar>x\<bar> \<le> d_huge \<longrightarrow> \<bar>d_lit A x - x\<bar> \<le> u * (\<bar>x\<bar> + d_tiny))
     \<and> (\<forall>a b. \<bar>a + b\<bar> \<le> d_huge \<longrightarrow> \<bar>d_add A a b - (a + b)\<bar> \<le> u * (\<bar>a + b\<bar> + d_tiny))
     \<and> (\<forall>a b. \<bar>a - b\<bar> \<le> d_huge \<longrightarrow> \<bar>d_sub A a b - (a - b)\<bar> \<le> u * (\<bar>a - b\<bar> + d_tiny))
     \<and> (\<forall>a b. \<bar>a * b\<bar> \<le> d_huge \<longrightarrow> \<bar>d_mul A a b - a * b\<bar> \<le> u * (\<bar>a * b\<bar> + d_tiny))
     \<and> (\<forall>a b. b \<noteq> 0 \<longrightarrow> \<bar>a / b\<bar> \<le> d_huge \<longrightarrow>
            \<bar>d_div A a b - a / b\<bar> \<le> u * (\<bar>a / b\<bar> + d_tiny))
     \<and> (\<forall>x. \<bar>x\<bar> \<le> 700 \<longrightarrow> \<bar>d_exp A x - exp x\<bar> \<le> u * (exp x + d_tiny))
     \<and> (\<forall>x. 0 < x \<longrightarrow> x \<le> d_huge \<longrightarrow> \<bar>d_log A x - ln x\<bar> \<le> u * (\<bar>ln x\<bar> + d_tiny))
     \<and> (\<forall>a. d_mul A a 0 = 0) \<and> d_exp A 0 = 1 \<and> d_add A 1 1 = 2 \<and> d_div A 1 2 = 1 / 2
     \<and> (\<forall>x. 0 \<le> x \<longrightarrow> x \<le> d_huge \<longrightarrow> \<bar>d_sqrt A x - sqrt x\<bar> \<le> u * (sqrt x + d_tiny))"

definition exact_arith :: double_arith where
  "exact_arith =
     \<lparr> d_lit = (\<lambda>x. x), d_add = (\<lambda>a b. a + b), d_sub = (\<lambda>a b. a - b),
       d_mul = (\<lambda>a b. a * b), d_div = (\<lambda>a b. a / b),
       d_sqrt = sqrt, d_exp = exp, d_log = ln \<rparr>"

lemma d_tiny_bounds: "0 < d_tiny" "d_tiny \<le> 1 / 1000000" "d_tiny \<le> 1 / 1000000000000"
  by (simp_all add: d_tiny_def)

lemma d_huge_bound: "1000000 \<le> d_huge"
  by (simp add: d_huge_def)

lemma d_huge_bound_20: "100000000000000000000 \<le> d_huge"
  by (simp add: d_huge_def)

lemma accurateD:
  assumes "accurate A u"
  shows "0 \<le> u"
    and "\<bar>x\<bar> \<le> d_huge \<Longrightarrow> \<bar>d_lit A x - x\<bar> \<le> u * (\<bar>x\<bar> + d_tiny)"
    and "\<bar>a + b\<bar> \<le> d_huge \<Longrightarrow> \<bar>d_add A a b - (a + b)\<bar> \<le> u * (\<bar>a + b\<bar> + d_tiny)"
    and "\<bar>a - b\<bar> \<le> d_huge \<Longrightarrow> \<bar>d_sub A a b - (a - b)\<bar> \<le> u * (\<bar>a - b\<bar> + d_tiny)"
    and "\<bar>a * b\<bar> \<le> d_huge \<Longrightarrow> \<bar>d_mul A a b - a * b\<bar> \<le> u * (\<bar>a * b\<bar> + d_tiny)"
    and "b \<noteq> 0 \<Longrightarrow> \<bar>a / b\<bar> \<le> d_huge \<Longrightarrow> \<bar>d_div A a b - a / b\<bar> \<le> u * (\<bar>a / b\<bar> + d_tiny)"
    and "\<bar>x\<bar> \<le> 700 \<Longrightarrow> \<bar>d_exp A x - exp x\<bar> \<le> u * (exp x + d_tiny)"
    and "0 < x \<Longrightarrow> x \<le> d_huge \<Longrightarrow> \<bar>d_log A x - ln x\<bar> \<le> u * (\<bar>ln x\<bar> + d_tiny)"
    and "d_mul A a 0 = 0" and "d_exp A 0 = 1" and "d_add A 1 1 = 2" and "d_div A 1 2 = 1 / 2"
    and "0 \<le> x \<Longrightarrow> x \<le> d_huge \<Longrightarrow> \<bar>d_sqrt A x - sqrt x\<bar> \<le> u * (sqrt x + d_tiny)"
  using assms unfolding accurate_def by blast+

lemma accurate_exact: "accurate exact_arith 0"
  by (simp add: accurate_def exact_arith_def)

lemma rel_error:
  fixes f r u :: real
  assumes "0 \<le> u" and "\<bar>f - r\<bar> \<le> u * (\<bar>r\<bar> + d_tiny)" and "1 / 1000000 \<le> \<bar>r\<bar>"
  shows "\<bar>f - r\<bar> \<le> 2 * u * \<bar>r\<bar>"
proof -
  from assms(3) d_tiny_bounds(2) have "\<bar>r\<bar> + d_tiny \<le> 2 * \<bar>r\<bar>" by linarith
  with assms(1) have "u * (\<bar>r\<bar> + d_tiny) \<le> u * (2 * \<bar>r\<bar>)"
    by (rule mult_left_mono [rotated])
  with assms(2) show ?thesis by simp
qed

lemma abs_error:
  fixes f r u B :: real
  assumes "0 \<le> u" and "\<bar>f - r\<bar> \<le> u * (\<bar>r\<bar> + d_tiny)" and "\<bar>r\<bar> \<le> B"
  shows "\<bar>f - r\<bar> \<le> u * (B + 1 / 1000000)"
proof -
  from assms(3) d_tiny_bounds(2) have "\<bar>r\<bar> + d_tiny \<le> B + 1 / 1000000" by linarith
  with assms(1) have "u * (\<bar>r\<bar> + d_tiny) \<le> u * (B + 1 / 1000000)"
    by (rule mult_left_mono [rotated])
  with assms(2) show ?thesis by linarith
qed

lemma rounded_lower:
  fixes f r u e :: real
  assumes "0 \<le> u" and "u \<le> 1 / 2" and "\<bar>f - r\<bar> \<le> u * (\<bar>r\<bar> + d_tiny)"
    and "- e \<le> r" and "0 \<le> e"
  shows "- (2 * e + d_tiny) \<le> f"
proof -
  define t where "t = d_tiny"
  have t: "0 < t" by (simp add: t_def d_tiny_bounds)
  from t have "0 \<le> \<bar>r\<bar> + t" by simp
  with assms(2) have "u * (\<bar>r\<bar> + t) \<le> (1 / 2) * (\<bar>r\<bar> + t)"
    by (rule mult_right_mono)
  with assms(3) have "\<bar>f - r\<bar> \<le> (1 / 2) * (\<bar>r\<bar> + t)" by (simp add: t_def)
  then have "2 * \<bar>f - r\<bar> \<le> \<bar>r\<bar> + t" by simp
  with assms(4,5) t have "- (2 * e + t) \<le> f" by (simp add: abs_if split: if_splits)
  then show ?thesis by (simp add: t_def)
qed

lemma rounded_magnitude:
  fixes f r u B :: real
  assumes "0 \<le> u" and "u \<le> 1 / 2" and "\<bar>f - r\<bar> \<le> u * (\<bar>r\<bar> + d_tiny)" and "\<bar>r\<bar> \<le> B"
  shows "\<bar>f\<bar> \<le> 2 * B + 1"
proof -
  define t where "t = d_tiny"
  have t: "0 < t" "t \<le> 1 / 1000000" unfolding t_def by (rule d_tiny_bounds)+
  from t have "0 \<le> \<bar>r\<bar> + t" by simp
  with assms(2) have "u * (\<bar>r\<bar> + t) \<le> (1 / 2) * (\<bar>r\<bar> + t)"
    by (rule mult_right_mono)
  with assms(3) have "\<bar>f - r\<bar> \<le> (1 / 2) * (\<bar>r\<bar> + t)" by (simp add: t_def)
  then have "2 * \<bar>f - r\<bar> \<le> \<bar>r\<bar> + t" by simp
  with assms(4) t show ?thesis by (simp add: abs_if split: if_splits)
qed

lemma product_lower:
  fixes a b t B :: real
  assumes "- t \<le> a" and "- t \<le> b" and "\<bar>a\<bar> \<le> B" and "\<bar>b\<bar> \<le> B" and "0 \<le> t"
  shows "- (t * B) \<le> a * b" and "\<bar>a * b\<bar> \<le> B * B"
proof -
  from assms(3) have B: "0 \<le> B" by linarith
  show "\<bar>a * b\<bar> \<le> B * B"
    unfolding abs_mult using assms(3,4) by (intro mult_mono) simp_all
  show "- (t * B) \<le> a * b"
  proof (cases "0 \<le> a")
    case a: True
    show ?thesis
    proof (cases "0 \<le> b")
      case True
      with a have "0 \<le> a * b" by simp
      moreover from assms(5) B have "0 \<le> t * B" by simp
      ultimately show ?thesis by linarith
    next
      case False
      with assms(2) have "\<bar>b\<bar> \<le> t" by linarith
      with assms(3) have "\<bar>a\<bar> * \<bar>b\<bar> \<le> B * t"
        by (intro mult_mono) (use B in simp_all)
      then have "\<bar>a * b\<bar> \<le> t * B" by (simp add: abs_mult mult.commute)
      then show ?thesis by linarith
    qed
  next
    case False
    with assms(1) have "\<bar>a\<bar> \<le> t" by linarith
    with assms(4) have "\<bar>a\<bar> * \<bar>b\<bar> \<le> t * B"
      by (intro mult_mono) (use assms(5) in simp_all)
    then have "\<bar>a * b\<bar> \<le> t * B" by (simp add: abs_mult)
    then show ?thesis by linarith
  qed
qed

lemma quotient_lower:
  fixes a d e :: real
  assumes "- e \<le> a" and "0 \<le> e" and "1 \<le> d"
  shows "- e \<le> a / d" and "\<bar>a / d\<bar> \<le> \<bar>a\<bar>"
proof -
  from assms(3) have d: "0 < d" by linarith
  have "\<bar>a / d\<bar> = \<bar>a\<bar> / d" using d by simp
  also have "\<dots> \<le> \<bar>a\<bar> / 1" using assms(3) by (intro divide_left_mono) simp_all
  finally show m: "\<bar>a / d\<bar> \<le> \<bar>a\<bar>" by simp
  show "- e \<le> a / d"
  proof (cases "0 \<le> a")
    case True
    with d have "0 \<le> a / d" by simp
    with assms(2) show ?thesis by linarith
  next
    case False
    with m assms(1) show ?thesis by linarith
  qed
qed

section \<open>The UCB formula and child selection\<close>

text \<open>
  \<open>UCB\<close> and \<open>best_move\<close>. The formula is evaluated in double arithmetic in the order in
  which the source writes it; \<open>1 + edge.visits\<close> is an integer sum. The loop of
  \<open>best_move\<close> carries the pair (\<open>best\<close>, \<open>bestValue\<close>) through the edges in index order;
  a later edge replaces the current best only when its value is strictly greater. The
  messages written to the error stream are not modelled. The assertion of \<open>UCB\<close> is the
  predicate \<open>UCB_assert\<close>.
\<close>

definition UCB_assert :: "NodeInfo \<Rightarrow> bool" where
  "UCB_assert node \<longleftrightarrow> visits node > 0"

definition UCB :: "double_arith \<Rightarrow> NodeInfo \<Rightarrow> Edge \<Rightarrow> real \<Rightarrow> real" where
  "UCB A node edge C =
     (let fatherVisits = visits node;
          result = 0;
          result = (if edge_visits edge \<noteq> 0
                    then d_add A result (d_div A (actionValue edge) (real (edge_visits edge)))
                    else result);
          result = d_add A result
                     (d_div A (d_mul A (d_mul A C (prior edge)) (d_sqrt A (real fatherVisits)))
                        (real (1 + edge_visits edge)))
      in result)"

function best_move_loop ::
  "double_arith \<Rightarrow> NodeInfo \<Rightarrow> real \<Rightarrow> nat \<Rightarrow> Move \<times> real \<Rightarrow> Move \<times> real" where
  "best_move_loop A node C k (best, bestValue) =
     (if k < sons node
      then (let r = UCB A node (edges node k) C
            in if r > bestValue
               then best_move_loop A node C (k + 1) (edge_move (edges node k), r)
               else best_move_loop A node C (k + 1) (best, bestValue))
      else (best, bestValue))"
  by pat_completeness auto
termination
  by (relation "measure (\<lambda>(A, node, C, k, b). sons node - k)") auto

definition best_move :: "double_arith \<Rightarrow> NodeInfo \<Rightarrow> real \<Rightarrow> Move" where
  "best_move A node C = fst (best_move_loop A node C 0 (MOVE_NONE, - 100000000))"

text \<open>
  \<open>first_max U n j\<close>: among the indices below \<open>n\<close>, \<open>j\<close> is the lowest one at which \<open>U\<close>
  takes its maximum. \<open>scan_state\<close> is the loop invariant of \<open>best_move\<close> after \<open>k\<close> edges.
\<close>

definition first_max :: "(nat \<Rightarrow> real) \<Rightarrow> nat \<Rightarrow> nat \<Rightarrow> bool" where
  "first_max U n j \<longleftrightarrow> j < n \<and> (\<forall>i<n. U i \<le> U j) \<and> (\<forall>i<j. U i < U j)"

definition scan_state :: "double_arith \<Rightarrow> NodeInfo \<Rightarrow> real \<Rightarrow> nat \<Rightarrow> Move \<times> real \<Rightarrow> bool" where
  "scan_state A node C k s \<longleftrightarrow>
     (snd s = - 100000000 \<and> fst s = MOVE_NONE
        \<and> (\<forall>i<k. UCB A node (edges node i) C \<le> - 100000000))
   \<or> (snd s > - 100000000
        \<and> (\<exists>j. first_max (\<lambda>i. UCB A node (edges node i) C) k j
               \<and> fst s = edge_move (edges node j)
               \<and> snd s = UCB A node (edges node j) C))"

lemma first_max_new:
  assumes "\<forall>i<k. U i < U k"
  shows "first_max U (Suc k) k"
  unfolding first_max_def using assms by (auto simp: less_Suc_eq less_imp_le)

lemma first_max_keep:
  assumes "first_max U k j" and "U k \<le> U j"
  shows "first_max U (Suc k) j"
  using assms unfolding first_max_def by (auto simp: less_Suc_eq)

lemma scan_state_step:
  assumes "scan_state A node C k (b, bv)"
  shows "scan_state A node C (Suc k)
           (if UCB A node (edges node k) C > bv then (edge_move (edges node k), UCB A node (edges node k) C)
            else (b, bv))"
proof -
  let ?U = "\<lambda>i. UCB A node (edges node i) C"
  from assms consider
      (none) "bv = - 100000000" "b = MOVE_NONE" "\<forall>i<k. ?U i \<le> - 100000000"
    | (some) j where "bv > - 100000000" "first_max ?U k j" "b = edge_move (edges node j)" "bv = ?U j"
    unfolding scan_state_def by auto
  then show ?thesis
  proof cases
    case none
    show ?thesis
    proof (cases "?U k > bv")
      case True
      with none have "\<forall>i<k. ?U i < ?U k" by fastforce
      then have "first_max ?U (Suc k) k" by (rule first_max_new)
      moreover from True none have "?U k > - 100000000" by simp
      ultimately show ?thesis
        using True unfolding scan_state_def by auto
    next
      case False
      with none have "\<forall>i<Suc k. ?U i \<le> - 100000000"
        by (auto simp: less_Suc_eq)
      with False none show ?thesis
        unfolding scan_state_def by simp
    qed
  next
    case some
    show ?thesis
    proof (cases "?U k > bv")
      case True
      from some(2) have "\<forall>i<k. ?U i \<le> ?U j" by (simp add: first_max_def)
      with True some(4) have "\<forall>i<k. ?U i < ?U k" by fastforce
      then have "first_max ?U (Suc k) k" by (rule first_max_new)
      moreover from True some have "?U k > - 100000000" by simp
      ultimately show ?thesis
        using True unfolding scan_state_def by auto
    next
      case False
      with some(4) have "?U k \<le> ?U j" by simp
      with some(2) have "first_max ?U (Suc k) j" by (rule first_max_keep)
      with False some show ?thesis
        unfolding scan_state_def by auto
    qed
  qed
qed

declare best_move_loop.simps [simp del]

lemma best_move_loop_scan:
  "k \<le> sons node \<Longrightarrow> scan_state A node C k s \<Longrightarrow> scan_state A node C (sons node) (best_move_loop A node C k s)"
proof (induction A node C k s rule: best_move_loop.induct)
  case (1 A node C k best bestValue)
  show ?case
  proof (cases "k < sons node")
    case True
    note step = scan_state_step [OF "1.prems"(2)]
    show ?thesis
    proof (cases "UCB A node (edges node k) C > bestValue")
      case gt: True
      have "scan_state A node C (sons node)
              (best_move_loop A node C (k + 1) (edge_move (edges node k), UCB A node (edges node k) C))"
        using "1.IH"(1) [OF True refl gt] True step gt by simp
      then show ?thesis
        using True gt by (subst best_move_loop.simps) simp
    next
      case le: False
      have "scan_state A node C (sons node) (best_move_loop A node C (k + 1) (best, bestValue))"
        using "1.IH"(2) [OF True refl le] True step le by simp
      then show ?thesis
        using True le by (subst best_move_loop.simps) simp
    qed
  next
    case False
    with "1.prems" have "k = sons node" by simp
    then show ?thesis
      using "1.prems"(2) by (subst best_move_loop.simps) simp
  qed
qed

lemma scan_state_init: "scan_state A node C 0 (MOVE_NONE, - 100000000)"
  by (simp add: scan_state_def)

lemma best_move_scan: "scan_state A node C (sons node) (best_move_loop A node C 0 (MOVE_NONE, - 100000000))"
  by (rule best_move_loop_scan [OF _ scan_state_init]) simp

text \<open>
  With an accurate arithmetic and statistics as the search can produce them (a
  non-negative exploration constant of at most 1000, priors between 0 and 1, an
  accumulated value of at most one per visit of the edge, at most \<open>10 ^ 12\<close> visits of
  the node), the UCB value of an edge is above the initial best value.
\<close>

lemma UCB_lower:
  assumes acc: "accurate A u" and u: "u \<le> 1 / 2"
    and C: "0 \<le> C" "C \<le> 1000"
    and p: "0 \<le> prior edge" "prior edge \<le> 1"
    and a: "\<bar>actionValue edge\<bar> \<le> real (edge_visits edge)"
    and N: "real (visits node) \<le> 1000000000000"
  shows "- 100000000 < UCB A node edge C"
proof -
  note A = accurateD [OF acc]
  define t where "t = d_tiny"
  have t: "0 < t" "t \<le> 1 / 1000000000000"
    unfolding t_def by (rule d_tiny_bounds(1), rule d_tiny_bounds(3))
  define H where "H = d_huge"
  have H: "100000000000000000000 \<le> H" by (simp add: H_def d_huge_bound_20)
  text \<open>the product of the constant and the prior\<close>
  define m1 where "m1 = d_mul A C (prior edge)"
  have r1: "0 \<le> C * prior edge" "C * prior edge \<le> 1000 * 1"
    using C p by (simp, intro mult_mono, simp_all)
  then have "\<bar>C * prior edge\<bar> \<le> 1000" by simp
  moreover from this H have "\<bar>C * prior edge\<bar> \<le> d_huge" by (simp add: H_def)
  then have e1: "\<bar>m1 - C * prior edge\<bar> \<le> u * (\<bar>C * prior edge\<bar> + d_tiny)"
    unfolding m1_def by (rule A(5))
  ultimately have m1: "\<bar>m1\<bar> \<le> 2001"
    using rounded_magnitude [OF A(1) u e1, of 1000] by simp
  have m1_lo: "- t \<le> m1"
    using rounded_lower [OF A(1) u e1, of 0] r1(1) by (simp add: t_def)
  text \<open>the square root of the visits of the node\<close>
  define sq where "sq = d_sqrt A (real (visits node))"
  have s0: "0 \<le> sqrt (real (visits node))" by simp
  have s1: "sqrt (real (visits node)) \<le> 1000000"
    using N by (intro real_le_lsqrt) simp_all
  from N H have "real (visits node) \<le> d_huge" by (simp add: H_def)
  then have "\<bar>sq - sqrt (real (visits node))\<bar> \<le> u * (sqrt (real (visits node)) + d_tiny)"
    unfolding sq_def by (intro A(13)) simp
  with s0 have e2: "\<bar>sq - sqrt (real (visits node))\<bar> \<le> u * (\<bar>sqrt (real (visits node))\<bar> + d_tiny)"
    by simp
  have sq: "\<bar>sq\<bar> \<le> 2000001"
    using rounded_magnitude [OF A(1) u e2, of 1000000] s0 s1 by simp
  have sq_lo: "- t \<le> sq"
    using rounded_lower [OF A(1) u e2, of 0] s0 by (simp add: t_def)
  text \<open>their product\<close>
  define m2 where "m2 = d_mul A m1 sq"
  from m1 sq have b1: "\<bar>m1\<bar> \<le> 2000001" by linarith
  have r2: "- (t * 2000001) \<le> m1 * sq" "\<bar>m1 * sq\<bar> \<le> 2000001 * 2000001"
    using product_lower [OF m1_lo sq_lo b1 sq] t(1) by simp_all
  from r2(2) H have "\<bar>m1 * sq\<bar> \<le> d_huge" by (simp add: H_def)
  then have e3: "\<bar>m2 - m1 * sq\<bar> \<le> u * (\<bar>m1 * sq\<bar> + d_tiny)"
    unfolding m2_def by (rule A(5))
  have m2: "\<bar>m2\<bar> \<le> 2 * (2000001 * 2000001) + 1"
    using rounded_magnitude [OF A(1) u e3 r2(2)] .
  have "- (2 * (t * 2000001) + d_tiny) \<le> m2"
    using rounded_lower [OF A(1) u e3, of "t * 2000001"] r2(1) t(1) by simp
  then have m2_lo: "- (t * 4000003) \<le> m2" by (simp add: t_def)
  text \<open>the exploration term\<close>
  define d where "d = d_div A m2 (real (1 + edge_visits edge))"
  have dv: "1 \<le> real (1 + edge_visits edge)" by simp
  have r3: "- (t * 4000003) \<le> m2 / real (1 + edge_visits edge)"
    "\<bar>m2 / real (1 + edge_visits edge)\<bar> \<le> \<bar>m2\<bar>"
    using quotient_lower [OF m2_lo _ dv] t(1) by simp_all
  from r3(2) m2 have r3b: "\<bar>m2 / real (1 + edge_visits edge)\<bar> \<le> 8000008000003" by simp
  with H have "\<bar>m2 / real (1 + edge_visits edge)\<bar> \<le> d_huge" by (simp add: H_def)
  moreover have "real (1 + edge_visits edge) \<noteq> 0" by simp
  ultimately have e4: "\<bar>d - m2 / real (1 + edge_visits edge)\<bar>
      \<le> u * (\<bar>m2 / real (1 + edge_visits edge)\<bar> + d_tiny)"
    unfolding d_def by (intro A(6))
  have dm: "\<bar>d\<bar> \<le> 16000016000007"
    using rounded_magnitude [OF A(1) u e4 r3b] by simp
  have "- (2 * (t * 4000003) + d_tiny) \<le> d"
    using rounded_lower [OF A(1) u e4, of "t * 4000003"] r3(1) t(1) by simp
  with t have d_lo: "- 1 \<le> d" by (simp add: t_def)
  text \<open>the mean value of the edge\<close>
  define r0 where "r0 = (if edge_visits edge \<noteq> 0
      then d_add A 0 (d_div A (actionValue edge) (real (edge_visits edge))) else 0)"
  have r0: "\<bar>r0\<bar> \<le> 7"
  proof (cases "edge_visits edge = 0")
    case True
    then show ?thesis by (simp add: r0_def)
  next
    case False
    define q where "q = d_div A (actionValue edge) (real (edge_visits edge))"
    from False have v: "0 < real (edge_visits edge)" by simp
    have "\<bar>actionValue edge / real (edge_visits edge)\<bar> = \<bar>actionValue edge\<bar> / real (edge_visits edge)"
      by simp
    also have "\<dots> \<le> 1" using a v by (simp add: divide_le_eq)
    finally have q1: "\<bar>actionValue edge / real (edge_visits edge)\<bar> \<le> 1" .
    with H have "\<bar>actionValue edge / real (edge_visits edge)\<bar> \<le> d_huge" by (simp add: H_def)
    with v have eq: "\<bar>q - actionValue edge / real (edge_visits edge)\<bar>
        \<le> u * (\<bar>actionValue edge / real (edge_visits edge)\<bar> + d_tiny)"
      unfolding q_def by (intro A(6)) simp_all
    have q: "\<bar>q\<bar> \<le> 3"
      using rounded_magnitude [OF A(1) u eq q1] by simp
    with H have "\<bar>0 + q\<bar> \<le> d_huge" by (simp add: H_def)
    then have "\<bar>d_add A 0 q - (0 + q)\<bar> \<le> u * (\<bar>0 + q\<bar> + d_tiny)" by (rule A(3))
    from rounded_magnitude [OF A(1) u this, of 3] q have "\<bar>d_add A 0 q\<bar> \<le> 7" by simp
    with False show ?thesis by (simp add: r0_def q_def)
  qed
  text \<open>the sum\<close>
  from r0 dm have "\<bar>r0 + d\<bar> \<le> 16000016000014" by linarith
  with H have "\<bar>r0 + d\<bar> \<le> d_huge" by (simp add: H_def)
  then have e5: "\<bar>d_add A r0 d - (r0 + d)\<bar> \<le> u * (\<bar>r0 + d\<bar> + d_tiny)" by (rule A(3))
  from r0 d_lo have "- 8 \<le> r0 + d" by linarith
  from rounded_lower [OF A(1) u e5 this] have "- (16 + d_tiny) \<le> d_add A r0 d" by simp
  with t have "- 100000000 < d_add A r0 d" by (simp add: t_def)
  moreover have "UCB A node edge C = d_add A r0 d"
    by (simp add: UCB_def Let_def r0_def d_def m2_def m1_def sq_def)
  ultimately show ?thesis by simp
qed

text \<open>
  C3 (as amended). Child selection is a function of the node, the exploration constant
  and the double arithmetic, with \<open>UCB\<close> the formula of the specification evaluated in
  doubles. Whenever some edge has a UCB value above the initial best value
  \<open>-100000000\<close>, \<open>best_move\<close> returns the move of the edge with the maximal UCB value,
  and among the edges attaining the maximum the one with the lowest index: every edge has
  a value at most that of the chosen one and every earlier edge a strictly smaller one.
  This is so for every node with at least one edge and statistics as the search can
  produce them (exploration constant between 0 and 1000, priors between 0 and 1,
  accumulated values of at most one per visit, at most \<open>10 ^ 12\<close> visits of the node),
  in every arithmetic with a relative rounding error of at most one half. When the node
  has no edge (and whenever no edge has a value above \<open>-100000000\<close>) it returns
  \<open>MOVE_NONE\<close>, which is the move of no edge.
\<close>

theorem best_move_first_maximum:
  "UCB A node edge C =
      d_add A (if edge_visits edge > 0
               then d_add A 0 (d_div A (actionValue edge) (real (edge_visits edge))) else 0)
        (d_div A (d_mul A (d_mul A C (prior edge)) (d_sqrt A (real (visits node))))
           (real (1 + edge_visits edge)))
   \<and> ((\<exists>k < sons node. UCB A node (edges node k) C > - 100000000) \<longrightarrow>
        (\<exists>j. first_max (\<lambda>i. UCB A node (edges node i) C) (sons node) j
             \<and> best_move A node C = edge_move (edges node j)))
   \<and> (accurate A u \<and> u \<le> 1 / 2 \<and> 0 < sons node \<and> 0 \<le> C \<and> C \<le> 1000
        \<and> real (visits node) \<le> 1000000000000
        \<and> (\<forall>k < sons node. 0 \<le> prior (edges node k) \<and> prior (edges node k) \<le> 1
              \<and> \<bar>actionValue (edges node k)\<bar> \<le> real (edge_visits (edges node k))) \<longrightarrow>
        (\<exists>j. first_max (\<lambda>i. UCB A node (edges node i) C) (sons node) j
             \<and> best_move A node C = edge_move (edges node j)))
   \<and> ((\<forall>k < sons node. UCB A node (edges node k) C \<le> - 100000000) \<longrightarrow>
        best_move A node C = MOVE_NONE)"
proof -
  have f: "UCB A node edge C =
      d_add A (if edge_visits edge > 0
               then d_add A 0 (d_div A (actionValue edge) (real (edge_visits edge))) else 0)
        (d_div A (d_mul A (d_mul A C (prior edge)) (d_sqrt A (real (visits node))))
           (real (1 + edge_visits edge)))"
    by (simp add: UCB_def Let_def)
  note sc = best_move_scan [of A node C]
  have a: "(\<exists>j. first_max (\<lambda>i. UCB A node (edges node i) C) (sons node) j
             \<and> best_move A node C = edge_move (edges node j))"
    if "\<exists>k < sons node. UCB A node (edges node k) C > - 100000000"
    using sc that unfolding scan_state_def best_move_def by force
  have b: "best_move A node C = MOVE_NONE"
    if "\<forall>k < sons node. UCB A node (edges node k) C \<le> - 100000000"
    using sc that unfolding scan_state_def best_move_def first_max_def by force
  have c: "(\<exists>j. first_max (\<lambda>i. UCB A node (edges node i) C) (sons node) j
             \<and> best_move A node C = edge_move (edges node j))"
    if h: "accurate A u \<and> u \<le> 1 / 2 \<and> 0 < sons node \<and> 0 \<le> C \<and> C \<le> 1000
        \<and> real (visits node) \<le> 1000000000000
        \<and> (\<forall>k < sons node. 0 \<le> prior (edges node k) \<and> prior (edges node k) \<le> 1
              \<and> \<bar>actionValue (edges node k)\<bar> \<le> real (edge_visits (edges node k)))"
  proof -
    from h have "0 \<le> prior (edges node 0)" "prior (edges node 0) \<le> 1"
      "\<bar>actionValue (edges node 0)\<bar> \<le> real (edge_visits (edges node 0))"
      by simp_all
    with h have "- 100000000 < UCB A node (edges node 0) C"
      by (intro UCB_lower [where u = u]) simp_all
    with h have "\<exists>k < sons node. UCB A node (edges node k) C > - 100000000"
      by blast
    then show ?thesis by (rule a)
  qed
  from f a b c show ?thesis by blast
qed

text \<open>
  A node with three edges, on which every operation of the formula is exact in doubles:
  the second and the third edge have the maximal value 1, and the second is chosen.
\<close>

definition ucb_witness_node :: NodeInfo where
  "ucb_witness_node =
     \<lparr> key1 = 0, key2 = 0, visits = 1, sons = 3, expandedSons = 0, lastMove = 0,
       edges = (\<lambda>i. if i = 0 then \<lparr> edge_move = 11, edge_visits = 0, prior = 1 / 4,
                                     actionValue = 0, meanActionValue = 0 \<rparr>
                     else if i = 1 then \<lparr> edge_move = 22, edge_visits = 1, prior = 1,
                                     actionValue = 1 / 2, meanActionValue = 1 / 2 \<rparr>
                     else \<lparr> edge_move = 33, edge_visits = 0, prior = 1,
                                     actionValue = 0, meanActionValue = 0 \<rparr>) \<rparr>"

theorem best_move_first_maximum_witness:
  "UCB exact_arith ucb_witness_node (edges ucb_witness_node 0) 1
      < UCB exact_arith ucb_witness_node (edges ucb_witness_node 1) 1
   \<and> UCB exact_arith ucb_witness_node (edges ucb_witness_node 2) 1
      = UCB exact_arith ucb_witness_node (edges ucb_witness_node 1) 1
   \<and> best_move exact_arith ucb_witness_node 1 = 22"
proof -
  let ?U = "\<lambda>i. UCB exact_arith ucb_witness_node (edges ucb_witness_node i) 1"
  have u0: "?U 0 = 1 / 4" and u1: "?U 1 = 1" and u2: "?U 2 = 1"
    by (simp_all add: UCB_def ucb_witness_node_def exact_arith_def)
  have n: "sons ucb_witness_node = 3"
    by (simp add: ucb_witness_node_def)
  have "accurate exact_arith 0 \<and> (0::real) \<le> 1 / 2 \<and> 0 < sons ucb_witness_node
      \<and> (0::real) \<le> 1 \<and> (1::real) \<le> 1000
      \<and> real (visits ucb_witness_node) \<le> 1000000000000
      \<and> (\<forall>k < sons ucb_witness_node.
            0 \<le> prior (edges ucb_witness_node k) \<and> prior (edges ucb_witness_node k) \<le> 1
            \<and> \<bar>actionValue (edges ucb_witness_node k)\<bar>
                \<le> real (edge_visits (edges ucb_witness_node k)))"
    by (simp add: accurate_exact ucb_witness_node_def)
  with best_move_first_maximum [where A = exact_arith and node = ucb_witness_node
      and edge = "edges ucb_witness_node 0" and C = 1 and u = 0]
  obtain j where j: "first_max ?U (sons ucb_witness_node) j"
    and b: "best_move exact_arith ucb_witness_node 1 = edge_move (edges ucb_witness_node j)"
    by blast
  from j n have "j < 3" and le: "\<forall>i<3. ?U i \<le> ?U j" and lt: "\<forall>i<j. ?U i < ?U j"
    by (simp_all add: first_max_def)
  have "j = 1"
  proof (rule ccontr)
    assume "j \<noteq> 1"
    with \<open>j < 3\<close> have "j = 0 \<or> j = 2" by arith
    then show False
    proof
      assume "j = 0"
      with le have "?U 1 \<le> ?U 0" by simp
      with u0 u1 show False by simp
    next
      assume "j = 2"
      with lt have "?U 1 < ?U 2" by simp
      with u1 u2 show False by simp
    qed
  qed
  with b have "best_move exact_arith ucb_witness_node 1 = 22"
    by (simp add: ucb_witness_node_def)
  with u0 u1 u2 show ?thesis by simp
qed

text \<open>
  The claim as stated is for every node with a positive visit count. A node that has been
  expanded at a position without a legal move has the visit count 1 and no edge (the
  search produces one in \<open>dead_end_root\<close> below): there is no edge whose move could be
  returned, and \<open>best_move\<close> returns \<open>MOVE_NONE\<close>.
\<close>

definition no_edge_node :: NodeInfo where
  "no_edge_node =
     \<lparr> key1 = 1, key2 = 1, visits = 1, sons = 0, expandedSons = 0, lastMove = 0,
       edges = (\<lambda>i. \<lparr> edge_move = 0, edge_visits = 0, prior = 0,
                       actionValue = 0, meanActionValue = 0 \<rparr>) \<rparr>"

theorem best_move_claim_counterexample:
  "0 < visits no_edge_node \<and> sons no_edge_node = 0
   \<and> best_move exact_arith no_edge_node 10 = MOVE_NONE"
  by (simp add: best_move_def best_move_loop.simps no_edge_node_def)

section \<open>The value-reward transform\<close>

text \<open>
  \<open>value_to_reward\<close> and \<open>reward_to_value\<close>, in double arithmetic. The constants are
  the doubles of the literals of the source: \<open>k\<close> in \<open>value_to_reward\<close>, \<open>g\<close> and the two
  thresholds in \<open>reward_to_value\<close>. The conversion of a double to \<open>int\<close> truncates toward
  zero (\<open>trunc_int\<close>).
\<close>

definition trunc_int :: "real \<Rightarrow> int" where
  "trunc_int x = (if x \<ge> 0 then \<lfloor>x\<rfloor> else \<lceil>x\<rceil>)"

definition value_to_reward :: "double_arith \<Rightarrow> int \<Rightarrow> Reward" where
  "value_to_reward A v =
     (let k = - d_lit A 0.00183102048111;
          r = d_div A 1 (d_add A 1 (d_exp A (d_mul A k (real_of_int v))))
      in r)"

definition reward_to_value :: "double_arith \<Rightarrow> types_h \<Rightarrow> Reward \<Rightarrow> int" where
  "reward_to_value A T r =
     (if r > d_lit A 0.99 then VALUE_KNOWN_WIN T
      else if r < d_lit A 0.01 then - VALUE_KNOWN_WIN T
      else (let g = d_lit A 546.14353597715121;
                v = d_mul A g (d_log A (d_div A r (d_sub A 1 r)))
            in trunc_int v))"

subsection \<open>Rounding errors\<close>

lemma ln_rel:
  fixes a b e :: real
  assumes "0 < b" and "\<bar>a - b\<bar> \<le> e * b" and "0 \<le> e" and "e \<le> 1 / 2"
  shows "0 < a" and "\<bar>ln a - ln b\<bar> \<le> 2 * e"
proof -
  from assms have lo: "b * (1 - e) \<le> a" and hi: "a \<le> b * (1 + e)"
    by (simp_all add: abs_le_iff algebra_simps)
  from assms(1,4) have "0 < b * (1 - e)" by simp
  with lo show a: "0 < a" by linarith
  from lo assms(1) have q1: "1 - e \<le> a / b"
    by (simp add: field_simps)
  from hi assms(1) have q2: "a / b \<le> 1 + e"
    by (simp add: field_simps)
  from a assms(1) have d: "ln a - ln b = ln (a / b)"
    by (simp add: ln_div)
  from a assms(1) have pq: "0 < a / b" by simp
  from q2 pq have "ln (a / b) \<le> ln (1 + e)"
    by (simp add: ln_le_cancel_iff)
  also have "\<dots> \<le> e"
    using assms(3) by (rule ln_add_one_self_le_self)
  finally have up: "ln (a / b) \<le> e" .
  have "- e - 2 * e\<^sup>2 \<le> ln (1 - e)"
    using assms(3,4) by (rule ln_one_minus_pos_lower_bound)
  moreover have "e\<^sup>2 \<le> e / 2"
  proof -
    have "e * e \<le> e * (1 / 2)"
      using assms(3,4) by (intro mult_left_mono) simp_all
    then show ?thesis by (simp add: power2_eq_square)
  qed
  moreover have "ln (1 - e) \<le> ln (a / b)"
    using q1 pq assms(4) by (simp add: ln_le_cancel_iff)
  ultimately have "- 2 * e \<le> ln (a / b)" by linarith
  with up assms(3) show "\<bar>ln a - ln b\<bar> \<le> 2 * e"
    unfolding d by (simp add: abs_le_iff)
qed

lemma exp_rel:
  fixes d :: real
  assumes "\<bar>d\<bar> \<le> 1 / 2"
  shows "\<bar>exp d - 1\<bar> \<le> 2 * \<bar>d\<bar>"
proof (cases "0 \<le> d")
  case True
  with assms have "exp d \<le> 1 + d + d\<^sup>2"
    by (intro exp_bound) simp_all
  moreover have "d\<^sup>2 \<le> d"
  proof -
    have "d * d \<le> d * 1"
      using True assms by (intro mult_left_mono) simp_all
    then show ?thesis by (simp add: power2_eq_square)
  qed
  moreover have "1 \<le> exp d" using True by simp
  ultimately show ?thesis using True by linarith
next
  case False
  have "1 + d \<le> exp d" by (rule exp_ge_add_one_self)
  moreover have "exp d \<le> 1" using False by simp
  ultimately show ?thesis using False by linarith
qed

lemma abs_mult_bound:
  fixes a b :: real
  assumes "\<bar>a\<bar> \<le> x" and "\<bar>b\<bar> \<le> y"
  shows "\<bar>a * b\<bar> \<le> x * y"
  unfolding abs_mult using assms by (intro mult_mono) simp_all

lemma exp_6_ge: "(101::real) \<le> exp 6"
proof -
  have "1 + (2::real) + 2\<^sup>2 / 2 \<le> exp 2"
    by (rule exp_lower_Taylor_quadratic) simp
  then have e2: "(5::real) \<le> exp 2" by simp
  have "exp (6::real) = exp 2 * exp 2 * exp 2"
    by (simp add: exp_add [symmetric])
  moreover have "5 * 5 * 5 \<le> exp (2::real) * exp 2 * exp 2"
    using e2 by (intro mult_mono) simp_all
  ultimately show ?thesis by simp
qed

lemma ln_bound_6:
  fixes x :: real
  assumes "1 / 101 \<le> x" and "x \<le> 101"
  shows "\<bar>ln x\<bar> \<le> 6"
proof -
  from assms(1) have p: "0 < x" by simp
  from assms(2) exp_6_ge have "x \<le> exp 6" by linarith
  with p have "ln x \<le> ln (exp (6::real))"
    by (simp only: ln_le_cancel_iff exp_gt_zero)
  then have up: "ln x \<le> 6" by simp
  from p have ip: "0 < 1 / x" by simp
  from assms(1) p have "1 / x \<le> 101"
    by (simp add: field_simps)
  with exp_6_ge have "1 / x \<le> exp 6" by linarith
  with ip have "ln (1 / x) \<le> ln (exp (6::real))"
    by (simp only: ln_le_cancel_iff exp_gt_zero)
  then have "- ln x \<le> 6"
    using p by (simp add: ln_div)
  with up show ?thesis by linarith
qed

lemma logit_bound:
  fixes r :: real
  assumes "99 / 10000 \<le> r" and "r \<le> 9901 / 10000"
  shows "\<bar>ln (r / (1 - r))\<bar> \<le> 6"
proof (rule ln_bound_6)
  from assms have p: "0 < 1 - r" by simp
  from assms p show "1 / 101 \<le> r / (1 - r)"
    by (simp add: field_simps)
  from assms p show "r / (1 - r) \<le> 101"
    by (simp add: field_simps)
qed

lemma threshold_bounds:
  assumes acc: "accurate A u" and u: "u \<le> 1 / 10 ^ 7"
  shows "99 / 10000 \<le> d_lit A 0.01" and "d_lit A 0.01 \<le> 10001 / 1000000"
    and "989999 / 1000000 \<le> d_lit A 0.99" and "d_lit A 0.99 \<le> 9901 / 10000"
    and "\<bar>d_lit A 0.01 - 0.01\<bar> \<le> 1 / 10 ^ 8" and "\<bar>d_lit A 0.99 - 0.99\<bar> \<le> 1 / 10 ^ 7"
proof -
  note a = accurateD [OF acc]
  define t1 where "t1 = d_lit A 0.01"
  define t2 where "t2 = d_lit A 0.99"
  have "\<bar>t1 - 0.01\<bar> \<le> u * (\<bar>0.01\<bar> + d_tiny)"
    unfolding t1_def by (rule a(2)) (use d_huge_bound in simp)
  from abs_error [OF a(1) this, of "1 / 100"]
  have "\<bar>t1 - 1 / 100\<bar> \<le> u * (1 / 100 + 1 / 1000000)" by simp
  moreover have "u * (1 / 100 + 1 / 1000000) \<le> (1 / 10 ^ 7) * (1 / 100 + 1 / 1000000)"
    using u by (intro mult_right_mono) simp_all
  ultimately have b1: "\<bar>t1 - 1 / 100\<bar> \<le> 2 / 1000000000" by simp
  have "\<bar>t2 - 0.99\<bar> \<le> u * (\<bar>0.99\<bar> + d_tiny)"
    unfolding t2_def by (rule a(2)) (use d_huge_bound in simp)
  from abs_error [OF a(1) this, of "99 / 100"]
  have "\<bar>t2 - 99 / 100\<bar> \<le> u * (99 / 100 + 1 / 1000000)" by simp
  moreover have "u * (99 / 100 + 1 / 1000000) \<le> (1 / 10 ^ 7) * (99 / 100 + 1 / 1000000)"
    using u by (intro mult_right_mono) simp_all
  ultimately have b2: "\<bar>t2 - 99 / 100\<bar> \<le> 1 / 10000000" by simp
  from b1 show "99 / 10000 \<le> d_lit A 0.01" and "d_lit A 0.01 \<le> 10001 / 1000000"
    unfolding t1_def [symmetric] by linarith+
  from b2 show "989999 / 1000000 \<le> d_lit A 0.99" and "d_lit A 0.99 \<le> 9901 / 10000"
    unfolding t2_def [symmetric] by linarith+
  from b1 show "\<bar>d_lit A 0.01 - 0.01\<bar> \<le> 1 / 10 ^ 8"
    unfolding t1_def [symmetric] by simp
  from b2 show "\<bar>d_lit A 0.99 - 0.99\<bar> \<le> 1 / 10 ^ 7"
    unfolding t2_def [symmetric] by simp
qed

lemma reward_to_value_error:
  assumes acc: "accurate A u" and u: "u \<le> 1 / 10 ^ 7"
    and lo: "d_lit A 0.01 \<le> r" and hi: "r \<le> d_lit A 0.99"
  shows "\<exists>x. reward_to_value A T r = trunc_int x
            \<and> \<bar>x - 546.14353597715121 * ln (r / (1 - r))\<bar> \<le> 19000 * u"
proof -
  note a = accurateD [OF acc]
  note u0 = a(1)
  note th = threshold_bounds [OF acc u]
  from th(1) lo have r1: "99 / 10000 \<le> r" by (rule order_trans)
  from hi th(4) have r2: "r \<le> 9901 / 10000" by (rule order_trans)
  from r1 r2 have rp: "0 < r" and sp: "0 < 1 - r" by simp_all
  from u have u7: "u \<le> 1 / 10000000" by simp
  from u7 u0 have us: "2 * u \<le> 1 / 2" by simp
  define L where "L = ln (r / (1 - r))"
  have Lb: "\<bar>L\<bar> \<le> 6"
    unfolding L_def using r1 r2 by (rule logit_bound)
  have Ld: "L = ln r - ln (1 - r)"
    unfolding L_def using rp sp by (simp add: ln_div)
  \<comment> \<open>the difference \<open>1 - r\<close>\<close>
  define w where "w = d_sub A 1 r"
  have "\<bar>w - (1 - r)\<bar> \<le> u * (\<bar>1 - r\<bar> + d_tiny)"
    unfolding w_def by (rule a(4)) (use r1 r2 d_huge_bound in simp)
  from rel_error [OF u0 this] r1 r2 have w1: "\<bar>w - (1 - r)\<bar> \<le> 2 * u * (1 - r)"
    by simp
  note wl = ln_rel [OF sp w1 _ us]
  from u0 have wp: "0 < w" and wln: "\<bar>ln w - ln (1 - r)\<bar> \<le> 4 * u"
    using wl by simp_all
  have "2 * u * (1 - r) \<le> (1 / 2) * (1 - r)"
    using us sp by (intro mult_right_mono) simp_all
  with w1 have wb: "(1 - r) / 2 \<le> w" "w \<le> 2 * (1 - r)"
    by (simp_all add: abs_le_iff)
  \<comment> \<open>the quotient\<close>
  define q where "q = d_div A r w"
  have qe: "0 < r / w" using rp wp by simp
  have qlo: "99 / 20000 \<le> r / w"
  proof -
    from wb(2) r1 have "w \<le> 2" by simp
    then have "r / 2 \<le> r / w"
      using rp wp by (intro divide_left_mono) simp_all
    with r1 show ?thesis by linarith
  qed
  have qhi: "r / w \<le> 402"
  proof -
    from wb(1) r2 have "99 / 20000 \<le> w" by simp
    then have "r / w \<le> r / (99 / 20000)"
      using rp wp by (intro divide_left_mono) simp_all
    also have "\<dots> = r * (20000 / 99)" by simp
    also have "\<dots> \<le> (9901 / 10000) * (20000 / 99)"
      using r2 by (intro mult_right_mono) simp_all
    also have "\<dots> \<le> 402" by simp
    finally show ?thesis .
  qed
  define rho where "rho = r / w"
  have qe': "0 < rho" and qlo': "99 / 20000 \<le> rho" and qhi': "rho \<le> 402"
    unfolding rho_def using qe qlo qhi by blast+
  have ql6: "1 / 1000000 \<le> \<bar>rho\<bar>"
    using qlo' by simp
  have qh6: "\<bar>rho\<bar> \<le> d_huge"
    using qe' qhi' d_huge_bound by simp
  have "\<bar>q - rho\<bar> \<le> u * (\<bar>rho\<bar> + d_tiny)"
    unfolding q_def rho_def using wp qh6 [unfolded rho_def] by (intro a(6)) simp_all
  from rel_error [OF u0 this ql6] qe' have q1: "\<bar>q - rho\<bar> \<le> 2 * u * rho"
    by simp
  note ql = ln_rel [OF qe' q1 _ us]
  from u0 have qp: "0 < q" and qln: "\<bar>ln q - ln rho\<bar> \<le> 4 * u"
    using ql by simp_all
  have "ln rho = ln r - ln w"
    unfolding rho_def using rp wp by (simp add: ln_div)
  with qln wln Ld have qL: "\<bar>ln q - L\<bar> \<le> 8 * u" by linarith
  with Lb u7 have qb: "\<bar>ln q\<bar> \<le> 7" by linarith
  have "2 * u * rho \<le> (1 / 2) * rho"
    using us qe' by (intro mult_right_mono) simp_all
  with q1 qhi' have qh: "q \<le> 1000000"
    by (simp add: abs_le_iff)
  \<comment> \<open>the logarithm\<close>
  define l where "l = d_log A q"
  have "\<bar>l - ln q\<bar> \<le> u * (\<bar>ln q\<bar> + d_tiny)"
    unfolding l_def by (rule a(8)) (use qp qh d_huge_bound in simp_all)
  from abs_error [OF u0 this qb] have "\<bar>l - ln q\<bar> \<le> u * (7 + 1 / 1000000)" .
  moreover have "u * (7 + 1 / 1000000) \<le> u * 8"
    using u0 by (intro mult_left_mono) simp_all
  ultimately have l1: "\<bar>l - ln q\<bar> \<le> 8 * u" by simp
  with qL have lL: "\<bar>l - L\<bar> \<le> 16 * u" by linarith
  with Lb u7 have lb: "\<bar>l\<bar> \<le> 7" by linarith
  \<comment> \<open>the factor and the product\<close>
  define G :: real where "G = 546.14353597715121"
  have Gb: "546 \<le> G" "G \<le> 547"
    by (simp_all add: G_def)
  define gg where "gg = d_lit A G"
  have "\<bar>G\<bar> \<le> d_huge"
    using Gb d_huge_bound by simp
  then have "\<bar>gg - G\<bar> \<le> u * (\<bar>G\<bar> + d_tiny)"
    unfolding gg_def by (rule a(2))
  from abs_error [OF u0 this, of 547] Gb have "\<bar>gg - G\<bar> \<le> u * (547 + 1 / 1000000)"
    by simp
  moreover have "u * (547 + 1 / 1000000) \<le> u * 548"
    using u0 by (intro mult_left_mono) simp_all
  ultimately have g1: "\<bar>gg - G\<bar> \<le> 548 * u" by simp
  with u7 Gb have gb: "\<bar>gg\<bar> \<le> 548" by linarith
  define x where "x = d_mul A gg l"
  have pb: "\<bar>gg * l\<bar> \<le> 548 * 7"
    using gb lb by (rule abs_mult_bound)
  have "\<bar>x - gg * l\<bar> \<le> u * (\<bar>gg * l\<bar> + d_tiny)"
    unfolding x_def by (rule a(5)) (use pb d_huge_bound in simp)
  from abs_error [OF u0 this pb] have "\<bar>x - gg * l\<bar> \<le> u * (548 * 7 + 1 / 1000000)" .
  moreover have "u * (548 * 7 + 1 / 1000000) \<le> u * 3837"
    using u0 by (intro mult_left_mono) simp_all
  ultimately have x1: "\<bar>x - gg * l\<bar> \<le> 3837 * u" by simp
  have e1: "\<bar>(gg - G) * l\<bar> \<le> (548 * u) * 7"
    using g1 lb by (rule abs_mult_bound)
  have e2: "\<bar>G * (l - L)\<bar> \<le> 547 * (16 * u)"
    by (rule abs_mult_bound) (use lL Gb in simp_all)
  have "gg * l - G * L
          = (gg - G) * l + G * (l - L)"
    by (simp add: algebra_simps)
  with e1 e2 have "\<bar>gg * l - G * L\<bar> \<le> 12588 * u" by linarith
  with x1 have xe: "\<bar>x - G * L\<bar> \<le> 19000 * u"
    using u0 by linarith
  have "reward_to_value A T r = trunc_int x"
    using lo hi by (simp add: reward_to_value_def Let_def x_def gg_def l_def q_def w_def G_def)
  with xe show ?thesis
    unfolding L_def G_def by blast
qed

lemma g_inv: "\<bar>(546.14353597715121::real) - (- (1 / (- 0.00183102048111)))\<bar> < 1 / 10 ^ 14"
  by (simp add: field_simps)

lemma trunc_int_between:
  assumes "\<bar>x - real_of_int n\<bar> \<le> 1 / 2" and "0 < n"
  shows "n - 1 \<le> trunc_int x" and "trunc_int x \<le> n"
proof -
  from assms(2) have n1: "1 \<le> real_of_int n" by simp
  with assms(1) have p: "0 \<le> x" by linarith
  then have t: "trunc_int x = \<lfloor>x\<rfloor>" by (simp add: trunc_int_def)
  from assms(1) have "real_of_int n - 1 \<le> x" by linarith
  then have "real_of_int (n - 1) \<le> x" by simp
  then show "n - 1 \<le> trunc_int x"
    unfolding t by (simp only: le_floor_iff)
  from assms(1) have "x < real_of_int n + 1" by linarith
  then show "trunc_int x \<le> n"
    unfolding t by (simp only: floor_le_iff)
qed

text \<open>
  C6 (as amended). For every arithmetic that is accurate to \<open>10^-7\<close> and every reward
  \<open>r\<close> between the two thresholds of the code, which are the doubles of \<open>0.01\<close> and
  \<open>0.99\<close> and lie within \<open>10^-8\<close> and \<open>10^-7\<close> of these numbers, \<open>reward_to_value r\<close>
  is the truncation toward zero of a double that lies within \<open>0.002\<close> of
  \<open>-(1 / k) * ln (r / (1 - r))\<close> for \<open>k = -0.00183102048111\<close>: the factor \<open>g\<close> of the
  code is \<open>-1 / k\<close>, which is positive, not \<open>1 / k\<close>, and the product is rounded before
  it is truncated. Above the upper threshold the result is the known-win value and below
  the lower threshold its negation, without evaluating the logarithm.
\<close>

theorem reward_to_value_formula:
  assumes acc: "accurate A u" and u: "u \<le> 1 / 10 ^ 7"
  shows "(d_lit A 0.01 \<le> r \<and> r \<le> d_lit A 0.99 \<longrightarrow>
            (\<exists>x. reward_to_value A T r = trunc_int x
                 \<and> \<bar>x - (- (1 / (- 0.00183102048111))) * ln (r / (1 - r))\<bar> \<le> 1 / 500))
         \<and> (r > d_lit A 0.99 \<longrightarrow> reward_to_value A T r = VALUE_KNOWN_WIN T)
         \<and> (r < d_lit A 0.01 \<longrightarrow> reward_to_value A T r = - VALUE_KNOWN_WIN T)
         \<and> \<bar>d_lit A 0.01 - 0.01\<bar> \<le> 1 / 10 ^ 8 \<and> \<bar>d_lit A 0.99 - 0.99\<bar> \<le> 1 / 10 ^ 7"
proof -
  note th = threshold_bounds [OF acc u]
  note u0 = accurateD(1) [OF acc]
  have mid: "\<exists>x. reward_to_value A T r = trunc_int x
                 \<and> \<bar>x - (- (1 / (- 0.00183102048111))) * ln (r / (1 - r))\<bar> \<le> 1 / 500"
    if lo: "d_lit A 0.01 \<le> r" and hi: "r \<le> d_lit A 0.99"
  proof -
    from reward_to_value_error [OF acc u lo hi, of T] obtain x where
      x: "reward_to_value A T r = trunc_int x"
      and e: "\<bar>x - 546.14353597715121 * ln (r / (1 - r))\<bar> \<le> 19000 * u"
      by blast
    define L where "L = ln (r / (1 - r))"
    define G :: real where "G = 546.14353597715121"
    define H :: real where "H = - (1 / (- 0.00183102048111))"
    from th(1) lo have r1: "99 / 10000 \<le> r" by (rule order_trans)
    from hi th(4) have r2: "r \<le> 9901 / 10000" by (rule order_trans)
    have Lb: "\<bar>L\<bar> \<le> 6"
      unfolding L_def using r1 r2 by (rule logit_bound)
    have GH: "\<bar>G - H\<bar> \<le> 1 / 100000000000000"
      using g_inv unfolding G_def H_def by simp
    have "\<bar>(G - H) * L\<bar> \<le> (1 / 100000000000000) * 6"
      using GH Lb by (rule abs_mult_bound)
    moreover have "G * L - H * L = (G - H) * L"
      by (simp add: algebra_simps)
    ultimately have d: "\<bar>G * L - H * L\<bar> \<le> 6 / 100000000000000" by simp
    from u have "19000 * u \<le> 19 / 10000" by simp
    with e have "\<bar>x - G * L\<bar> \<le> 19 / 10000"
      unfolding G_def L_def by linarith
    with d have "\<bar>x - H * L\<bar> \<le> 1 / 500" by linarith
    with x show ?thesis
      unfolding H_def L_def by blast
  qed
  have win: "reward_to_value A T r = VALUE_KNOWN_WIN T" if "r > d_lit A 0.99"
    using that by (simp add: reward_to_value_def)
  have loss: "reward_to_value A T r = - VALUE_KNOWN_WIN T" if "r < d_lit A 0.01"
  proof -
    from that th(2,3) have "\<not> r > d_lit A 0.99" by linarith
    with that show ?thesis by (simp add: reward_to_value_def)
  qed
  from mid win loss th(5,6) show ?thesis by blast
qed

subsection \<open>Numerical bounds\<close>

lemma exp_le_9:
  fixes t :: real assumes "\<bar>t\<bar> \<le> 2" shows "exp t \<le> 9"
proof -
  have "exp (1::real) \<le> 1 + 1 + 1\<^sup>2" by (rule exp_bound) simp_all
  then have e1: "exp (1::real) \<le> 3" by simp
  have "exp t \<le> exp (2::real)" using assms by simp
  also have "\<dots> = exp 1 * exp (1::real)" by (simp add: exp_add [symmetric])
  also have "\<dots> \<le> 3 * 3" using e1 by (intro mult_mono) simp_all
  finally show ?thesis by simp
qed

lemma exp_sum_10: "(\<Sum>m<10. (x::real) ^ m / fact m) =
   1 + x + x^2/2 + x^3/6 + x^4/24 + x^5/120 + x^6/720 + x^7/5040 + x^8/40320 + x^9/362880"
  by (simp add: eval_nat_numeral sum.lessThan_Suc)

lemma exp_sum_10_at: "\<bar>(\<Sum>m<10. (- 1.098612288666 :: real) ^ m / fact m) - 1/3\<bar> < 1 / 10^6"
  unfolding exp_sum_10 by (simp add: power_divide)

lemma exp_rem_10_at: "9 * (1.098612288666::real) ^ 10 / fact 10 < 7 / 10^6"
  by (simp add: power_divide fact_numeral)

lemma exp_600: "\<bar>exp (- 1.098612288666 :: real) - 1/3\<bar> < 8 / 10^6"
proof -
  let ?x = "- 1.098612288666 :: real"
  obtain t where t: "\<bar>t\<bar> \<le> \<bar>?x\<bar>"
    and e: "exp ?x = (\<Sum>m<10. ?x ^ m / fact m) + (exp t / fact 10) * ?x ^ 10"
    using Maclaurin_exp_le [of ?x 10] by blast
  from t have "\<bar>t\<bar> \<le> 2" by simp
  then have "exp t \<le> 9" by (rule exp_le_9)
  have px: "?x ^ 10 = 1.098612288666 ^ 10" by simp
  have "\<bar>(exp t / fact 10) * ?x ^ 10\<bar> = exp t * (1.098612288666 ^ 10 / fact 10)"
    unfolding px by (simp add: abs_mult)
  also have "\<dots> \<le> 9 * (1.098612288666 ^ 10 / fact 10)"
    using \<open>exp t \<le> 9\<close> by (intro mult_right_mono) simp_all
  also have "\<dots> < 7 / 10^6" using exp_rem_10_at by simp
  finally have r: "\<bar>(exp t / fact 10) * ?x ^ 10\<bar> < 7 / 10^6" .
  from e have "exp ?x - 1/3 = ((\<Sum>m<10. ?x ^ m / fact m) - 1/3) + (exp t / fact 10) * ?x ^ 10"
    by simp
  then have "\<bar>exp ?x - 1/3\<bar> \<le> \<bar>(\<Sum>m<10. ?x ^ m / fact m) - 1/3\<bar> + \<bar>(exp t / fact 10) * ?x ^ 10\<bar>"
    by (simp only: abs_triangle_ineq)
  with exp_sum_10_at r show ?thesis by linarith
qed

lemma ln_3_near: "\<bar>ln (3::real) - 1.098612288666\<bar> \<le> 5 / 100000"
proof -
  define y :: real where "y = 1.098612288666"
  define a where "a = 3 * exp (- y)"
  from exp_600 have "\<bar>exp (- y) - 1 / 3\<bar> < 8 / 1000000"
    unfolding y_def by simp
  then have "\<bar>a - 1\<bar> \<le> (24 / 1000000) * 1"
    unfolding a_def by linarith
  from ln_rel [OF _ this] have "\<bar>ln a - ln 1\<bar> \<le> 2 * (24 / 1000000)"
    by simp
  moreover have "ln a = ln 3 - y"
    unfolding a_def by (simp add: ln_mult)
  ultimately show ?thesis
    unfolding y_def by simp
qed

lemma scaled_ln_3: "\<bar>(- (1 / (- 0.00183102048111))) * ln (3::real) - 600\<bar> \<le> 3 / 100"
proof -
  define H :: real where "H = - (1 / (- 0.00183102048111))"
  define y :: real where "y = 1.098612288666"
  define L :: real where "L = ln 3"
  have Hy: "H * y = 600"
    by (simp add: H_def y_def)
  have Hb: "\<bar>H\<bar> \<le> 547"
    by (simp add: H_def)
  from ln_3_near have "\<bar>L - y\<bar> \<le> 5 / 100000"
    unfolding y_def L_def .
  with Hb have "\<bar>H * (L - y)\<bar> \<le> 547 * (5 / 100000)"
    by (rule abs_mult_bound)
  then have "\<bar>H * (L - y)\<bar> \<le> 3 / 100" by simp
  moreover have "H * L - 600 = H * (L - y)"
    using Hy by (simp add: algebra_simps)
  ultimately have "\<bar>H * L - 600\<bar> \<le> 3 / 100" by simp
  then show ?thesis
    unfolding H_def L_def .
qed

lemma three_quarters_value:
  assumes acc: "accurate A u" and u: "u \<le> 1 / 10 ^ 7"
  shows "599 \<le> reward_to_value A T (3 / 4)" and "reward_to_value A T (3 / 4) \<le> 600"
proof -
  note th = threshold_bounds [OF acc u]
  from th(2) have lo: "d_lit A 0.01 \<le> 3 / 4" by simp
  from th(3) have hi: "3 / 4 \<le> d_lit A 0.99" by simp
  from reward_to_value_error [OF acc u lo hi, of T] obtain x where
    x: "reward_to_value A T (3 / 4) = trunc_int x"
    and e: "\<bar>x - 546.14353597715121 * ln ((3 / 4) / (1 - 3 / 4))\<bar> \<le> 19000 * u"
    by blast
  define G :: real where "G = 546.14353597715121"
  define H :: real where "H = - (1 / (- 0.00183102048111))"
  define L :: real where "L = ln 3"
  have q: "(3 / 4) / (1 - 3 / 4) = (3::real)" by simp
  from e have e': "\<bar>x - G * L\<bar> \<le> 19000 * u"
    unfolding q G_def L_def .
  from u have "19000 * u \<le> 19 / 10000" by simp
  with e' have e2: "\<bar>x - G * L\<bar> \<le> 19 / 10000" by linarith
  have GH: "\<bar>G - H\<bar> \<le> 1 / 100000000000000"
    using g_inv unfolding G_def H_def by simp
  define y :: real where "y = 1.098612288666"
  have yb: "0 \<le> y" "y \<le> 11 / 10"
    by (simp_all add: y_def)
  from ln_3_near have "\<bar>L - y\<bar> \<le> 5 / 100000"
    unfolding L_def y_def .
  with yb have Lb: "\<bar>L\<bar> \<le> 2" by linarith
  from GH Lb have "\<bar>(G - H) * L\<bar> \<le> (1 / 100000000000000) * 2"
    by (rule abs_mult_bound)
  moreover have "G * L - H * L = (G - H) * L"
    by (simp add: algebra_simps)
  ultimately have d: "\<bar>G * L - H * L\<bar> \<le> 2 / 100000000000000" by simp
  from scaled_ln_3 have "\<bar>H * L - 600\<bar> \<le> 3 / 100"
    unfolding H_def L_def .
  with e2 d have "\<bar>x - 600\<bar> \<le> 1 / 2" by linarith
  then have "\<bar>x - real_of_int 600\<bar> \<le> 1 / 2" by simp
  from trunc_int_between [OF this] show "599 \<le> reward_to_value A T (3 / 4)"
    and "reward_to_value A T (3 / 4) \<le> 600"
    unfolding x by simp_all
qed

text \<open>
  On the arithmetic that does not round: a reward inside the interval, and one on each
  side of it.
\<close>

theorem reward_to_value_formula_witness:
  "accurate exact_arith 0 \<and> (0::real) \<le> 1 / 10 ^ 7
   \<and> d_lit exact_arith 0.01 \<le> 3 / 4 \<and> 3 / 4 \<le> d_lit exact_arith 0.99
   \<and> 599 \<le> reward_to_value exact_arith witness_types (3 / 4)
   \<and> reward_to_value exact_arith witness_types (3 / 4) \<le> 600
   \<and> 1 > d_lit exact_arith 0.99 \<and> reward_to_value exact_arith witness_types 1 = 10000
   \<and> 0 < d_lit exact_arith 0.01 \<and> reward_to_value exact_arith witness_types 0 = - 10000"
proof -
  have u: "(0::real) \<le> 1 / 10 ^ 7" by simp
  note t = reward_to_value_formula [OF accurate_exact u, where T = witness_types]
  have lo: "d_lit exact_arith 0.01 \<le> 3 / 4" and hi: "3 / 4 \<le> d_lit exact_arith 0.99"
    and w: "1 > d_lit exact_arith 0.99" and l: "0 < d_lit exact_arith 0.01"
    by (simp_all add: exact_arith_def)
  from t [of "3 / 4"] lo hi obtain x where
    x: "reward_to_value exact_arith witness_types (3 / 4) = trunc_int x"
    and e: "\<bar>x - (- (1 / (- 0.00183102048111))) * ln ((3 / 4) / (1 - 3 / 4))\<bar> \<le> 1 / 500"
    by blast
  have q: "(3 / 4) / (1 - 3 / 4) = (3::real)" by simp
  define H :: real where "H = (- (1 / (- 0.00183102048111))) * ln 3"
  from e have "\<bar>x - H\<bar> \<le> 1 / 500"
    unfolding q H_def .
  moreover from scaled_ln_3 have "\<bar>H - 600\<bar> \<le> 3 / 100"
    unfolding H_def .
  ultimately have "\<bar>x - 600\<bar> \<le> 1 / 2" by linarith
  then have "\<bar>x - real_of_int 600\<bar> \<le> 1 / 2" by simp
  from trunc_int_between [OF this] have m: "599 \<le> reward_to_value exact_arith witness_types (3 / 4)"
    "reward_to_value exact_arith witness_types (3 / 4) \<le> 600"
    unfolding x by simp_all
  from t [of 1] w have a: "reward_to_value exact_arith witness_types 1 = 10000"
    by (simp add: witness_types_def)
  from t [of 0] l have b: "reward_to_value exact_arith witness_types 0 = - 10000"
    by (simp add: witness_types_def)
  from accurate_exact u lo hi m w a l b show ?thesis by blast
qed

text \<open>
  The claim as stated has the factor \<open>1 / k\<close>, which is negative. At \<open>r = 0.75\<close>, inside
  the interval, the code returns 599 or 600, while \<open>(1 / k) * ln 3\<close> is below \<open>-599\<close>.
\<close>

theorem reward_to_value_claim_counterexample:
  "d_lit exact_arith 0.01 \<le> 3 / 4 \<and> 3 / 4 \<le> d_lit exact_arith 0.99
   \<and> 599 \<le> reward_to_value exact_arith witness_types (3 / 4)
   \<and> (1 / (- 0.00183102048111)) * ln ((3 / 4) / (1 - 3 / 4) :: real) < - 599"
proof -
  have u: "(0::real) \<le> 1 / 10 ^ 7" by simp
  have lo: "d_lit exact_arith 0.01 \<le> 3 / 4" and hi: "3 / 4 \<le> d_lit exact_arith 0.99"
    by (simp_all add: exact_arith_def)
  note m = three_quarters_value(1) [OF accurate_exact u, of witness_types]
  have q: "(3 / 4) / (1 - 3 / 4) = (3::real)" by simp
  define H :: real where "H = (- (1 / (- 0.00183102048111))) * ln 3"
  from scaled_ln_3 have "\<bar>H - 600\<bar> \<le> 3 / 100"
    unfolding H_def .
  then have "- H < - 599" by linarith
  moreover have "(1 / (- 0.00183102048111)) * ln ((3 / 4) / (1 - 3 / 4) :: real) = - H"
    unfolding H_def q by simp
  ultimately have "(1 / (- 0.00183102048111)) * ln ((3 / 4) / (1 - 3 / 4) :: real) < - 599"
    by (simp only:)
  with lo hi m show ?thesis by blast
qed

lemma exp_5_le: "exp (5::real) \<le> 243"
proof -
  have "exp (1::real) \<le> 1 + 1 + 1\<^sup>2" by (rule exp_bound) simp_all
  then have e1: "exp (1::real) \<le> 3" by simp
  have "exp (5::real) = exp 1 * exp 1 * exp 1 * exp 1 * exp 1"
    by (simp add: exp_add [symmetric])
  moreover have "exp (1::real) * exp 1 * exp 1 * exp 1 * exp 1 \<le> 3 * 3 * 3 * 3 * 3"
    using e1 by (intro mult_mono) simp_all
  ultimately show ?thesis by simp
qed

lemma exp_range_5:
  fixes t :: real
  assumes "\<bar>t\<bar> \<le> 5"
  shows "1 / 243 \<le> exp t" and "exp t \<le> 243"
proof -
  from assms have "exp t \<le> exp 5" by simp
  with exp_5_le show "exp t \<le> 243" by linarith
  from assms have "exp (- t) \<le> exp 5" by simp
  with exp_5_le have "exp (- t) \<le> 243" by linarith
  then have "1 / exp t \<le> 243"
    by (simp add: exp_minus divide_inverse)
  then show "1 / 243 \<le> exp t"
    by (simp add: field_simps)
qed

lemma value_to_reward_parts:
  assumes acc: "accurate A u" and u: "u \<le> 1 / 10 ^ 7" and v: "\<bar>v\<bar> \<le> 2509"
  shows "\<exists>e c. value_to_reward A v = c / (1 + e) \<and> 0 < e \<and> 0 < c
            \<and> \<bar>ln e + 0.00183102048111 * real_of_int v\<bar> \<le> 19 * u \<and> \<bar>ln c\<bar> \<le> 8 * u"
proof -
  note a = accurateD [OF acc]
  note u0 = a(1)
  from u have u7: "u \<le> 1 / 10000000" by simp
  from u7 u0 have us: "2 * u \<le> 1 / 2" by simp
  define V where "V = real_of_int v"
  from v have Vb: "\<bar>V\<bar> \<le> 2509"
    unfolding V_def by linarith
  define K :: real where "K = 0.00183102048111"
  have Kb: "0 < K" "K \<le> 2 / 1000" "K * 2509 \<le> 459404 / 100000"
    by (simp_all add: K_def)
  \<comment> \<open>the constant \<open>k\<close> and the product \<open>k * v\<close>\<close>
  define kl where "kl = d_lit A K"
  have "\<bar>K\<bar> \<le> d_huge"
    using Kb d_huge_bound by simp
  then have "\<bar>kl - K\<bar> \<le> u * (\<bar>K\<bar> + d_tiny)"
    unfolding kl_def by (rule a(2))
  from abs_error [OF u0 this, of "2 / 1000"] Kb
  have "\<bar>kl - K\<bar> \<le> u * (2 / 1000 + 1 / 1000000)" by simp
  moreover have "u * (2 / 1000 + 1 / 1000000) \<le> u * (3 / 1000)"
    using u0 by (intro mult_left_mono) simp_all
  ultimately have k1: "\<bar>kl - K\<bar> \<le> (3 / 1000) * u" by simp
  with u7 Kb have kb: "\<bar>- kl\<bar> \<le> 21 / 10000" by linarith
  define p where "p = (- kl) * V"
  have pb: "\<bar>p\<bar> \<le> (21 / 10000) * 2509"
    unfolding p_def using kb Vb by (rule abs_mult_bound)
  then have pb': "\<bar>p\<bar> \<le> 6" by simp
  define t where "t = d_mul A (- kl) V"
  have "\<bar>p\<bar> \<le> d_huge"
    using pb' d_huge_bound by linarith
  then have "\<bar>t - p\<bar> \<le> u * (\<bar>p\<bar> + d_tiny)"
    unfolding t_def p_def by (rule a(5))
  from abs_error [OF u0 this pb'] have "\<bar>t - p\<bar> \<le> u * (6 + 1 / 1000000)" .
  moreover have "u * (6 + 1 / 1000000) \<le> u * 7"
    using u0 by (intro mult_left_mono) simp_all
  ultimately have t1: "\<bar>t - p\<bar> \<le> 7 * u" by simp
  have k1': "\<bar>K - kl\<bar> \<le> (3 / 1000) * u"
    using k1 by (simp only: abs_minus_commute)
  have "\<bar>(K - kl) * V\<bar> \<le> ((3 / 1000) * u) * 2509"
    using k1' Vb by (rule abs_mult_bound)
  moreover have "p + K * V = (K - kl) * V"
    unfolding p_def by (simp add: algebra_simps)
  ultimately have "\<bar>p + K * V\<bar> \<le> 8 * u" by simp
  with t1 have tK: "\<bar>t + K * V\<bar> \<le> 15 * u" by linarith
  have KV: "\<bar>K * V\<bar> \<le> 459404 / 100000"
  proof -
    have "\<bar>K\<bar> \<le> K" using Kb by simp
    then have "\<bar>K * V\<bar> \<le> K * 2509"
      using Vb by (rule abs_mult_bound)
    with Kb(3) show ?thesis by linarith
  qed
  with tK u7 have tb: "\<bar>t\<bar> \<le> 5" by linarith
  \<comment> \<open>the exponential\<close>
  define E where "E = exp t"
  from exp_range_5 [OF tb] have Eb: "1 / 243 \<le> E" "E \<le> 243"
    unfolding E_def by simp_all
  then have Ep: "0 < E" by linarith
  define e where "e = d_exp A t"
  have "\<bar>e - E\<bar> \<le> u * (E + d_tiny)"
    unfolding e_def E_def using tb by (intro a(7)) simp
  then have "\<bar>e - E\<bar> \<le> u * (\<bar>E\<bar> + d_tiny)"
    using Ep by simp
  from rel_error [OF u0 this] Eb Ep have e1: "\<bar>e - E\<bar> \<le> 2 * u * E"
    by simp
  note el = ln_rel [OF Ep e1 _ us]
  from u0 have ep: "0 < e" and eln: "\<bar>ln e - ln E\<bar> \<le> 4 * u"
    using el by simp_all
  have "ln E = t" unfolding E_def by simp
  with eln tK have eK: "\<bar>ln e + K * V\<bar> \<le> 19 * u" by linarith
  have "2 * u * E \<le> (1 / 2) * E"
    using us Ep by (intro mult_right_mono) simp_all
  with e1 Eb have eh: "e \<le> 500" by linarith
  \<comment> \<open>the sum and the quotient\<close>
  define S where "S = 1 + e"
  from ep eh have Sb: "1 \<le> S" "S \<le> 501"
    unfolding S_def by simp_all
  then have Sp: "0 < S" by linarith
  define s where "s = d_add A 1 e"
  have "\<bar>S\<bar> \<le> d_huge"
    using Sb d_huge_bound by linarith
  then have "\<bar>s - S\<bar> \<le> u * (\<bar>S\<bar> + d_tiny)"
    unfolding s_def S_def by (rule a(3))
  from rel_error [OF u0 this] Sb have s1: "\<bar>s - S\<bar> \<le> 2 * u * S"
    by simp
  note sl = ln_rel [OF Sp s1 _ us]
  from u0 have sp: "0 < s" and sln: "\<bar>ln s - ln S\<bar> \<le> 4 * u"
    using sl by simp_all
  have "2 * u * S \<le> (1 / 2) * S"
    using us Sp by (intro mult_right_mono) simp_all
  with s1 Sb have sb: "1 / 2 \<le> s" "s \<le> 1000" by linarith+
  define R where "R = 1 / s"
  from sb sp have Rb: "1 / 1000 \<le> R" "R \<le> 2"
    unfolding R_def by (simp_all add: field_simps)
  then have Rp: "0 < R" by linarith
  define r where "r = d_div A 1 s"
  have "\<bar>R\<bar> \<le> d_huge"
    using Rb d_huge_bound by linarith
  then have "\<bar>r - R\<bar> \<le> u * (\<bar>R\<bar> + d_tiny)"
    unfolding r_def R_def using sp by (intro a(6)) simp_all
  from rel_error [OF u0 this] Rb have r1: "\<bar>r - R\<bar> \<le> 2 * u * R"
    by simp
  note rl = ln_rel [OF Rp r1 _ us]
  from u0 have rp: "0 < r" and rln: "\<bar>ln r - ln R\<bar> \<le> 4 * u"
    using rl by simp_all
  have "ln R = - ln s"
    unfolding R_def using sp by (simp add: ln_div)
  with rln sln have rS: "\<bar>ln r + ln S\<bar> \<le> 8 * u" by linarith
  define c where "c = r * S"
  have cp: "0 < c" unfolding c_def using rp Sp by simp
  have "ln c = ln r + ln S"
    unfolding c_def using rp Sp by (simp add: ln_mult)
  with rS have cl: "\<bar>ln c\<bar> \<le> 8 * u" by simp
  have "value_to_reward A v = r"
    by (simp add: value_to_reward_def Let_def r_def s_def e_def t_def kl_def K_def V_def)
  moreover have "r = c / (1 + e)"
    unfolding c_def S_def using ep by simp
  ultimately have "value_to_reward A v = c / (1 + e)" by simp
  with ep cp eK cl show ?thesis
    unfolding K_def V_def by blast
qed

lemma exp_sum_10_at_1148525: "(\<Sum>m<10. (1.148525 :: real) ^ m / fact m) \<le> 3.15354"
  unfolding exp_sum_10 by (simp add: power_divide)

lemma exp_rem_10_at_1148525: "9 * (1.148525::real) ^ 10 / fact 10 \<le> 1 / 100000"
  by (simp add: power_divide fact_numeral)

lemma exp_1148525: "exp (1.148525 :: real) \<le> 3.15394"
proof -
  let ?x = "1.148525 :: real"
  obtain t where t: "\<bar>t\<bar> \<le> \<bar>?x\<bar>"
    and e: "exp ?x = (\<Sum>m<10. ?x ^ m / fact m) + (exp t / fact 10) * ?x ^ 10"
    using Maclaurin_exp_le [of ?x 10] by blast
  from t have "\<bar>t\<bar> \<le> 2" by simp
  then have e9: "exp t \<le> 9" by (rule exp_le_9)
  define P where "P = ?x ^ 10 / fact 10"
  have P0: "0 \<le> P" unfolding P_def by simp
  have "9 * P = 9 * ?x ^ 10 / fact 10" unfolding P_def by simp
  with exp_rem_10_at_1148525 have P9: "9 * P \<le> 1 / 100000" by simp
  from e9 P0 have "exp t * P \<le> 9 * P" by (rule mult_right_mono)
  with P9 have r: "exp t * P \<le> 1 / 100000" by linarith
  define S where "S = (\<Sum>m<10. ?x ^ m / fact m)"
  from exp_sum_10_at_1148525 have "S \<le> 315354 / 100000"
    unfolding S_def by simp
  moreover have "(exp t / fact 10) * ?x ^ 10 = exp t * P"
    unfolding P_def by simp
  with e have "exp ?x = S + exp t * P" unfolding S_def by simp
  ultimately have "exp ?x \<le> 315394 / 100000" using r by linarith
  then show ?thesis by simp
qed

lemma exp_45941: "exp (4.5941 :: real) \<le> 98.95"
proof -
  have "(4.5941 :: real) = of_nat 4 * 1.148525" by simp
  then have "exp (4.5941 :: real) = exp 1.148525 ^ 4"
    by (simp only: exp_of_nat_mult)
  also have "\<dots> \<le> 3.15394 ^ 4"
    using exp_1148525 by (intro power_mono) simp_all
  also have "\<dots> \<le> 98.95" by (simp add: power_divide)
  finally show ?thesis .
qed

lemma exp_ln_range:
  fixes e :: real
  assumes "0 < e" and "\<bar>ln e\<bar> \<le> 45941 / 10000"
  shows "100 / 9895 \<le> e" and "e \<le> 9895 / 100"
proof -
  define B :: real where "B = exp 4.5941"
  have Bb: "B \<le> 9895 / 100" "0 < B"
    using exp_45941 unfolding B_def by simp_all
  from assms(2) have "ln e \<le> 4.5941" by simp
  then have "exp (ln e) \<le> B"
    unfolding B_def by (simp only: exp_le_cancel_iff)
  with assms(1) have eB: "e \<le> B" by simp
  with Bb show "e \<le> 9895 / 100" by linarith
  from assms(2) have "- ln e \<le> 4.5941" by simp
  then have "exp (- ln e) \<le> B"
    unfolding B_def by (simp only: exp_le_cancel_iff)
  with assms(1) have "1 / e \<le> B"
    by (simp add: exp_minus divide_inverse)
  with assms(1) Bb have "1 / B \<le> e"
    by (simp add: field_simps)
  moreover have "100 / 9895 \<le> 1 / B"
    using Bb by (simp add: field_simps)
  ultimately show "100 / 9895 \<le> e" by linarith
qed

lemma near_one:
  fixes c u :: real
  assumes "0 < c" and "\<bar>ln c\<bar> \<le> 8 * u" and "u \<le> 1 / 10000000"
  shows "\<bar>c - 1\<bar> \<le> 16 * u"
proof -
  from assms(2,3) have "\<bar>ln c\<bar> \<le> 1 / 2" by linarith
  from exp_rel [OF this] assms(1) have "\<bar>c - 1\<bar> \<le> 2 * \<bar>ln c\<bar>" by simp
  with assms(2) show ?thesis by linarith
qed

lemma reward_in_range:
  fixes c e u :: real
  assumes c: "0 < c" and cl: "\<bar>ln c\<bar> \<le> 8 * u" and u0: "0 \<le> u" and u: "u \<le> 1 / 10000000"
    and e1: "100 / 9895 \<le> e" and e2: "e \<le> 9895 / 100"
  shows "10001 / 1000000 \<le> c / (1 + e)" and "c / (1 + e) \<le> 989999 / 1000000"
proof -
  from near_one [OF c cl u] u have cb: "9999984 / 10000000 \<le> c" "c \<le> 10000016 / 10000000"
    by linarith+
  from e1 have ep: "0 < 1 + e" by linarith
  have "c / (1 + e) \<le> (10000016 / 10000000) / (1 + 100 / 9895)"
    using cb c e1 by (intro frac_le) simp_all
  also have "\<dots> \<le> 989999 / 1000000" by simp
  finally show "c / (1 + e) \<le> 989999 / 1000000" .
  have "10001 / 1000000 \<le> (9999984 / 10000000) / (1 + 9895 / 100 :: real)" by simp
  also have "\<dots> \<le> c / (1 + e)"
    using cb ep e2 by (intro frac_le) simp_all
  finally show "10001 / 1000000 \<le> c / (1 + e)" .
qed

lemma logit_of_reward:
  fixes c e u :: real
  assumes c: "0 < c" and cl: "\<bar>ln c\<bar> \<le> 8 * u" and u0: "0 \<le> u" and u: "u \<le> 1 / 10000000"
    and e1: "1 / 100 \<le> e"
  shows "\<bar>ln ((c / (1 + e)) / (1 - c / (1 + e))) + ln e\<bar> \<le> 3208 * u"
proof -
  define a where "a = e - (c - 1)"
  note cb = near_one [OF c cl u]
  from e1 have ep: "0 < e" "0 < 1 + e" by linarith+
  have "16 * u = (1600 * u) * (1 / 100)" by simp
  also have "\<dots> \<le> (1600 * u) * e"
    using e1 u0 by (intro mult_left_mono) simp_all
  finally have "16 * u \<le> (1600 * u) * e" .
  have "a - e = - (c - 1)" unfolding a_def by simp
  then have "\<bar>a - e\<bar> = \<bar>c - 1\<bar>" by (simp only: abs_minus)
  with cb \<open>16 * u \<le> (1600 * u) * e\<close> have ae: "\<bar>a - e\<bar> \<le> (1600 * u) * e"
    by linarith
  from u u0 have "0 \<le> 1600 * u" "1600 * u \<le> 1 / 2" by simp_all
  from ln_rel [OF ep(1) ae this] have ap: "0 < a" and al: "\<bar>ln a - ln e\<bar> \<le> 2 * (1600 * u)"
    by simp_all
  have w: "1 - c / (1 + e) = a / (1 + e)"
    unfolding a_def using ep by (simp add: field_simps)
  have "(c / (1 + e)) / (1 - c / (1 + e)) = (c / (1 + e)) / (a / (1 + e))"
    by (simp only: w)
  also have "\<dots> = c / a"
    using ep by simp
  finally have q: "(c / (1 + e)) / (1 - c / (1 + e)) = c / a" .
  have lq: "ln ((c / (1 + e)) / (1 - c / (1 + e))) = ln c - ln a"
    unfolding q using c ap by (simp add: ln_div)
  show ?thesis
    unfolding lq using cl al by linarith
qed

lemma trunc_int_neg: "x < 0 \<Longrightarrow> trunc_int x = - trunc_int (- x)"
  by (simp add: trunc_int_def ceiling_def)

lemma trunc_int_round_trip:
  assumes "\<bar>x - real_of_int v\<bar> \<le> 1 / 2"
  shows "trunc_int x = v \<or> trunc_int x = v - sgn v"
proof -
  consider "0 < v" | "v < 0" | "v = 0" by linarith
  then show ?thesis
  proof cases
    case 1
    from trunc_int_between [OF assms 1] have "trunc_int x = v \<or> trunc_int x = v - 1"
      by linarith
    with 1 show ?thesis by simp
  next
    case 2
    then have n: "0 < - v" by simp
    have "- x - real_of_int (- v) = - (x - real_of_int v)" by simp
    then have "\<bar>- x - real_of_int (- v)\<bar> = \<bar>x - real_of_int v\<bar>"
      by (simp only: abs_minus)
    with assms have "\<bar>- x - real_of_int (- v)\<bar> \<le> 1 / 2" by simp
    from trunc_int_between [OF this n]
    have "trunc_int (- x) = - v \<or> trunc_int (- x) = - v - 1"
      by linarith
    moreover from 2 have "real_of_int v \<le> - 1" by simp
    with assms have "x < 0" by linarith
    then have "trunc_int x = - trunc_int (- x)" by (rule trunc_int_neg)
    ultimately have "trunc_int x = v \<or> trunc_int x = v + 1" by linarith
    with 2 show ?thesis by simp
  next
    case 3
    with assms have "\<bar>x\<bar> \<le> 1 / 2" by simp
    then have "trunc_int x = 0"
      unfolding trunc_int_def by (auto simp: floor_eq_iff ceiling_eq_iff)
    with 3 show ?thesis by simp
  qed
qed

text \<open>
  Beyond the range: for \<open>|v| \<ge> 2510\<close> the computed reward is outside the two thresholds.
  The values are taken up to \<open>100000\<close> in magnitude, where the exponential neither
  overflows nor underflows.
\<close>

lemma rel_error_tiny:
  fixes f r u :: real
  assumes "0 \<le> u" and "\<bar>f - r\<bar> \<le> u * (\<bar>r\<bar> + d_tiny)" and "d_tiny \<le> \<bar>r\<bar>"
  shows "\<bar>f - r\<bar> \<le> 2 * u * \<bar>r\<bar>"
proof -
  from assms(3) have "\<bar>r\<bar> + d_tiny \<le> 2 * \<bar>r\<bar>" by linarith
  with assms(1) have "u * (\<bar>r\<bar> + d_tiny) \<le> u * (2 * \<bar>r\<bar>)"
    by (rule mult_left_mono [rotated])
  with assms(2) show ?thesis by simp
qed

lemma exp_range_211:
  fixes t :: real
  assumes "\<bar>t\<bar> \<le> 211"
  shows "1 / 3 ^ 211 \<le> exp t" and "exp t \<le> 3 ^ 211"
proof -
  have "exp (1::real) \<le> 1 + 1 + 1\<^sup>2" by (rule exp_bound) simp_all
  then have e1: "exp (1::real) \<le> 3" by simp
  have "(211::real) = of_nat 211 * 1" by simp
  then have "exp (211::real) = exp 1 ^ 211"
    by (simp only: exp_of_nat_mult)
  also have "\<dots> \<le> 3 ^ 211"
    using e1 by (intro power_mono) simp_all
  finally have b: "exp (211::real) \<le> 3 ^ 211" .
  from assms have "exp t \<le> exp 211" by simp
  with b show "exp t \<le> 3 ^ 211" by linarith
  from assms have "exp (- t) \<le> exp 211" by simp
  with b have "exp (- t) \<le> 3 ^ 211" by linarith
  then have "1 / exp t \<le> 3 ^ 211"
    by (simp add: exp_minus divide_inverse)
  then show "1 / 3 ^ 211 \<le> exp t"
    by (simp add: field_simps)
qed

lemma value_to_reward_parts_wide:
  assumes acc: "accurate A u" and u: "u \<le> 1 / 10 ^ 7" and v: "\<bar>v\<bar> \<le> 100000"
  shows "\<exists>e c. value_to_reward A v = c / (1 + e) \<and> 0 < e \<and> 0 < c
            \<and> \<bar>ln e + 0.00183102048111 * real_of_int v\<bar> \<le> 520 * u \<and> \<bar>ln c\<bar> \<le> 8 * u"
proof -
  note a = accurateD [OF acc]
  note u0 = a(1)
  from u have u7: "u \<le> 1 / 10000000" by simp
  from u7 u0 have us: "2 * u \<le> 1 / 2" by simp
  define V where "V = real_of_int v"
  from v have Vb: "\<bar>V\<bar> \<le> 100000"
    unfolding V_def by linarith
  define K :: real where "K = 0.00183102048111"
  have Kb: "0 < K" "K \<le> 2 / 1000"
    by (simp_all add: K_def)
  define X :: real where "X = 3 ^ 211"
  have Xb: "1 \<le> X" "4 * X + 2 \<le> d_huge" "d_tiny * (4 * X + 2) \<le> 1" "d_tiny * X \<le> 1"
    by (simp_all add: X_def d_huge_def d_tiny_def)
  \<comment> \<open>the constant \<open>k\<close> and the product \<open>k * v\<close>\<close>
  define kl where "kl = d_lit A K"
  have "\<bar>K\<bar> \<le> d_huge"
    using Kb d_huge_bound by simp
  then have "\<bar>kl - K\<bar> \<le> u * (\<bar>K\<bar> + d_tiny)"
    unfolding kl_def by (rule a(2))
  from abs_error [OF u0 this, of "2 / 1000"] Kb
  have "\<bar>kl - K\<bar> \<le> u * (2 / 1000 + 1 / 1000000)" by simp
  moreover have "u * (2 / 1000 + 1 / 1000000) \<le> u * (3 / 1000)"
    using u0 by (intro mult_left_mono) simp_all
  ultimately have k1: "\<bar>kl - K\<bar> \<le> (3 / 1000) * u" by simp
  with u7 Kb have kb: "\<bar>- kl\<bar> \<le> 21 / 10000" by linarith
  define p where "p = (- kl) * V"
  have pb: "\<bar>p\<bar> \<le> (21 / 10000) * 100000"
    unfolding p_def using kb Vb by (rule abs_mult_bound)
  then have pb': "\<bar>p\<bar> \<le> 210" by simp
  define t where "t = d_mul A (- kl) V"
  have "\<bar>p\<bar> \<le> d_huge"
    using pb' d_huge_bound by linarith
  then have "\<bar>t - p\<bar> \<le> u * (\<bar>p\<bar> + d_tiny)"
    unfolding t_def p_def by (rule a(5))
  from abs_error [OF u0 this pb'] have "\<bar>t - p\<bar> \<le> u * (210 + 1 / 1000000)" .
  moreover have "u * (210 + 1 / 1000000) \<le> u * 211"
    using u0 by (intro mult_left_mono) simp_all
  ultimately have t1: "\<bar>t - p\<bar> \<le> 211 * u" by simp
  have k1': "\<bar>K - kl\<bar> \<le> (3 / 1000) * u"
    using k1 by (simp only: abs_minus_commute)
  have "\<bar>(K - kl) * V\<bar> \<le> ((3 / 1000) * u) * 100000"
    using k1' Vb by (rule abs_mult_bound)
  moreover have "p + K * V = (K - kl) * V"
    unfolding p_def by (simp add: algebra_simps)
  ultimately have "\<bar>p + K * V\<bar> \<le> 300 * u" by simp
  with t1 have tK: "\<bar>t + K * V\<bar> \<le> 511 * u" by linarith
  from t1 pb' u7 have tb: "\<bar>t\<bar> \<le> 211" by linarith
  \<comment> \<open>the exponential\<close>
  define E where "E = exp t"
  from exp_range_211 [OF tb] have Eb: "1 / X \<le> E" "E \<le> X"
    unfolding E_def X_def by simp_all
  have Ep: "0 < E" unfolding E_def by simp
  from Xb(1,4) have "d_tiny \<le> 1 / X" by (simp add: field_simps)
  with Eb(1) Ep have Et: "d_tiny \<le> \<bar>E\<bar>" by linarith
  define e where "e = d_exp A t"
  have "\<bar>e - E\<bar> \<le> u * (E + d_tiny)"
    unfolding e_def E_def using tb by (intro a(7)) simp
  then have "\<bar>e - E\<bar> \<le> u * (\<bar>E\<bar> + d_tiny)"
    using Ep by simp
  from rel_error_tiny [OF u0 this Et] Ep have e1: "\<bar>e - E\<bar> \<le> 2 * u * E"
    by simp
  note el = ln_rel [OF Ep e1 _ us]
  from u0 have ep: "0 < e" and eln: "\<bar>ln e - ln E\<bar> \<le> 4 * u"
    using el by simp_all
  have "ln E = t" unfolding E_def by simp
  with eln tK have eK: "\<bar>ln e + K * V\<bar> \<le> 520 * u" by linarith
  have "2 * u * E \<le> (1 / 2) * E"
    using us Ep by (intro mult_right_mono) simp_all
  with e1 Eb have eh: "e \<le> 2 * X" by linarith
  \<comment> \<open>the sum and the quotient\<close>
  define S where "S = 1 + e"
  from ep eh have Sb: "1 \<le> S" "S \<le> 2 * X + 1"
    unfolding S_def by simp_all
  then have Sp: "0 < S" by linarith
  define s where "s = d_add A 1 e"
  have "\<bar>S\<bar> \<le> d_huge"
    using Sb Xb by linarith
  then have "\<bar>s - S\<bar> \<le> u * (\<bar>S\<bar> + d_tiny)"
    unfolding s_def S_def by (rule a(3))
  from rel_error [OF u0 this] Sb have s1: "\<bar>s - S\<bar> \<le> 2 * u * S"
    by simp
  note sl = ln_rel [OF Sp s1 _ us]
  from u0 have sp: "0 < s" and sln: "\<bar>ln s - ln S\<bar> \<le> 4 * u"
    using sl by simp_all
  have "2 * u * S \<le> (1 / 2) * S"
    using us Sp by (intro mult_right_mono) simp_all
  with s1 Sb have sb: "1 / 2 \<le> s" "s \<le> 4 * X + 2" by linarith+
  define R where "R = 1 / s"
  from sb sp have Rb: "1 / (4 * X + 2) \<le> R" "R \<le> 2"
    unfolding R_def by (simp_all add: field_simps)
  from sp have Rp: "0 < R" unfolding R_def by simp
  from Xb(1,3) have "d_tiny \<le> 1 / (4 * X + 2)" by (simp add: field_simps)
  with Rb(1) Rp have Rt: "d_tiny \<le> \<bar>R\<bar>" by linarith
  define r where "r = d_div A 1 s"
  have "\<bar>R\<bar> \<le> d_huge"
    using Rb Rp d_huge_bound by linarith
  then have "\<bar>r - R\<bar> \<le> u * (\<bar>R\<bar> + d_tiny)"
    unfolding r_def R_def using sp by (intro a(6)) simp_all
  from rel_error_tiny [OF u0 this Rt] Rp have r1: "\<bar>r - R\<bar> \<le> 2 * u * R"
    by simp
  note rl = ln_rel [OF Rp r1 _ us]
  from u0 have rp: "0 < r" and rln: "\<bar>ln r - ln R\<bar> \<le> 4 * u"
    using rl by simp_all
  have "ln R = - ln s"
    unfolding R_def using sp by (simp add: ln_div)
  with rln sln have rS: "\<bar>ln r + ln S\<bar> \<le> 8 * u" by linarith
  define c where "c = r * S"
  have cp: "0 < c" unfolding c_def using rp Sp by simp
  have "ln c = ln r + ln S"
    unfolding c_def using rp Sp by (simp add: ln_mult)
  with rS have cl: "\<bar>ln c\<bar> \<le> 8 * u" by simp
  have "value_to_reward A v = r"
    by (simp add: value_to_reward_def Let_def r_def s_def e_def t_def kl_def K_def V_def)
  moreover have "r = c / (1 + e)"
    unfolding c_def S_def using ep by simp
  ultimately have "value_to_reward A v = c / (1 + e)" by simp
  with ep cp eK cl show ?thesis
    unfolding K_def V_def by blast
qed

lemma exp_sum_10_at_114895: "3.15487 \<le> (\<Sum>m<10. (1.14895 :: real) ^ m / fact m)"
  unfolding exp_sum_10 by (simp add: power_divide)

lemma exp_114895: "3.15487 \<le> exp (1.14895 :: real)"
proof -
  let ?x = "1.14895 :: real"
  obtain t where e: "exp ?x = (\<Sum>m<10. ?x ^ m / fact m) + (exp t / fact 10) * ?x ^ 10"
    using Maclaurin_exp_le [of ?x 10] by blast
  have "0 \<le> (exp t / fact 10) * ?x ^ 10" by simp
  with e exp_sum_10_at_114895 show ?thesis by linarith
qed

lemma exp_45958: "99.06 \<le> exp (4.5958 :: real)"
proof -
  have "(99.06 :: real) \<le> 3.15487 ^ 4" by (simp add: power_divide)
  also have "\<dots> \<le> exp 1.14895 ^ 4"
    using exp_114895 by (intro power_mono) simp_all
  also have "\<dots> = exp (of_nat 4 * 1.14895)"
    by (simp only: exp_of_nat_mult)
  also have "\<dots> = exp 4.5958" by simp
  finally show ?thesis .
qed

lemma reward_beyond_range:
  assumes acc: "accurate A u" and u: "u \<le> 1 / 10 ^ 7" and v: "2510 \<le> \<bar>v\<bar>" "\<bar>v\<bar> \<le> 100000"
  shows "0 < v \<Longrightarrow> d_lit A 0.99 < value_to_reward A v"
    and "v < 0 \<Longrightarrow> value_to_reward A v < d_lit A 0.01"
proof -
  note a = accurateD [OF acc]
  from u have u7: "u \<le> 1 / 10000000" by simp
  define K :: real where "K = 0.00183102048111"
  have Kb: "45958614 / 10000000 \<le> K * 2510" "0 < K" by (simp_all add: K_def)
  define V where "V = real_of_int v"
  define y :: real where "y = 4.5958"
  have y: "y = 45958 / 10000" by (simp add: y_def)
  define X :: real where "X = exp y"
  have Xb: "9906 / 100 \<le> X" using exp_45958 by (simp add: X_def y_def)
  from value_to_reward_parts_wide [OF acc u v(2)]
  obtain e c where r: "value_to_reward A v = c / (1 + e)" and e: "0 < e" and c: "0 < c"
    and le: "\<bar>ln e + K * V\<bar> \<le> 520 * u" and lc: "\<bar>ln c\<bar> \<le> 8 * u"
    unfolding K_def V_def by blast
  from near_one [OF c lc u7] u7 have cb: "9999984 / 10000000 \<le> c" "c \<le> 10000016 / 10000000"
    by linarith+
  note th = threshold_bounds [OF acc u]
  define t1 where "t1 = d_lit A 0.01"
  define t2 where "t2 = d_lit A 0.99"
  from th(5) have "\<bar>t1 - 1 / 100\<bar> \<le> 1 / 100000000" unfolding t1_def by simp
  then have lo: "999999 / 100000000 \<le> t1" by linarith
  from th(6) have "\<bar>t2 - 99 / 100\<bar> \<le> 1 / 10000000" unfolding t2_def by simp
  then have hi: "t2 \<le> 9900001 / 10000000" by linarith
  show "d_lit A 0.99 < value_to_reward A v" if "0 < v"
  proof -
    from that v(1) have "2510 \<le> V" unfolding V_def by linarith
    with Kb(2) have "K * 2510 \<le> K * V" by simp
    with Kb(1) le u7 y have "ln e \<le> - y" by linarith
    then have "exp (ln e) \<le> exp (- y)" by (simp only: exp_le_cancel_iff)
    moreover have "exp (ln e) = e" using e by (rule exp_ln)
    moreover have "exp (- y) = 1 / X" unfolding X_def by (simp only: exp_minus inverse_eq_divide)
    ultimately have "e \<le> 1 / X" by (simp only:)
    also have "\<dots> \<le> 1 / (9906 / 100)"
      using Xb by (intro divide_left_mono) simp_all
    finally have eb: "e \<le> 100 / 9906" by simp
    have "(9900002 / 10000000) * (1 + e) = 9900002 / 10000000 + (9900002 / 10000000) * e"
      by (simp add: algebra_simps)
    with eb cb have "(9900002 / 10000000) * (1 + e) \<le> c" by linarith
    with e have "9900002 / 10000000 \<le> c / (1 + e)"
      by (simp add: pos_le_divide_eq)
    with hi r have "t2 < value_to_reward A v" by linarith
    then show ?thesis unfolding t2_def .
  qed
  show "value_to_reward A v < d_lit A 0.01" if "v < 0"
  proof -
    from that v(1) have "V \<le> - 2510" unfolding V_def by linarith
    with Kb(2) have "K * V \<le> K * (- 2510)" by (intro mult_left_mono) simp_all
    with Kb(1) le u7 y have "y \<le> ln e" by linarith
    then have "exp y \<le> exp (ln e)" by (simp only: exp_le_cancel_iff)
    moreover have "exp (ln e) = e" using e by (rule exp_ln)
    ultimately have "X \<le> e" unfolding X_def by (simp only:)
    with Xb have eb: "9906 / 100 \<le> e" by linarith
    have "(99999 / 10000000) * (1 + e) = 99999 / 10000000 + (99999 / 10000000) * e"
      by (simp add: algebra_simps)
    with eb cb have "c \<le> (99999 / 10000000) * (1 + e)" by linarith
    with e have "c / (1 + e) \<le> 99999 / 10000000"
      by (simp add: pos_divide_le_eq)
    with lo r have "value_to_reward A v < t1" by linarith
    then show ?thesis unfolding t1_def .
  qed
qed

lemma g_times_k: "(546.14353597715121::real) * 0.00183102048111 = 1 + 25014186431 / 10 ^ 28"
  by simp

lemma round_trip:
  assumes acc: "accurate A u" and u: "u \<le> 1 / 10 ^ 7" and v: "\<bar>v\<bar> \<le> 2509"
  shows "d_lit A 0.01 \<le> value_to_reward A v" and "value_to_reward A v \<le> d_lit A 0.99"
    and "reward_to_value A T (value_to_reward A v) = v
         \<or> reward_to_value A T (value_to_reward A v) = v - sgn v"
proof -
  note u0 = accurateD(1) [OF acc]
  from u have u7: "u \<le> 1 / 10000000" by simp
  note th = threshold_bounds [OF acc u]
  define K :: real where "K = 0.00183102048111"
  define G :: real where "G = 546.14353597715121"
  define V where "V = real_of_int v"
  from v have Vb: "\<bar>V\<bar> \<le> 2509"
    unfolding V_def by linarith
  have Kb: "0 < K" "K * 2509 \<le> 459404 / 100000"
    by (simp_all add: K_def)
  have Gb: "0 \<le> G" "G \<le> 547"
    by (simp_all add: G_def)
  from value_to_reward_parts [OF acc u v] obtain e c where
    r: "value_to_reward A v = c / (1 + e)" and ep: "0 < e" and cp: "0 < c"
    and eK: "\<bar>ln e + K * V\<bar> \<le> 19 * u" and cl: "\<bar>ln c\<bar> \<le> 8 * u"
    unfolding K_def V_def by blast
  have KV: "\<bar>K * V\<bar> \<le> 459404 / 100000"
  proof -
    have "\<bar>K\<bar> \<le> K" using Kb by simp
    then have "\<bar>K * V\<bar> \<le> K * 2509"
      using Vb by (rule abs_mult_bound)
    with Kb(2) show ?thesis by linarith
  qed
  with eK u7 have "\<bar>ln e\<bar> \<le> 45941 / 10000" by linarith
  note eb = exp_ln_range [OF ep this]
  note rr = reward_in_range [OF cp cl u0 u7 eb]
  from th(2) rr(1) show lo: "d_lit A 0.01 \<le> value_to_reward A v"
    unfolding r by linarith
  from rr(2) th(3) show hi: "value_to_reward A v \<le> d_lit A 0.99"
    unfolding r by linarith
  define L where "L = ln ((c / (1 + e)) / (1 - c / (1 + e)))"
  from eb(1) have "1 / 100 \<le> e" by linarith
  from logit_of_reward [OF cp cl u0 u7 this] have "\<bar>L + ln e\<bar> \<le> 3208 * u"
    unfolding L_def .
  with eK have LK: "\<bar>L - K * V\<bar> \<le> 3227 * u" by linarith
  from reward_to_value_error [OF acc u lo hi, of T] obtain x where
    x: "reward_to_value A T (value_to_reward A v) = trunc_int x"
    and xe: "\<bar>x - G * L\<bar> \<le> 19000 * u"
    unfolding r L_def G_def by blast
  have "\<bar>G * (L - K * V)\<bar> \<le> 547 * (3227 * u)"
    by (rule abs_mult_bound) (use Gb LK in simp_all)
  then have d1: "\<bar>G * L - G * (K * V)\<bar> \<le> 1765169 * u"
    by (simp add: algebra_simps)
  define eps :: real where "eps = 25014186431 / 10 ^ 28"
  have epsb: "0 \<le> eps" "eps * 2509 \<le> 1 / 1000000"
    by (simp_all add: eps_def)
  have GK: "G * K = 1 + eps"
    unfolding G_def K_def eps_def by (rule g_times_k)
  have "G * (K * V) = (G * K) * V" by simp
  also have "\<dots> = (1 + eps) * V" by (simp only: GK)
  finally have "G * (K * V) - V = eps * V"
    by (simp add: algebra_simps)
  moreover have "\<bar>eps * V\<bar> \<le> eps * 2509"
    by (rule abs_mult_bound) (use epsb Vb in simp_all)
  ultimately have d2: "\<bar>G * (K * V) - V\<bar> \<le> 1 / 1000000"
    using epsb(2) by linarith
  from u7 have "19000 * u + 1765169 * u \<le> 2 / 10" by simp
  with xe d1 d2 have "\<bar>x - V\<bar> \<le> 1 / 2" by linarith
  then have "trunc_int x = v \<or> trunc_int x = v - sgn v"
    unfolding V_def by (rule trunc_int_round_trip)
  then show "reward_to_value A T (value_to_reward A v) = v
         \<or> reward_to_value A T (value_to_reward A v) = v - sgn v"
    unfolding x .
qed

lemma logistic_shift:
  fixes e a :: real
  assumes "0 < e" and "0 < a"
  shows "\<bar>1 / (1 + e) - 1 / (1 + a)\<bar> \<le> \<bar>e - a\<bar> / (1 + a)"
proof -
  from assms have p: "0 < 1 + e" "0 < 1 + a" by simp_all
  have d: "1 + a \<le> (1 + e) * (1 + a)"
    using assms by (simp add: algebra_simps)
  have "1 / (1 + e) - 1 / (1 + a) = (a - e) / ((1 + e) * (1 + a))"
    using p by (simp add: field_simps)
  then have "\<bar>1 / (1 + e) - 1 / (1 + a)\<bar> = \<bar>a - e\<bar> / ((1 + e) * (1 + a))"
    using p by (simp add: abs_divide abs_mult)
  also have "\<dots> \<le> \<bar>a - e\<bar> / (1 + a)"
    using d p by (intro divide_left_mono) simp_all
  finally show ?thesis by (simp add: abs_minus_commute)
qed

lemma reward_near:
  fixes c e a u :: real
  assumes c: "0 < c" and cl: "\<bar>ln c\<bar> \<le> 8 * u" and u: "u \<le> 1 / 10000000"
    and e: "0 < e" and a: "0 < a" and ea: "\<bar>e - a\<bar> \<le> (9 / 100000) * (1 + a)"
  shows "\<bar>c / (1 + e) - 1 / (1 + a)\<bar> < 1 / 10000"
proof -
  define rho where "rho = 1 / (1 + e)"
  from e have rb: "0 \<le> rho" "rho \<le> 1"
    unfolding rho_def by simp_all
  from near_one [OF c cl u] u have "\<bar>c - 1\<bar> \<le> 16 / 10000000" by linarith
  then have "\<bar>(c - 1) * rho\<bar> \<le> (16 / 10000000) * 1"
    by (rule abs_mult_bound) (use rb in simp)
  moreover have "c * rho = c / (1 + e)"
    unfolding rho_def by simp
  then have "c / (1 + e) - rho = (c - 1) * rho"
    by (simp add: algebra_simps)
  ultimately have d1: "\<bar>c / (1 + e) - rho\<bar> \<le> 16 / 10000000" by simp
  from a have ap: "0 < 1 + a" by simp
  from ea ap have "\<bar>e - a\<bar> / (1 + a) \<le> 9 / 100000"
    by (simp add: field_simps)
  with logistic_shift [OF e a] have "\<bar>rho - 1 / (1 + a)\<bar> \<le> 9 / 100000"
    unfolding rho_def by linarith
  with d1 show ?thesis by linarith
qed

lemma exp_near:
  fixes l y E :: real
  assumes "\<bar>l - y\<bar> \<le> 19 / 10000000" and "exp y = E" and "0 < E" and "E \<le> 4"
  shows "\<bar>exp l - E\<bar> \<le> 2 / 100000"
proof -
  define d where "d = l - y"
  from assms(1) have db: "\<bar>d\<bar> \<le> 19 / 10000000"
    unfolding d_def .
  then have "\<bar>d\<bar> \<le> 1 / 2" by linarith
  from exp_rel [OF this] db have "\<bar>exp d - 1\<bar> \<le> 38 / 10000000" by linarith
  moreover have "\<bar>E\<bar> \<le> 4" using assms(3,4) by simp
  ultimately have "\<bar>E * (exp d - 1)\<bar> \<le> 4 * (38 / 10000000)"
    by (intro abs_mult_bound)
  moreover have "exp l = E * exp d"
    unfolding d_def assms(2) [symmetric] by (simp add: exp_add [symmetric])
  then have "exp l - E = E * (exp d - 1)"
    by (simp add: algebra_simps)
  ultimately show ?thesis by simp
qed

lemma particular_rewards:
  assumes acc: "accurate A u" and u: "u \<le> 1 / 10 ^ 7"
  shows "\<bar>value_to_reward A 600 - 0.75\<bar> < 1 / 10 ^ 4"
    and "\<bar>value_to_reward A (- 600) - 0.25\<bar> < 1 / 10 ^ 4"
    and "value_to_reward A 0 = 0.5"
proof -
  note a = accurateD [OF acc]
  from u have u7: "u \<le> 1 / 10000000" by simp
  define y :: real where "y = 1.098612288666"
  define E0 where "E0 = exp (- y)"
  from exp_600 have E0: "\<bar>E0 - 1 / 3\<bar> < 8 / 1000000"
    unfolding E0_def y_def by simp
  then have E0b: "0 < E0" "E0 \<le> 4" "33 / 100 \<le> E0" by linarith+
  define E1 where "E1 = exp y"
  have E10: "E1 * E0 = 1"
    unfolding E1_def E0_def by (simp add: exp_add [symmetric])
  have E1p: "0 < E1" unfolding E1_def by simp
  have E1: "\<bar>E1 - 3\<bar> \<le> 8 / 100000"
  proof -
    from E10 E0b(1) have e: "E1 = 1 / E0"
      by (simp add: field_simps)
    have "1 / E0 - 3 = (1 - 3 * E0) / E0"
      using E0b(1) by (simp add: field_simps)
    then have "\<bar>1 / E0 - 3\<bar> = \<bar>1 - 3 * E0\<bar> / E0"
      using E0b(1) by (simp add: abs_divide)
    also have "\<dots> \<le> \<bar>1 - 3 * E0\<bar> / (33 / 100)"
      using E0b by (intro divide_left_mono) simp_all
    also have "\<dots> \<le> (24 / 1000000) / (33 / 100)"
      using E0 by (intro divide_right_mono) linarith+
    also have "\<dots> \<le> 8 / 100000" by simp
    finally show ?thesis unfolding e .
  qed
  then have E1b: "E1 \<le> 4" by linarith
  \<comment> \<open>the value 600\<close>
  have v1: "\<bar>(600::int)\<bar> \<le> 2509" by simp
  from value_to_reward_parts [OF acc u v1] obtain e c where
    r: "value_to_reward A 600 = c / (1 + e)" and ep: "0 < e" and cp: "0 < c"
    and eK: "\<bar>ln e + 0.00183102048111 * real_of_int 600\<bar> \<le> 19 * u" and cl: "\<bar>ln c\<bar> \<le> 8 * u"
    by blast
  have ky: "0.00183102048111 * real_of_int 600 = y"
    unfolding y_def by simp
  from eK have "\<bar>ln e + y\<bar> \<le> 19 * u"
    by (simp only: ky)
  with u7 have "\<bar>ln e - (- y)\<bar> \<le> 19 / 10000000" by linarith
  from exp_near [OF this E0_def [symmetric] E0b(1,2)] ep have "\<bar>e - E0\<bar> \<le> 2 / 100000"
    by simp
  with E0 have "\<bar>e - 1 / 3\<bar> \<le> 3 / 100000" by linarith
  then have "\<bar>e - 1 / 3\<bar> \<le> (9 / 100000) * (1 + 1 / 3)" by simp
  from reward_near [OF cp cl u7 ep _ this] have "\<bar>c / (1 + e) - 1 / (1 + 1 / 3)\<bar> < 1 / 10000"
    by simp
  then show "\<bar>value_to_reward A 600 - 0.75\<bar> < 1 / 10 ^ 4"
    unfolding r by simp
  \<comment> \<open>the value -600\<close>
  have v2: "\<bar>(- 600::int)\<bar> \<le> 2509" by simp
  from value_to_reward_parts [OF acc u v2] obtain e' c' where
    r': "value_to_reward A (- 600) = c' / (1 + e')" and ep': "0 < e'" and cp': "0 < c'"
    and eK': "\<bar>ln e' + 0.00183102048111 * real_of_int (- 600)\<bar> \<le> 19 * u"
    and cl': "\<bar>ln c'\<bar> \<le> 8 * u"
    by blast
  have ky': "0.00183102048111 * real_of_int (- 600) = - y"
    unfolding y_def by simp
  from eK' have "\<bar>ln e' + - y\<bar> \<le> 19 * u"
    by (simp only: ky')
  with u7 have "\<bar>ln e' - y\<bar> \<le> 19 / 10000000" by linarith
  from exp_near [OF this E1_def [symmetric] E1p E1b] ep' have "\<bar>e' - E1\<bar> \<le> 2 / 100000"
    by simp
  with E1 have "\<bar>e' - 3\<bar> \<le> 10 / 100000" by linarith
  then have "\<bar>e' - 3\<bar> \<le> (9 / 100000) * (1 + 3)" by simp
  from reward_near [OF cp' cl' u7 ep' _ this] have "\<bar>c' / (1 + e') - 1 / (1 + 3)\<bar> < 1 / 10000"
    by simp
  then show "\<bar>value_to_reward A (- 600) - 0.25\<bar> < 1 / 10 ^ 4"
    unfolding r' by simp
  show "value_to_reward A 0 = 0.5"
    by (simp add: value_to_reward_def a(9) a(10) a(11) a(12))
qed

text \<open>
  C7. In double arithmetic the two transforms are inverse to each other up to the
  truncation, away from the clamped extremes. For every value \<open>v\<close> with \<open>|v| \<le> 2509\<close>
  the reward \<open>value_to_reward v\<close> lies between the two thresholds of \<open>reward_to_value\<close>,
  so the result is not clamped, and \<open>reward_to_value (value_to_reward v)\<close> is \<open>v\<close> or the
  next integer toward zero: the rounding errors are far smaller than 1, and the
  conversion to \<open>int\<close> truncates. This is the whole range: for \<open>2510 \<le> |v| \<le> 100000\<close> the
  reward is beyond a threshold and the result is clamped. Moreover \<open>value_to_reward 600\<close>
  is \<open>0.75\<close> and \<open>value_to_reward (-600)\<close> is \<open>0.25\<close>, both to within \<open>10^-4\<close>, and
  \<open>value_to_reward 0\<close> is exactly \<open>0.5\<close>. This holds for every arithmetic that is
  accurate to \<open>10^-7\<close>.
\<close>

theorem value_reward_round_trip:
  assumes "accurate A u" and "u \<le> 1 / 10 ^ 7"
  shows "(\<bar>v\<bar> \<le> 2509 \<longrightarrow>
            d_lit A 0.01 \<le> value_to_reward A v \<and> value_to_reward A v \<le> d_lit A 0.99
            \<and> (reward_to_value A T (value_to_reward A v) = v
                \<or> reward_to_value A T (value_to_reward A v) = v - sgn v))
         \<and> (2510 \<le> \<bar>v\<bar> \<and> \<bar>v\<bar> \<le> 100000 \<longrightarrow>
            (if 0 < v then d_lit A 0.99 < value_to_reward A v
             else value_to_reward A v < d_lit A 0.01)
            \<and> reward_to_value A T (value_to_reward A v) = sgn v * VALUE_KNOWN_WIN T)
         \<and> \<bar>value_to_reward A 600 - 0.75\<bar> < 1 / 10 ^ 4
         \<and> \<bar>value_to_reward A (- 600) - 0.25\<bar> < 1 / 10 ^ 4
         \<and> value_to_reward A 0 = 0.5"
proof -
  have b: "(if 0 < v then d_lit A 0.99 < value_to_reward A v
             else value_to_reward A v < d_lit A 0.01)
            \<and> reward_to_value A T (value_to_reward A v) = sgn v * VALUE_KNOWN_WIN T"
    if v: "2510 \<le> \<bar>v\<bar> \<and> \<bar>v\<bar> \<le> 100000"
  proof (cases "0 < v")
    case True
    with v reward_beyond_range(1) [OF assms, of v]
    have "d_lit A 0.99 < value_to_reward A v" by simp
    with True show ?thesis by (simp add: reward_to_value_def)
  next
    case False
    with v have n: "v < 0" by linarith
    with v reward_beyond_range(2) [OF assms, of v]
    have l: "value_to_reward A v < d_lit A 0.01" by simp
    from threshold_bounds(2,3) [OF assms] have "d_lit A 0.01 \<le> d_lit A 0.99" by linarith
    with l have "\<not> d_lit A 0.99 < value_to_reward A v" by linarith
    with l n show ?thesis by (simp add: reward_to_value_def)
  qed
  with round_trip(1,2) [OF assms, of v] round_trip(3) [OF assms, of v T]
    particular_rewards [OF assms]
  show ?thesis by blast
qed

theorem value_reward_round_trip_witness:
  "accurate exact_arith 0 \<and> (0::real) \<le> 1 / 10 ^ 7 \<and> \<bar>600 :: int\<bar> \<le> 2509
   \<and> d_lit exact_arith 0.01 \<le> value_to_reward exact_arith 600
   \<and> value_to_reward exact_arith 600 \<le> d_lit exact_arith 0.99
   \<and> 599 \<le> reward_to_value exact_arith witness_types (value_to_reward exact_arith 600)
   \<and> reward_to_value exact_arith witness_types (value_to_reward exact_arith 600) \<le> 600
   \<and> 2510 \<le> \<bar>- 3000 :: int\<bar> \<and> \<bar>- 3000 :: int\<bar> \<le> 100000
   \<and> value_to_reward exact_arith (- 3000) < d_lit exact_arith 0.01
   \<and> reward_to_value exact_arith witness_types (value_to_reward exact_arith (- 3000))
       = - VALUE_KNOWN_WIN witness_types"
proof -
  have u: "(0::real) \<le> 1 / 10 ^ 7" and v: "\<bar>600 :: int\<bar> \<le> 2509"
    and w: "2510 \<le> \<bar>- 3000 :: int\<bar> \<and> \<bar>- 3000 :: int\<bar> \<le> 100000" by simp_all
  note t = value_reward_round_trip [OF accurate_exact u, of 600 witness_types]
  from t v have r: "d_lit exact_arith 0.01 \<le> value_to_reward exact_arith 600"
    "value_to_reward exact_arith 600 \<le> d_lit exact_arith 0.99"
    and d: "reward_to_value exact_arith witness_types (value_to_reward exact_arith 600) = 600
       \<or> reward_to_value exact_arith witness_types (value_to_reward exact_arith 600) = 600 - sgn 600"
    by blast+
  from d have "599 \<le> reward_to_value exact_arith witness_types (value_to_reward exact_arith 600)"
    and "reward_to_value exact_arith witness_types (value_to_reward exact_arith 600) \<le> 600"
    by auto
  moreover note t' = value_reward_round_trip [OF accurate_exact u, of "- 3000" witness_types]
  from t' w have "value_to_reward exact_arith (- 3000) < d_lit exact_arith 0.01"
    and "reward_to_value exact_arith witness_types (value_to_reward exact_arith (- 3000))
       = - VALUE_KNOWN_WIN witness_types"
    by simp_all
  ultimately show ?thesis using accurate_exact u v w r by blast
qed

section \<open>The move picker: scored moves and the partial insertion sort\<close>

text \<open>
  A scored move (\<open>ExtMove\<close>): a move and its sort key. Two scored moves compare by their
  keys alone. \<open>partial_insertion_sort\<close> works on the cells between two pointers; the list
  is that range, index \<open>0\<close> being \<open>begin\<close> and the length being \<open>end - begin\<close>.
  \<open>pis_shift\<close> is the inner loop (it ends with the store of \<open>tmp\<close>), \<open>pis_loop\<close> the outer
  loop over \<open>p\<close> with the current \<open>sortedEnd\<close>.
\<close>

record ExtMove =
  em_move :: Move
  em_value :: int

function pis_shift :: "ExtMove list \<Rightarrow> ExtMove \<Rightarrow> nat \<Rightarrow> ExtMove list" where
  "pis_shift a tmp q =
     (if q \<noteq> 0 \<and> em_value (a ! (q - 1)) < em_value tmp
      then pis_shift (a[q := a ! (q - 1)]) tmp (q - 1)
      else a[q := tmp])"
  by pat_completeness auto
termination
  by (relation "measure (\<lambda>(a, tmp, q). q)") auto

declare pis_shift.simps [simp del]

lemma length_pis_shift [simp]: "length (pis_shift a tmp q) = length a"
  by (induction a tmp q rule: pis_shift.induct) (subst pis_shift.simps, simp)

function pis_loop :: "ExtMove list \<Rightarrow> int \<Rightarrow> nat \<Rightarrow> nat \<Rightarrow> ExtMove list" where
  "pis_loop a limit sortedEnd p =
     (if p < length a
      then (if em_value (a ! p) \<ge> limit
            then (let tmp = a ! p;
                      sortedEnd' = sortedEnd + 1;
                      a' = a[p := a ! sortedEnd']
                  in pis_loop (pis_shift a' tmp sortedEnd') limit sortedEnd' (p + 1))
            else pis_loop a limit sortedEnd (p + 1))
      else a)"
  by pat_completeness auto
termination
  by (relation "measure (\<lambda>(a, limit, sortedEnd, p). length a - p)") auto

declare pis_loop.simps [simp del]

definition partial_insertion_sort :: "ExtMove list \<Rightarrow> int \<Rightarrow> ExtMove list" where
  "partial_insertion_sort a limit = pis_loop a limit 0 1"

lemma pis_shift_insort:
  "q < length a \<Longrightarrow>
   pis_shift a tmp q = rev (insort_key em_value tmp (rev (take q a))) @ drop (Suc q) a"
proof (induction a tmp q rule: pis_shift.induct)
  case (1 a tmp q)
  show ?case
  proof (cases "q \<noteq> 0 \<and> em_value (a ! (q - 1)) < em_value tmp")
    case True
    then obtain q' where q': "q = Suc q'" by (cases q) auto
    let ?a' = "a[q := a ! q']"
    from "1.prems" q' have lt: "q' < length a" by simp
    from True q' have less: "em_value (a ! q') < em_value tmp" by simp
    have tk: "take q' ?a' = take q' a" using q' by simp
    have dr: "drop (Suc q') ?a' = a ! q' # drop (Suc q) a"
      using "1.prems" q' by (simp add: upd_conv_take_nth_drop)
    have "pis_shift a tmp q = pis_shift ?a' tmp q'"
      using True q' by (subst pis_shift.simps) simp
    also have "\<dots> = rev (insort_key em_value tmp (rev (take q' ?a'))) @ drop (Suc q') ?a'"
      using "1.IH" [OF True] lt q' by simp
    also have "\<dots> = rev (insort_key em_value tmp (rev (take q' a))) @ a ! q' # drop (Suc q) a"
      by (simp only: tk dr)
    also have "\<dots> = rev (insort_key em_value tmp (rev (take q a))) @ drop (Suc q) a"
      using less lt q' by (simp add: take_Suc_conv_app_nth)
    finally show ?thesis .
  next
    case False
    then have eq: "pis_shift a tmp q = a[q := tmp]"
      by (subst pis_shift.simps) auto
    show ?thesis
    proof (cases q)
      case 0
      then show ?thesis
        using "1.prems" eq by (simp add: upd_conv_take_nth_drop)
    next
      case (Suc q')
      with False have "\<not> em_value (a ! q') < em_value tmp" by simp
      moreover from Suc "1.prems" have "q' < length a" by simp
      ultimately show ?thesis
        using "1.prems" eq Suc
        by (simp add: take_Suc_conv_app_nth [of q'] upd_conv_take_nth_drop)
    qed
  qed
qed

text \<open>\<open>descending\<close>: the scores never increase along the list.\<close>

definition descending :: "ExtMove list \<Rightarrow> bool" where
  "descending xs \<longleftrightarrow> sorted_wrt (\<lambda>x y. em_value x \<ge> em_value y) xs"

lemma descending_rev: "descending xs \<longleftrightarrow> sorted (map em_value (rev xs))"
  unfolding descending_def
  by (simp add: rev_map sorted_wrt_rev sorted_wrt_map)

lemma descending_insort:
  assumes "descending xs"
  shows "descending (rev (insort_key em_value tmp (rev xs)))"
  using assms by (simp add: descending_rev sorted_insort_key)

lemma pis_shift_take:
  assumes "q < length a"
  shows "take (Suc q) (pis_shift a tmp q) = rev (insort_key em_value tmp (rev (take q a)))"
proof -
  have "length (rev (insort_key em_value tmp (rev (take q a)))) = Suc q"
    using assms by simp
  then show ?thesis
    using pis_shift_insort [OF assms, of tmp] by simp
qed

lemma pis_shift_nth:
  assumes "q < length a" and "q < i"
  shows "pis_shift a tmp q ! i = a ! i"
proof -
  have len: "length (rev (insort_key em_value tmp (rev (take q a)))) = Suc q"
    using assms by simp
  have "pis_shift a tmp q ! i = drop (Suc q) a ! (i - Suc q)"
    using assms(2) len by (simp add: pis_shift_insort [OF assms(1)] nth_append)
  also have "\<dots> = (take (Suc q) a @ drop (Suc q) a) ! i"
    using assms by (simp add: nth_append del: append_take_drop_id)
  finally show ?thesis by simp
qed

lemma mset_pis_shift:
  assumes "q < length a"
  shows "mset (pis_shift a tmp q) = mset (a[q := tmp])"
proof -
  have "mset (pis_shift a tmp q) = add_mset tmp (mset (take q a)) + mset (drop (Suc q) a)"
    by (simp add: pis_shift_insort [OF assms])
  also have "\<dots> = mset (a[q := tmp])"
    using assms by (simp add: upd_conv_take_nth_drop)
  finally show ?thesis .
qed

text \<open>
  The invariant of the outer loop: the cells up to \<open>sortedEnd\<close> are in descending order,
  and every cell after \<open>sortedEnd\<close> and before \<open>p\<close> has a score below the limit.
\<close>

definition pis_inv :: "ExtMove list \<Rightarrow> int \<Rightarrow> nat \<Rightarrow> nat \<Rightarrow> bool" where
  "pis_inv a limit sortedEnd p \<longleftrightarrow>
     sortedEnd < p \<and> p \<le> length a \<and> descending (take (Suc sortedEnd) a)
     \<and> (\<forall>i. sortedEnd < i \<and> i < p \<longrightarrow> em_value (a ! i) < limit)"

lemma pis_inv_skip:
  assumes "pis_inv a limit se p" and "p < length a" and "\<not> em_value (a ! p) \<ge> limit"
  shows "pis_inv a limit se (p + 1)"
  using assms unfolding pis_inv_def by (auto simp: less_Suc_eq)

lemma pis_inv_insert:
  assumes inv: "pis_inv a limit se p" and p: "p < length a"
  shows "pis_inv (pis_shift (a[p := a ! (se + 1)]) (a ! p) (se + 1)) limit (se + 1) (p + 1)"
    and "mset (pis_shift (a[p := a ! (se + 1)]) (a ! p) (se + 1)) = mset a"
proof -
  let ?a' = "a[p := a ! (se + 1)]"
  let ?r = "pis_shift ?a' (a ! p) (se + 1)"
  from inv have se: "se < p" and desc: "descending (take (Suc se) a)"
    and low: "\<forall>i. se < i \<and> i < p \<longrightarrow> em_value (a ! i) < limit"
    by (simp_all add: pis_inv_def)
  from se p have q: "se + 1 < length ?a'" by simp
  have tk: "take (se + 1) ?a' = take (Suc se) a"
    using se by simp
  have "take (Suc (se + 1)) ?r = rev (insort_key em_value (a ! p) (rev (take (Suc se) a)))"
    using pis_shift_take [OF q, of "a ! p"] by (simp only: tk)
  with desc have d: "descending (take (Suc (se + 1)) ?r)"
    by (simp only: descending_insort)
  have l: "em_value (?r ! i) < limit" if "se + 1 < i" and "i < p + 1" for i
  proof -
    from that have "?r ! i = ?a' ! i" by (intro pis_shift_nth [OF q])
    moreover have "em_value (?a' ! i) < limit"
    proof (cases "i = p")
      case True
      with that se p low show ?thesis by simp
    next
      case False
      with that se p low show ?thesis by simp
    qed
    ultimately show ?thesis by simp
  qed
  from se p d l show "pis_inv ?r limit (se + 1) (p + 1)"
    unfolding pis_inv_def by simp
  have "mset ?r = mset (?a'[se + 1 := a ! p])"
    by (rule mset_pis_shift [OF q])
  also have "\<dots> = mset a"
    using se p by (simp add: mset_swap)
  finally show "mset ?r = mset a" .
qed

lemma pis_loop_inv:
  "pis_inv a limit se p \<Longrightarrow>
   mset (pis_loop a limit se p) = mset a
   \<and> (\<exists>se'. pis_inv (pis_loop a limit se p) limit se' (length (pis_loop a limit se p)))"
proof (induction a limit se p rule: pis_loop.induct)
  case (1 a limit se p)
  show ?case
  proof (cases "p < length a")
    case False
    with "1.prems" have "p = length a" by (simp add: pis_inv_def)
    with "1.prems" False show ?thesis
      by (subst (1 2 3) pis_loop.simps) auto
  next
    case True
    show ?thesis
    proof (cases "em_value (a ! p) \<ge> limit")
      case ge: True
      let ?r = "pis_shift (a[p := a ! (se + 1)]) (a ! p) (se + 1)"
      note ins = pis_inv_insert [OF "1.prems" True]
      have eq: "pis_loop a limit se p = pis_loop ?r limit (se + 1) (p + 1)"
        using True ge by (subst pis_loop.simps) (simp add: Let_def)
      from "1.IH"(1) [OF True ge refl refl refl ins(1)] ins(2)
      show ?thesis unfolding eq by simp
    next
      case lt: False
      have eq: "pis_loop a limit se p = pis_loop a limit se (p + 1)"
        using True lt by (subst pis_loop.simps) simp
      from "1.IH"(2) [OF True lt pis_inv_skip [OF "1.prems" True lt]]
      show ?thesis unfolding eq .
    qed
  qed
qed

lemma pis_inv_final:
  assumes "pis_inv a limit se (length a)"
  shows "descending (filter (\<lambda>m. em_value m \<ge> limit) a)"
proof -
  from assms have desc: "descending (take (Suc se) a)"
    and low: "\<forall>i. se < i \<and> i < length a \<longrightarrow> em_value (a ! i) < limit"
    by (simp_all add: pis_inv_def)
  have "\<not> em_value m \<ge> limit" if "m \<in> set (drop (Suc se) a)" for m
  proof -
    from that obtain i where i: "i < length a - Suc se" and m: "m = a ! (Suc se + i)"
      by (auto simp: in_set_conv_nth)
    from i have "se < Suc se + i \<and> Suc se + i < length a" by simp
    with low m show ?thesis by fastforce
  qed
  then have "filter (\<lambda>m. em_value m \<ge> limit) (drop (Suc se) a) = []"
    by (simp add: filter_empty_conv)
  then have "filter (\<lambda>m. em_value m \<ge> limit) a
      = filter (\<lambda>m. em_value m \<ge> limit) (take (Suc se) a)"
    by (metis append_Nil2 append_take_drop_id filter_append)
  with desc show ?thesis
    by (simp add: descending_def sorted_wrt_filter)
qed

lemma pis_descending_mset:
  "descending (filter (\<lambda>m. em_value m \<ge> limit) (partial_insertion_sort a limit))
   \<and> mset (partial_insertion_sort a limit) = mset a"
proof (cases a)
  case Nil
  then show ?thesis
    by (simp add: partial_insertion_sort_def pis_loop.simps descending_def)
next
  case (Cons x xs)
  then have "pis_inv a limit 0 1"
    by (simp add: pis_inv_def descending_def)
  from pis_loop_inv [OF this] obtain se' where
    "mset (pis_loop a limit 0 1) = mset a"
    "pis_inv (pis_loop a limit 0 1) limit se' (length (pis_loop a limit 0 1))"
    by blast
  then show ?thesis
    using pis_inv_final by (simp add: partial_insertion_sort_def)
qed

text \<open>
  C5 (as amended). For every buffer of scored moves and every limit \<open>L\<close>, after
  \<open>partial_insertion_sort\<close> the moves with score at least \<open>L\<close> appear in descending score
  order relative to each other, where equal scores are allowed next to each other (the
  order is non-increasing, and strictly descending exactly when those scores are pairwise
  distinct), and the whole buffer is a permutation of the input: every move, also one
  below \<open>L\<close>, appears exactly as often as before.
\<close>

theorem partial_insertion_sort_descending:
  "sorted_wrt (\<lambda>x y. em_value x \<ge> em_value y)
     (filter (\<lambda>m. em_value m \<ge> limit) (partial_insertion_sort a limit))
   \<and> mset (partial_insertion_sort a limit) = mset a"
  using pis_descending_mset [of limit a] by (simp only: descending_def)

text \<open>
  The claim as stated asks for a strictly descending order. Two moves with the same
  score at or above the limit stay next to each other.
\<close>

theorem partial_insertion_sort_not_strict:
  "\<not> sorted_wrt (\<lambda>x y. em_value x > em_value y)
       (filter (\<lambda>m. em_value m \<ge> 0)
          (partial_insertion_sort
             [\<lparr> em_move = 1, em_value = 5 \<rparr>, \<lparr> em_move = 2, em_value = 5 \<rparr>] 0))"
  by (simp add: partial_insertion_sort_def pis_loop.simps pis_shift.simps)

section \<open>The move picker: stages, state and next_move\<close>

text \<open>
  The stages of the picker, in the order of the enumeration \<open>Stages\<close> of
  \<open>movepick.cpp\<close>. The picker increments its stage (\<open>++stage\<close>), so the stages are
  numbers.
\<close>

definition MAIN_TT :: nat where "MAIN_TT = 0"
definition CAPTURE_INIT :: nat where "CAPTURE_INIT = 1"
definition GOOD_CAPTURE :: nat where "GOOD_CAPTURE = 2"
definition KILLER0 :: nat where "KILLER0 = 3"
definition KILLER1 :: nat where "KILLER1 = 4"
definition COUNTERMOVE :: nat where "COUNTERMOVE = 5"
definition QUIET_INIT :: nat where "QUIET_INIT = 6"
definition QUIET :: nat where "QUIET = 7"
definition BAD_CAPTURE :: nat where "BAD_CAPTURE = 8"
definition EVASION_TT :: nat where "EVASION_TT = 9"
definition EVASION_INIT :: nat where "EVASION_INIT = 10"
definition EVASION :: nat where "EVASION = 11"
definition PROBCUT_TT :: nat where "PROBCUT_TT = 12"
definition PROBCUT_INIT :: nat where "PROBCUT_INIT = 13"
definition PROBCUT :: nat where "PROBCUT = 14"
definition QSEARCH_TT :: nat where "QSEARCH_TT = 15"
definition QCAPTURE_INIT :: nat where "QCAPTURE_INIT = 16"
definition QCAPTURE :: nat where "QCAPTURE = 17"
definition QCHECK_INIT :: nat where "QCHECK_INIT = 18"
definition QCHECK :: nat where "QCHECK = 19"

lemmas stage_defs =
  MAIN_TT_def CAPTURE_INIT_def GOOD_CAPTURE_def KILLER0_def KILLER1_def COUNTERMOVE_def
  QUIET_INIT_def QUIET_def BAD_CAPTURE_def EVASION_TT_def EVASION_INIT_def EVASION_def
  PROBCUT_TT_def PROBCUT_INIT_def PROBCUT_def QSEARCH_TT_def QCAPTURE_INIT_def QCAPTURE_def
  QCHECK_INIT_def QCHECK_def

text \<open>
  The template parameters of \<open>generate\<close>, \<open>score\<close> and \<open>select_move\<close>. The
  predicates that \<open>next_move\<close> passes to \<open>select_move\<close> are lambdas over the picker's
  fields; each is named here by a constructor of \<open>Filter\<close> and given its body in
  \<open>apply_filter\<close> below.
\<close>

datatype GenType = CAPTURES | QUIETS | EVASIONS | QUIET_CHECKS

datatype PickType = NEXT | BEST_SCORE

datatype Filter = F_GOOD_CAPTURE | F_QUIET | F_NOT_TT | F_PROBCUT | F_QCAPTURE

text \<open>
  The picker's fields. The array \<open>moves\<close> is a list of cells, and the pointers \<open>cur\<close>,
  \<open>endMoves\<close> and \<open>endBadCaptures\<close> into it are indices. The list is as long as the
  picker has written it, so a write of the generator never runs past the array (the source
  sizes it with \<open>MAX_MOVES\<close>). The history tables are functions of their indices.
  Scores are unbounded integers: the source's \<open>int\<close> does not overflow on the scores that
  the tables hold.
\<close>

record MovePicker =
  pos :: Position
  mainHistory :: "nat \<Rightarrow> nat \<Rightarrow> int"
  captureHistory :: "Piece \<Rightarrow> Square \<Rightarrow> int \<Rightarrow> int"
  contHistory :: "nat \<Rightarrow> Piece \<Rightarrow> Square \<Rightarrow> int"
  countermove :: Move
  killers :: "nat \<Rightarrow> Move"
  depth :: int
  ttMove :: Move
  recaptureSquare :: Square
  threshold :: int
  stage :: nat
  cur :: nat
  endMoves :: nat
  endBadCaptures :: nat
  moves :: "ExtMove list"
  move :: Move

text \<open>Integer division as C++ has it: the quotient is truncated towards zero.\<close>

definition c_div :: "int \<Rightarrow> int \<Rightarrow> int" where
  "c_div a b = sgn a * sgn b * (\<bar>a\<bar> div \<bar>b\<bar>)"

text \<open>
  The three constructors. \<open>raw\<close> is the storage before construction: a constructor
  leaves the fields it does not initialise as they are. The assertions on the depth and on
  \<open>checkers\<close> are compiled out and are not part of the model.
\<close>

definition MovePicker_main ::
  "MovePicker \<Rightarrow> Position \<Rightarrow> Move \<Rightarrow> int \<Rightarrow> (nat \<Rightarrow> nat \<Rightarrow> int) \<Rightarrow>
   (Piece \<Rightarrow> Square \<Rightarrow> int \<Rightarrow> int) \<Rightarrow> (nat \<Rightarrow> Piece \<Rightarrow> Square \<Rightarrow> int) \<Rightarrow> Move \<Rightarrow>
   (nat \<Rightarrow> Move) \<Rightarrow> MovePicker" where
  "MovePicker_main raw p ttm d mh cph ch cm killers_p =
     (let mp = raw \<lparr> pos := p, mainHistory := mh, captureHistory := cph, contHistory := ch,
                     countermove := cm,
                     killers := (\<lambda>i. if i = 0 then killers_p 0 else killers_p 1),
                     depth := d \<rparr>;
          mp = mp \<lparr> stage := (if checkers p then EVASION_TT else MAIN_TT) \<rparr>;
          mp = mp \<lparr> ttMove := (if ttm \<noteq> 0 \<and> pseudo_legal p ttm then ttm else MOVE_NONE) \<rparr>
      in mp \<lparr> stage := stage mp + (if ttMove mp = MOVE_NONE then 1 else 0) \<rparr>)"

definition MovePicker_qsearch ::
  "types_h \<Rightarrow> MovePicker \<Rightarrow> Position \<Rightarrow> Move \<Rightarrow> int \<Rightarrow> (nat \<Rightarrow> nat \<Rightarrow> int) \<Rightarrow>
   (Piece \<Rightarrow> Square \<Rightarrow> int \<Rightarrow> int) \<Rightarrow> Square \<Rightarrow> MovePicker" where
  "MovePicker_qsearch T raw p ttm d mh cph rs =
     (let mp = raw \<lparr> pos := p, mainHistory := mh, captureHistory := cph,
                     recaptureSquare := rs, depth := d \<rparr>;
          mp = mp \<lparr> stage := (if checkers p then EVASION_TT else QSEARCH_TT) \<rparr>;
          mp = mp \<lparr> ttMove := (if ttm \<noteq> 0 \<and> pseudo_legal p ttm
                                  \<and> (depth mp > DEPTH_QS_RECAPTURES T
                                       \<or> to_sq T ttm = recaptureSquare mp)
                               then ttm else MOVE_NONE) \<rparr>
      in mp \<lparr> stage := stage mp + (if ttMove mp = MOVE_NONE then 1 else 0) \<rparr>)"

definition MovePicker_probcut ::
  "MovePicker \<Rightarrow> Position \<Rightarrow> Move \<Rightarrow> int \<Rightarrow> (Piece \<Rightarrow> Square \<Rightarrow> int \<Rightarrow> int) \<Rightarrow> MovePicker" where
  "MovePicker_probcut raw p ttm th cph =
     (let mp = raw \<lparr> pos := p, captureHistory := cph, threshold := th \<rparr>;
          mp = mp \<lparr> stage := PROBCUT_TT \<rparr>;
          mp = mp \<lparr> ttMove := (if ttm \<noteq> 0 \<and> pseudo_legal p ttm \<and> capture p ttm
                                  \<and> see_ge p ttm (threshold mp)
                               then ttm else MOVE_NONE) \<rparr>
      in mp \<lparr> stage := stage mp + (if ttMove mp = MOVE_NONE then 1 else 0) \<rparr>)"

text \<open>
  \<open>generate<Type>(pos, cur)\<close> writes the generated moves from \<open>cur\<close> on and
  returns the end of the list, which the caller stores in \<open>endMoves\<close>. \<open>score<Type>\<close>
  sets the score of every cell between \<open>cur\<close> and \<open>endMoves\<close>.
\<close>

definition generated :: "Position \<Rightarrow> GenType \<Rightarrow> Move list" where
  "generated p gt = (case gt of CAPTURES \<Rightarrow> generate_CAPTURES p
                              | QUIETS \<Rightarrow> generate_QUIETS p
                              | EVASIONS \<Rightarrow> generate_EVASIONS p
                              | QUIET_CHECKS \<Rightarrow> generate_QUIET_CHECKS p)"

definition generate :: "GenType \<Rightarrow> MovePicker \<Rightarrow> MovePicker" where
  "generate gt mp =
     mp \<lparr> moves := take (cur mp) (moves mp)
                     @ map (\<lambda>m. \<lparr> em_move = m, em_value = 0 \<rparr>) (generated (pos mp) gt),
          endMoves := cur mp + length (generated (pos mp) gt) \<rparr>"

definition score_of :: "types_h \<Rightarrow> MovePicker \<Rightarrow> GenType \<Rightarrow> Move \<Rightarrow> int" where
  "score_of T mp gt m =
     (if gt = CAPTURES
      then PieceValue_MG T (piece_on (pos mp) (to_sq T m))
           + captureHistory mp (moved_piece (pos mp) m) (to_sq T m)
               (type_of_piece T (piece_on (pos mp) (to_sq T m)))
      else if gt = QUIETS
      then mainHistory mp (side_to_move (pos mp)) (from_to T m)
           + contHistory mp 0 (moved_piece (pos mp) m) (to_sq T m)
           + contHistory mp 1 (moved_piece (pos mp) m) (to_sq T m)
           + contHistory mp 3 (moved_piece (pos mp) m) (to_sq T m)
      else if capture (pos mp) m
      then PieceValue_MG T (piece_on (pos mp) (to_sq T m))
           - type_of_piece T (moved_piece (pos mp) m)
      else mainHistory mp (side_to_move (pos mp)) (from_to T m) - 2 ^ 28)"

definition score :: "types_h \<Rightarrow> GenType \<Rightarrow> MovePicker \<Rightarrow> MovePicker" where
  "score T gt mp =
     mp \<lparr> moves := take (cur mp) (moves mp)
                     @ map (\<lambda>e. e \<lparr> em_value := score_of T mp gt (em_move e) \<rparr>)
                           (drop (cur mp) (take (endMoves mp) (moves mp)))
                     @ drop (endMoves mp) (moves mp) \<rparr>"

text \<open>
  \<open>std::max_element(first, last)\<close>: the first position of a largest score in the range,
  \<open>last\<close> for an empty range. \<open>swap_cells\<close> is \<open>std::swap\<close> on two cells.
\<close>

function max_element_loop :: "ExtMove list \<Rightarrow> nat \<Rightarrow> nat \<Rightarrow> nat \<Rightarrow> nat" where
  "max_element_loop ms largest first lst =
     (if first < lst
      then max_element_loop ms
             (if em_value (ms ! largest) < em_value (ms ! first) then first else largest)
             (first + 1) lst
      else largest)"
  by pat_completeness auto
termination
  by (relation "measure (\<lambda>(ms, largest, first, lst). lst - first)") auto

declare max_element_loop.simps [simp del]

definition max_element :: "ExtMove list \<Rightarrow> nat \<Rightarrow> nat \<Rightarrow> nat" where
  "max_element ms first lst =
     (if first = lst then lst else max_element_loop ms first (first + 1) lst)"

definition swap_cells :: "ExtMove list \<Rightarrow> nat \<Rightarrow> nat \<Rightarrow> ExtMove list" where
  "swap_cells ms i j = ms[i := ms ! j, j := ms ! i]"

text \<open>
  The filters, called after \<open>move = *cur++\<close>. The good-capture filter reads the score of
  the cell just left, \<open>(cur-1)->value\<close>, and on a failed exchange check stores the move
  in the cell \<open>*endBadCaptures++\<close> (the assignment of a \<open>Move\<close> to a cell sets its
  move only). The conjunctions short-circuit: the hash move is never stored there.
\<close>

definition apply_filter :: "types_h \<Rightarrow> Filter \<Rightarrow> MovePicker \<Rightarrow> bool \<times> MovePicker" where
  "apply_filter T f mp =
     (case f of
        F_GOOD_CAPTURE \<Rightarrow>
          (if move mp \<noteq> ttMove mp
           then (if see_ge (pos mp) (move mp)
                      (c_div (- 55 * em_value (moves mp ! (cur mp - 1))) 1024)
                 then (True, mp)
                 else (False,
                       mp \<lparr> moves := (moves mp)[endBadCaptures mp :=
                                        (moves mp ! endBadCaptures mp) \<lparr> em_move := move mp \<rparr>],
                            endBadCaptures := endBadCaptures mp + 1 \<rparr>))
           else (False, mp))
      | F_QUIET \<Rightarrow>
          (move mp \<noteq> ttMove mp \<and> move mp \<noteq> killers mp 0 \<and> move mp \<noteq> killers mp 1
             \<and> move mp \<noteq> countermove mp, mp)
      | F_NOT_TT \<Rightarrow> (move mp \<noteq> ttMove mp, mp)
      | F_PROBCUT \<Rightarrow> (move mp \<noteq> ttMove mp \<and> see_ge (pos mp) (move mp) (threshold mp), mp)
      | F_QCAPTURE \<Rightarrow>
          (move mp \<noteq> ttMove mp
             \<and> (depth mp > DEPTH_QS_RECAPTURES T \<or> to_sq T (move mp) = recaptureSquare mp), mp))"

lemma apply_filter_cur [simp]: "cur (snd (apply_filter T f mp)) = cur mp"
  and apply_filter_endMoves [simp]: "endMoves (snd (apply_filter T f mp)) = endMoves mp"
  and apply_filter_stage [simp]: "stage (snd (apply_filter T f mp)) = stage mp"
  by (simp_all add: apply_filter_def split: Filter.splits)

text \<open>
  \<open>select_move\<close>: the loop over the cells from \<open>cur\<close> to \<open>endMoves\<close>, as a
  recursion on the remaining range. It returns the move and the picker after the call.
\<close>

function select_move :: "types_h \<Rightarrow> PickType \<Rightarrow> Filter \<Rightarrow> MovePicker \<Rightarrow> Move \<times> MovePicker" where
  "select_move T pt f mp =
     (if cur mp < endMoves mp
      then (let mp1 = (if pt = BEST_SCORE
                       then mp \<lparr> moves := swap_cells (moves mp) (cur mp)
                                            (max_element (moves mp) (cur mp) (endMoves mp)) \<rparr>
                       else mp);
                mp2 = mp1 \<lparr> move := em_move (moves mp1 ! cur mp1), cur := cur mp1 + 1 \<rparr>
            in if fst (apply_filter T f mp2)
               then (move (snd (apply_filter T f mp2)), snd (apply_filter T f mp2))
               else select_move T pt f (snd (apply_filter T f mp2)))
      else (MOVE_NONE, mp \<lparr> move := MOVE_NONE \<rparr>))"
  by pat_completeness auto
termination
  by (relation "measure (\<lambda>(T, pt, f, mp). endMoves mp - cur mp)") auto

declare select_move.simps [simp del]

subsection \<open>What select_move leaves unchanged\<close>

definition same_setup :: "MovePicker \<Rightarrow> MovePicker \<Rightarrow> bool" where
  "same_setup a b \<longleftrightarrow>
     pos b = pos a \<and> mainHistory b = mainHistory a \<and> captureHistory b = captureHistory a
     \<and> contHistory b = contHistory a \<and> countermove b = countermove a
     \<and> killers b = killers a \<and> depth b = depth a \<and> ttMove b = ttMove a
     \<and> recaptureSquare b = recaptureSquare a \<and> threshold b = threshold a
     \<and> stage b = stage a \<and> endMoves b = endMoves a"

lemma same_setup_refl [simp]: "same_setup a a"
  by (simp add: same_setup_def)

lemma same_setup_trans: "same_setup a b \<Longrightarrow> same_setup b c \<Longrightarrow> same_setup a c"
  by (simp add: same_setup_def)

lemma apply_filter_setup: "same_setup mp (snd (apply_filter T f mp))"
  by (cases f) (simp_all add: apply_filter_def same_setup_def)

lemma select_move_unfold:
  "select_move T pt f mp =
     (if cur mp < endMoves mp
      then (let mp1 = (if pt = BEST_SCORE
                       then mp \<lparr> moves := swap_cells (moves mp) (cur mp)
                                            (max_element (moves mp) (cur mp) (endMoves mp)) \<rparr>
                       else mp);
                mp2 = mp1 \<lparr> move := em_move (moves mp1 ! cur mp1), cur := cur mp1 + 1 \<rparr>
            in if fst (apply_filter T f mp2)
               then (move (snd (apply_filter T f mp2)), snd (apply_filter T f mp2))
               else select_move T pt f (snd (apply_filter T f mp2)))
      else (MOVE_NONE, mp \<lparr> move := MOVE_NONE \<rparr>))"
  by (rule select_move.simps)

lemma select_move_setup: "same_setup mp (snd (select_move T pt f mp))"
proof (induction T pt f mp rule: select_move.induct)
  case (1 T pt f mp)
  show ?case
  proof (cases "cur mp < endMoves mp")
    case False
    then show ?thesis
      by (subst select_move.simps) (simp add: same_setup_def)
  next
    case True
    define mp1 where "mp1 = (if pt = BEST_SCORE
                       then mp \<lparr> moves := swap_cells (moves mp) (cur mp)
                                            (max_element (moves mp) (cur mp) (endMoves mp)) \<rparr>
                       else mp)"
    define mp2 where "mp2 = mp1 \<lparr> move := em_move (moves mp1 ! cur mp1), cur := cur mp1 + 1 \<rparr>"
    define mp3 where "mp3 = snd (apply_filter T f mp2)"
    have s2: "same_setup mp mp2"
      by (simp add: mp2_def mp1_def same_setup_def)
    have s3: "same_setup mp mp3"
      using s2 apply_filter_setup [of mp2 T f] unfolding mp3_def by (rule same_setup_trans)
    have unf: "select_move T pt f mp =
        (if fst (apply_filter T f mp2) then (move mp3, mp3) else select_move T pt f mp3)"
      using True by (subst select_move.simps) (simp add: Let_def mp1_def mp2_def mp3_def)
    show ?thesis
    proof (cases "fst (apply_filter T f mp2)")
      case ok: True
      with unf s3 show ?thesis by simp
    next
      case no: False
      have "same_setup mp3 (snd (select_move T pt f mp3))"
        using "1.IH" [OF True mp1_def mp2_def] no unfolding mp3_def by simp
      with s3 have "same_setup mp (snd (select_move T pt f mp3))"
        by (rule same_setup_trans)
      with unf no show ?thesis by simp
    qed
  qed
qed

lemma select_move_stage [simp]: "stage (snd (select_move T pt f mp)) = stage mp"
  and select_move_endMoves [simp]: "endMoves (snd (select_move T pt f mp)) = endMoves mp"
  and select_move_pos [simp]: "pos (snd (select_move T pt f mp)) = pos mp"
  and select_move_ttMove [simp]: "ttMove (snd (select_move T pt f mp)) = ttMove mp"
  and select_move_killers [simp]: "killers (snd (select_move T pt f mp)) = killers mp"
  and select_move_countermove [simp]: "countermove (snd (select_move T pt f mp)) = countermove mp"
  and select_move_depth [simp]: "depth (snd (select_move T pt f mp)) = depth mp"
  using select_move_setup [of mp T pt f] by (simp_all add: same_setup_def)

subsection \<open>next_move\<close>

text \<open>
  \<open>sort_quiets\<close> is the call \<open>partial_insertion_sort(cur, endMoves, -4000 * depth / ONE_PLY)\<close>
  on the cells between \<open>cur\<close> and \<open>endMoves\<close>.

  \<open>next_move\<close> follows the \<open>switch\<close> of the source: a case that falls through to the
  next one, or jumps to \<open>again\<close>, is a recursive call at the next stage, and a case that
  returns gives the move together with the picker after the call. A stage outside the
  enumeration returns \<open>MOVE_NONE\<close>. The recursion terminates because every recursive call
  is at a larger stage.
\<close>

definition sort_quiets :: "types_h \<Rightarrow> MovePicker \<Rightarrow> MovePicker" where
  "sort_quiets T mp =
     mp \<lparr> moves := take (cur mp) (moves mp)
                     @ partial_insertion_sort (drop (cur mp) (take (endMoves mp) (moves mp)))
                         (c_div (- 4000 * depth mp) (ONE_PLY T))
                     @ drop (endMoves mp) (moves mp) \<rparr>"

function next_move :: "types_h \<Rightarrow> bool \<Rightarrow> MovePicker \<Rightarrow> Move \<times> MovePicker" where
  "next_move T skipQuiets mp =
     (if stage mp = MAIN_TT \<or> stage mp = EVASION_TT \<or> stage mp = QSEARCH_TT
         \<or> stage mp = PROBCUT_TT
      then (ttMove mp, mp \<lparr> stage := stage mp + 1 \<rparr>)
      else if stage mp = CAPTURE_INIT \<or> stage mp = PROBCUT_INIT \<or> stage mp = QCAPTURE_INIT
      then next_move T skipQuiets
             ((score T CAPTURES (generate CAPTURES (mp \<lparr> cur := 0, endBadCaptures := 0 \<rparr>)))
                \<lparr> stage := stage mp + 1 \<rparr>)
      else if stage mp = GOOD_CAPTURE
      then (let r = select_move T BEST_SCORE F_GOOD_CAPTURE mp
            in if fst r \<noteq> MOVE_NONE then (move (snd r), snd r)
               else next_move T skipQuiets ((snd r) \<lparr> stage := stage (snd r) + 1 \<rparr>))
      else if stage mp = KILLER0 \<or> stage mp = KILLER1
      then (let mp1 = mp \<lparr> stage := stage mp + 1 \<rparr>;
                mp2 = mp1 \<lparr> move := killers mp1 (stage mp1 - KILLER1) \<rparr>
            in if move mp2 \<noteq> MOVE_NONE \<and> move mp2 \<noteq> ttMove mp2
                  \<and> pseudo_legal (pos mp2) (move mp2) \<and> \<not> capture (pos mp2) (move mp2)
               then (move mp2, mp2)
               else next_move T skipQuiets mp2)
      else if stage mp = COUNTERMOVE
      then (let mp1 = mp \<lparr> stage := stage mp + 1 \<rparr>;
                mp2 = mp1 \<lparr> move := countermove mp1 \<rparr>
            in if move mp2 \<noteq> MOVE_NONE \<and> move mp2 \<noteq> ttMove mp2
                  \<and> move mp2 \<noteq> killers mp2 0 \<and> move mp2 \<noteq> killers mp2 1
                  \<and> pseudo_legal (pos mp2) (move mp2) \<and> \<not> capture (pos mp2) (move mp2)
               then (move mp2, mp2)
               else next_move T skipQuiets mp2)
      else if stage mp = QUIET_INIT
      then next_move T skipQuiets
             ((sort_quiets T (score T QUIETS
                 (generate QUIETS (mp \<lparr> cur := endBadCaptures mp \<rparr>))))
                \<lparr> stage := stage mp + 1 \<rparr>)
      else if stage mp = QUIET
      then (let r = (if \<not> skipQuiets then select_move T NEXT F_QUIET mp else (MOVE_NONE, mp))
            in if \<not> skipQuiets \<and> fst r \<noteq> MOVE_NONE then (move (snd r), snd r)
               else next_move T skipQuiets
                      ((snd r) \<lparr> cur := 0, endMoves := endBadCaptures (snd r),
                                 stage := stage (snd r) + 1 \<rparr>))
      else if stage mp = BAD_CAPTURE
      then select_move T NEXT F_NOT_TT mp
      else if stage mp = EVASION_INIT
      then next_move T skipQuiets
             ((score T EVASIONS (generate EVASIONS (mp \<lparr> cur := 0 \<rparr>)))
                \<lparr> stage := stage mp + 1 \<rparr>)
      else if stage mp = EVASION
      then select_move T BEST_SCORE F_NOT_TT mp
      else if stage mp = PROBCUT
      then select_move T BEST_SCORE F_PROBCUT mp
      else if stage mp = QCAPTURE
      then (let r = select_move T BEST_SCORE F_QCAPTURE mp
            in if fst r \<noteq> MOVE_NONE then (move (snd r), snd r)
               else if depth (snd r) \<noteq> DEPTH_QS_CHECKS T then (MOVE_NONE, snd r)
               else next_move T skipQuiets ((snd r) \<lparr> stage := stage (snd r) + 1 \<rparr>))
      else if stage mp = QCHECK_INIT
      then next_move T skipQuiets
             ((generate QUIET_CHECKS (mp \<lparr> cur := 0 \<rparr>)) \<lparr> stage := stage mp + 1 \<rparr>)
      else if stage mp = QCHECK
      then select_move T NEXT F_NOT_TT mp
      else (MOVE_NONE, mp))"
  by pat_completeness auto
termination
  by (relation "measure (\<lambda>(T, skipQuiets, mp). 20 - stage mp)")
     (auto simp: stage_defs generate_def score_def sort_quiets_def)

declare next_move.simps [simp del]

subsection \<open>Progress of a call, and the run of a picker\<close>

text \<open>
  A call that yields a move either moves to a later stage or consumes a cell of the
  current range. The lemmas \<open>nm_...\<close> unfold \<open>next_move\<close> at one stage each.
\<close>

lemma select_move_progress:
  "fst (select_move T pt f mp) \<noteq> MOVE_NONE \<Longrightarrow>
   cur mp < cur (snd (select_move T pt f mp)) \<and> cur (snd (select_move T pt f mp)) \<le> endMoves mp"
proof (induction T pt f mp rule: select_move.induct)
  case (1 T pt f mp)
  show ?case
  proof (cases "cur mp < endMoves mp")
    case False
    with "1.prems" show ?thesis
      by (subst (asm) select_move.simps) simp
  next
    case True
    define mp1 where "mp1 = (if pt = BEST_SCORE
                       then mp \<lparr> moves := swap_cells (moves mp) (cur mp)
                                            (max_element (moves mp) (cur mp) (endMoves mp)) \<rparr>
                       else mp)"
    define mp2 where "mp2 = mp1 \<lparr> move := em_move (moves mp1 ! cur mp1), cur := cur mp1 + 1 \<rparr>"
    define mp3 where "mp3 = snd (apply_filter T f mp2)"
    have c3: "cur mp3 = cur mp + 1" and e3: "endMoves mp3 = endMoves mp"
      by (simp_all add: mp3_def mp2_def mp1_def)
    have unf: "select_move T pt f mp =
        (if fst (apply_filter T f mp2) then (move mp3, mp3) else select_move T pt f mp3)"
      using True by (subst select_move.simps) (simp add: Let_def mp1_def mp2_def mp3_def)
    show ?thesis
    proof (cases "fst (apply_filter T f mp2)")
      case ok: True
      with unf c3 True show ?thesis by simp
    next
      case no: False
      with unf "1.prems" have "fst (select_move T pt f mp3) \<noteq> MOVE_NONE" by simp
      with "1.IH" [OF True mp1_def mp2_def] no
      have "cur mp3 < cur (snd (select_move T pt f mp3))
          \<and> cur (snd (select_move T pt f mp3)) \<le> endMoves mp3"
        unfolding mp3_def by simp
      with unf no c3 e3 show ?thesis by simp
    qed
  qed
qed

definition progress :: "MovePicker \<Rightarrow> MovePicker \<Rightarrow> bool" where
  "progress mp mp' \<longleftrightarrow>
     (stage mp < stage mp' \<and> stage mp < 20)
     \<or> (stage mp' = stage mp \<and> endMoves mp' = endMoves mp
         \<and> cur mp < cur mp' \<and> cur mp' \<le> endMoves mp)"

lemma progress_select:
  assumes "fst (select_move T pt f mp) \<noteq> MOVE_NONE"
  shows "progress mp (snd (select_move T pt f mp))"
  using select_move_progress [OF assms] by (simp add: progress_def)

lemma progress_step:
  assumes "stage mp1 = stage mp + 1" and "stage mp < 19" and "progress mp1 mp'"
  shows "progress mp mp'"
  using assms by (auto simp: progress_def)

lemma nm_TT:
  "stage mp = MAIN_TT \<or> stage mp = EVASION_TT \<or> stage mp = QSEARCH_TT \<or> stage mp = PROBCUT_TT \<Longrightarrow>
   next_move T skipQuiets mp = (ttMove mp, mp \<lparr> stage := stage mp + 1 \<rparr>)"
  by (subst next_move.simps) simp

lemma nm_CAPTURE_INIT:
  "stage mp = CAPTURE_INIT \<or> stage mp = PROBCUT_INIT \<or> stage mp = QCAPTURE_INIT \<Longrightarrow>
   next_move T skipQuiets mp =
     next_move T skipQuiets
       ((score T CAPTURES (generate CAPTURES (mp \<lparr> cur := 0, endBadCaptures := 0 \<rparr>)))
          \<lparr> stage := stage mp + 1 \<rparr>)"
  by (subst next_move.simps) (auto simp: stage_defs)

lemma nm_GOOD_CAPTURE:
  "stage mp = GOOD_CAPTURE \<Longrightarrow>
   next_move T skipQuiets mp =
     (let r = select_move T BEST_SCORE F_GOOD_CAPTURE mp
      in if fst r \<noteq> MOVE_NONE then (move (snd r), snd r)
         else next_move T skipQuiets ((snd r) \<lparr> stage := stage (snd r) + 1 \<rparr>))"
  by (subst next_move.simps) (simp add: stage_defs)

lemma nm_KILLER:
  "stage mp = KILLER0 \<or> stage mp = KILLER1 \<Longrightarrow>
   next_move T skipQuiets mp =
     (let mp1 = mp \<lparr> stage := stage mp + 1 \<rparr>;
          mp2 = mp1 \<lparr> move := killers mp1 (stage mp1 - KILLER1) \<rparr>
      in if move mp2 \<noteq> MOVE_NONE \<and> move mp2 \<noteq> ttMove mp2
            \<and> pseudo_legal (pos mp2) (move mp2) \<and> \<not> capture (pos mp2) (move mp2)
         then (move mp2, mp2)
         else next_move T skipQuiets mp2)"
  by (subst next_move.simps) (auto simp: stage_defs)

lemma nm_COUNTERMOVE:
  "stage mp = COUNTERMOVE \<Longrightarrow>
   next_move T skipQuiets mp =
     (let mp1 = mp \<lparr> stage := stage mp + 1 \<rparr>;
          mp2 = mp1 \<lparr> move := countermove mp1 \<rparr>
      in if move mp2 \<noteq> MOVE_NONE \<and> move mp2 \<noteq> ttMove mp2
            \<and> move mp2 \<noteq> killers mp2 0 \<and> move mp2 \<noteq> killers mp2 1
            \<and> pseudo_legal (pos mp2) (move mp2) \<and> \<not> capture (pos mp2) (move mp2)
         then (move mp2, mp2)
         else next_move T skipQuiets mp2)"
  by (subst next_move.simps) (simp add: stage_defs)

lemma nm_QUIET_INIT:
  "stage mp = QUIET_INIT \<Longrightarrow>
   next_move T skipQuiets mp =
     next_move T skipQuiets
       ((sort_quiets T (score T QUIETS (generate QUIETS (mp \<lparr> cur := endBadCaptures mp \<rparr>))))
          \<lparr> stage := stage mp + 1 \<rparr>)"
  by (subst next_move.simps) (simp add: stage_defs)

lemma nm_QUIET:
  "stage mp = QUIET \<Longrightarrow>
   next_move T skipQuiets mp =
     (let r = (if \<not> skipQuiets then select_move T NEXT F_QUIET mp else (MOVE_NONE, mp))
      in if \<not> skipQuiets \<and> fst r \<noteq> MOVE_NONE then (move (snd r), snd r)
         else next_move T skipQuiets
                ((snd r) \<lparr> cur := 0, endMoves := endBadCaptures (snd r),
                           stage := stage (snd r) + 1 \<rparr>))"
  by (subst next_move.simps) (simp add: stage_defs)

lemma nm_BAD_CAPTURE:
  "stage mp = BAD_CAPTURE \<Longrightarrow> next_move T skipQuiets mp = select_move T NEXT F_NOT_TT mp"
  by (subst next_move.simps) (simp add: stage_defs)

lemma nm_EVASION_INIT:
  "stage mp = EVASION_INIT \<Longrightarrow>
   next_move T skipQuiets mp =
     next_move T skipQuiets
       ((score T EVASIONS (generate EVASIONS (mp \<lparr> cur := 0 \<rparr>))) \<lparr> stage := stage mp + 1 \<rparr>)"
  by (subst next_move.simps) (simp add: stage_defs)

lemma nm_EVASION:
  "stage mp = EVASION \<Longrightarrow> next_move T skipQuiets mp = select_move T BEST_SCORE F_NOT_TT mp"
  by (subst next_move.simps) (simp add: stage_defs)

lemma nm_PROBCUT:
  "stage mp = PROBCUT \<Longrightarrow> next_move T skipQuiets mp = select_move T BEST_SCORE F_PROBCUT mp"
  by (subst next_move.simps) (simp add: stage_defs)

lemma nm_QCAPTURE:
  "stage mp = QCAPTURE \<Longrightarrow>
   next_move T skipQuiets mp =
     (let r = select_move T BEST_SCORE F_QCAPTURE mp
      in if fst r \<noteq> MOVE_NONE then (move (snd r), snd r)
         else if depth (snd r) \<noteq> DEPTH_QS_CHECKS T then (MOVE_NONE, snd r)
         else next_move T skipQuiets ((snd r) \<lparr> stage := stage (snd r) + 1 \<rparr>))"
  by (subst next_move.simps) (simp add: stage_defs)

lemma nm_QCHECK_INIT:
  "stage mp = QCHECK_INIT \<Longrightarrow>
   next_move T skipQuiets mp =
     next_move T skipQuiets
       ((generate QUIET_CHECKS (mp \<lparr> cur := 0 \<rparr>)) \<lparr> stage := stage mp + 1 \<rparr>)"
  by (subst next_move.simps) (simp add: stage_defs)

lemma nm_QCHECK:
  "stage mp = QCHECK \<Longrightarrow> next_move T skipQuiets mp = select_move T NEXT F_NOT_TT mp"
  by (subst next_move.simps) (simp add: stage_defs)

lemma nm_default:
  "stage mp \<ge> 20 \<Longrightarrow> next_move T skipQuiets mp = (MOVE_NONE, mp)"
  by (subst next_move.simps) (simp add: stage_defs)

lemma generate_stage [simp]: "stage (generate gt mp) = stage mp"
  and score_stage [simp]: "stage (score T gt mp) = stage mp"
  and sort_quiets_stage [simp]: "stage (sort_quiets T mp) = stage mp"
  by (simp_all add: generate_def score_def sort_quiets_def)

lemma progress_TT:
  assumes "stage mp = MAIN_TT \<or> stage mp = EVASION_TT \<or> stage mp = QSEARCH_TT \<or> stage mp = PROBCUT_TT"
  shows "progress mp (snd (next_move T s mp))"
  using assms by (auto simp: nm_TT progress_def stage_defs)

lemma progress_BAD_CAPTURE:
  assumes "stage mp = BAD_CAPTURE" and "fst (next_move T s mp) \<noteq> MOVE_NONE"
  shows "progress mp (snd (next_move T s mp))"
  using assms progress_select by (simp add: nm_BAD_CAPTURE)

lemma progress_EVASION:
  assumes "stage mp = EVASION" and "fst (next_move T s mp) \<noteq> MOVE_NONE"
  shows "progress mp (snd (next_move T s mp))"
  using assms progress_select by (simp add: nm_EVASION)

lemma progress_PROBCUT:
  assumes "stage mp = PROBCUT" and "fst (next_move T s mp) \<noteq> MOVE_NONE"
  shows "progress mp (snd (next_move T s mp))"
  using assms progress_select by (simp add: nm_PROBCUT)

lemma progress_QCHECK:
  assumes "stage mp = QCHECK" and "fst (next_move T s mp) \<noteq> MOVE_NONE"
  shows "progress mp (snd (next_move T s mp))"
  using assms progress_select by (simp add: nm_QCHECK)

lemma progress_QCHECK_INIT:
  assumes "stage mp = QCHECK_INIT" and "fst (next_move T s mp) \<noteq> MOVE_NONE"
  shows "progress mp (snd (next_move T s mp))"
proof -
  let ?mp1 = "(generate QUIET_CHECKS (mp \<lparr> cur := 0 \<rparr>)) \<lparr> stage := stage mp + 1 \<rparr>"
  have eq: "next_move T s mp = next_move T s ?mp1"
    using assms(1) by (rule nm_QCHECK_INIT)
  have st: "stage ?mp1 = QCHECK" using assms(1) by (simp add: stage_defs)
  from assms(2) have "progress ?mp1 (snd (next_move T s ?mp1))"
    unfolding eq by (rule progress_QCHECK [OF st])
  then show ?thesis
    unfolding eq using assms(1) by (intro progress_step [of ?mp1 mp]) (simp_all add: stage_defs)
qed

lemma progress_QCAPTURE:
  assumes "stage mp = QCAPTURE" and "fst (next_move T s mp) \<noteq> MOVE_NONE"
  shows "progress mp (snd (next_move T s mp))"
proof -
  let ?r = "select_move T BEST_SCORE F_QCAPTURE mp"
  let ?mp1 = "(snd ?r) \<lparr> stage := stage (snd ?r) + 1 \<rparr>"
  note unf = nm_QCAPTURE [OF assms(1), of T s, unfolded Let_def]
  show ?thesis
  proof (cases "fst ?r \<noteq> MOVE_NONE")
    case True
    then show ?thesis using progress_select [OF True] by (simp add: unf)
  next
    case False
    with assms(2) unf have dq: "depth (snd ?r) = DEPTH_QS_CHECKS T"
      by (auto split: if_splits)
    with False unf have eq: "next_move T s mp = next_move T s ?mp1" by simp
    have st: "stage ?mp1 = QCHECK_INIT" using assms(1) by (simp add: stage_defs)
    from assms(2) have "progress ?mp1 (snd (next_move T s ?mp1))"
      unfolding eq by (rule progress_QCHECK_INIT [OF st])
    then show ?thesis
      unfolding eq using assms(1) by (intro progress_step [of ?mp1 mp]) (simp_all add: stage_defs)
  qed
qed

lemma progress_EVASION_INIT:
  assumes "stage mp = EVASION_INIT" and "fst (next_move T s mp) \<noteq> MOVE_NONE"
  shows "progress mp (snd (next_move T s mp))"
proof -
  let ?mp1 = "(score T EVASIONS (generate EVASIONS (mp \<lparr> cur := 0 \<rparr>))) \<lparr> stage := stage mp + 1 \<rparr>"
  have eq: "next_move T s mp = next_move T s ?mp1"
    using assms(1) by (rule nm_EVASION_INIT)
  have st: "stage ?mp1 = EVASION" using assms(1) by (simp add: stage_defs)
  from assms(2) have "progress ?mp1 (snd (next_move T s ?mp1))"
    unfolding eq by (rule progress_EVASION [OF st])
  then show ?thesis
    unfolding eq using assms(1) by (intro progress_step [of ?mp1 mp]) (simp_all add: stage_defs)
qed

lemma progress_QUIET:
  assumes "stage mp = QUIET" and "fst (next_move T s mp) \<noteq> MOVE_NONE"
  shows "progress mp (snd (next_move T s mp))"
proof -
  let ?r = "if \<not> s then select_move T NEXT F_QUIET mp else (MOVE_NONE, mp)"
  let ?mp1 = "(snd ?r) \<lparr> cur := 0, endMoves := endBadCaptures (snd ?r), stage := stage (snd ?r) + 1 \<rparr>"
  note unf = nm_QUIET [OF assms(1), of T s, unfolded Let_def]
  show ?thesis
  proof (cases "\<not> s \<and> fst ?r \<noteq> MOVE_NONE")
    case True
    then have ns: "\<not> s" and f: "fst (select_move T NEXT F_QUIET mp) \<noteq> MOVE_NONE" by auto
    from ns f unf have "next_move T s mp
        = (move (snd (select_move T NEXT F_QUIET mp)), snd (select_move T NEXT F_QUIET mp))"
      by simp
    with progress_select [OF f] show ?thesis by simp
  next
    case False
    with unf have eq: "next_move T s mp = next_move T s ?mp1" by auto
    have st: "stage ?mp1 = BAD_CAPTURE" using assms(1) by (simp add: stage_defs)
    from assms(2) have "progress ?mp1 (snd (next_move T s ?mp1))"
      unfolding eq by (rule progress_BAD_CAPTURE [OF st])
    then show ?thesis
      unfolding eq using assms(1) by (intro progress_step [of ?mp1 mp]) (simp_all add: stage_defs)
  qed
qed

lemma progress_QUIET_INIT:
  assumes "stage mp = QUIET_INIT" and "fst (next_move T s mp) \<noteq> MOVE_NONE"
  shows "progress mp (snd (next_move T s mp))"
proof -
  let ?mp1 = "(sort_quiets T (score T QUIETS (generate QUIETS (mp \<lparr> cur := endBadCaptures mp \<rparr>))))
                \<lparr> stage := stage mp + 1 \<rparr>"
  have eq: "next_move T s mp = next_move T s ?mp1"
    using assms(1) by (rule nm_QUIET_INIT)
  have st: "stage ?mp1 = QUIET" using assms(1) by (simp add: stage_defs)
  from assms(2) have "progress ?mp1 (snd (next_move T s ?mp1))"
    unfolding eq by (rule progress_QUIET [OF st])
  then show ?thesis
    unfolding eq using assms(1) by (intro progress_step [of ?mp1 mp]) (simp_all add: stage_defs)
qed

lemma progress_COUNTERMOVE:
  assumes "stage mp = COUNTERMOVE" and "fst (next_move T s mp) \<noteq> MOVE_NONE"
  shows "progress mp (snd (next_move T s mp))"
proof -
  let ?mp2 = "mp \<lparr> stage := stage mp + 1, move := countermove mp \<rparr>"
  note unf = nm_COUNTERMOVE [OF assms(1), of T s, unfolded Let_def, simplified]
  have st: "stage ?mp2 = QUIET_INIT" using assms(1) by (simp add: stage_defs)
  have p2: "progress mp ?mp2" using assms(1) by (simp add: progress_def stage_defs)
  show ?thesis
  proof (cases "next_move T s mp = (countermove mp, ?mp2)")
    case True
    with p2 show ?thesis by simp
  next
    case False
    with unf have eq: "next_move T s mp = next_move T s ?mp2" by (auto split: if_splits)
    from assms(2) have "progress ?mp2 (snd (next_move T s ?mp2))"
      unfolding eq by (rule progress_QUIET_INIT [OF st])
    then show ?thesis
      unfolding eq using assms(1) by (intro progress_step [of ?mp2 mp]) (simp_all add: stage_defs)
  qed
qed

lemma progress_KILLER1:
  assumes "stage mp = KILLER1" and "fst (next_move T s mp) \<noteq> MOVE_NONE"
  shows "progress mp (snd (next_move T s mp))"
proof -
  let ?mp2 = "mp \<lparr> stage := stage mp + 1, move := killers mp (stage mp + 1 - KILLER1) \<rparr>"
  have k: "stage mp = KILLER0 \<or> stage mp = KILLER1" using assms(1) by simp
  note unf = nm_KILLER [OF k, of T s, unfolded Let_def, simplified]
  have st: "stage ?mp2 = COUNTERMOVE" using assms(1) by (simp add: stage_defs)
  have p2: "progress mp ?mp2" using assms(1) by (simp add: progress_def stage_defs)
  show ?thesis
  proof (cases "next_move T s mp = (move ?mp2, ?mp2)")
    case True
    with p2 show ?thesis by simp
  next
    case False
    with unf have eq: "next_move T s mp = next_move T s ?mp2" by (auto split: if_splits)
    from assms(2) have "progress ?mp2 (snd (next_move T s ?mp2))"
      unfolding eq by (rule progress_COUNTERMOVE [OF st])
    then show ?thesis
      unfolding eq using assms(1) by (intro progress_step [of ?mp2 mp]) (simp_all add: stage_defs)
  qed
qed

lemma progress_KILLER0:
  assumes "stage mp = KILLER0" and "fst (next_move T s mp) \<noteq> MOVE_NONE"
  shows "progress mp (snd (next_move T s mp))"
proof -
  let ?mp2 = "mp \<lparr> stage := stage mp + 1, move := killers mp (stage mp + 1 - KILLER1) \<rparr>"
  have k: "stage mp = KILLER0 \<or> stage mp = KILLER1" using assms(1) by simp
  note unf = nm_KILLER [OF k, of T s, unfolded Let_def, simplified]
  have st: "stage ?mp2 = KILLER1" using assms(1) by (simp add: stage_defs)
  have p2: "progress mp ?mp2" using assms(1) by (simp add: progress_def stage_defs)
  show ?thesis
  proof (cases "next_move T s mp = (move ?mp2, ?mp2)")
    case True
    with p2 show ?thesis by simp
  next
    case False
    with unf have eq: "next_move T s mp = next_move T s ?mp2" by (auto split: if_splits)
    from assms(2) have "progress ?mp2 (snd (next_move T s ?mp2))"
      unfolding eq by (rule progress_KILLER1 [OF st])
    then show ?thesis
      unfolding eq using assms(1) by (intro progress_step [of ?mp2 mp]) (simp_all add: stage_defs)
  qed
qed

lemma progress_GOOD_CAPTURE:
  assumes "stage mp = GOOD_CAPTURE" and "fst (next_move T s mp) \<noteq> MOVE_NONE"
  shows "progress mp (snd (next_move T s mp))"
proof -
  let ?r = "select_move T BEST_SCORE F_GOOD_CAPTURE mp"
  let ?mp1 = "(snd ?r) \<lparr> stage := stage (snd ?r) + 1 \<rparr>"
  note unf = nm_GOOD_CAPTURE [OF assms(1), of T s, unfolded Let_def]
  show ?thesis
  proof (cases "fst ?r \<noteq> MOVE_NONE")
    case True
    then show ?thesis using progress_select [OF True] by (simp add: unf)
  next
    case False
    with unf have eq: "next_move T s mp = next_move T s ?mp1" by simp
    have st: "stage ?mp1 = KILLER0" using assms(1) by (simp add: stage_defs)
    from assms(2) have "progress ?mp1 (snd (next_move T s ?mp1))"
      unfolding eq by (rule progress_KILLER0 [OF st])
    then show ?thesis
      unfolding eq using assms(1) by (intro progress_step [of ?mp1 mp]) (simp_all add: stage_defs)
  qed
qed

lemma progress_CAPTURE_INIT:
  assumes "stage mp = CAPTURE_INIT \<or> stage mp = PROBCUT_INIT \<or> stage mp = QCAPTURE_INIT"
    and "fst (next_move T s mp) \<noteq> MOVE_NONE"
  shows "progress mp (snd (next_move T s mp))"
proof -
  let ?mp1 = "(score T CAPTURES (generate CAPTURES (mp \<lparr> cur := 0, endBadCaptures := 0 \<rparr>)))
                \<lparr> stage := stage mp + 1 \<rparr>"
  have eq: "next_move T s mp = next_move T s ?mp1"
    using assms(1) by (rule nm_CAPTURE_INIT)
  have st: "stage ?mp1 = GOOD_CAPTURE \<or> stage ?mp1 = PROBCUT \<or> stage ?mp1 = QCAPTURE"
    using assms(1) by (auto simp: stage_defs)
  from assms(2) have "progress ?mp1 (snd (next_move T s ?mp1))"
    unfolding eq using st progress_GOOD_CAPTURE progress_PROBCUT progress_QCAPTURE by blast
  then show ?thesis
    unfolding eq using assms(1) by (intro progress_step [of ?mp1 mp]) (auto simp: stage_defs)
qed

lemma next_move_progress:
  assumes "fst (next_move T s mp) \<noteq> MOVE_NONE"
  shows "progress mp (snd (next_move T s mp))"
proof -
  consider "stage mp \<ge> 20" | "stage mp < 20" by linarith
  then show ?thesis
  proof cases
    case 1
    with assms show ?thesis by (simp add: nm_default)
  next
    case 2
    then have "stage mp = 0 \<or> stage mp = 1 \<or> stage mp = 2 \<or> stage mp = 3 \<or> stage mp = 4
        \<or> stage mp = 5 \<or> stage mp = 6 \<or> stage mp = 7 \<or> stage mp = 8 \<or> stage mp = 9
        \<or> stage mp = 10 \<or> stage mp = 11 \<or> stage mp = 12 \<or> stage mp = 13 \<or> stage mp = 14
        \<or> stage mp = 15 \<or> stage mp = 16 \<or> stage mp = 17 \<or> stage mp = 18 \<or> stage mp = 19"
      by arith
    then show ?thesis
      using assms progress_TT [of mp T s] progress_CAPTURE_INIT [of mp T s]
        progress_GOOD_CAPTURE [of mp T s] progress_KILLER0 [of mp T s]
        progress_KILLER1 [of mp T s] progress_COUNTERMOVE [of mp T s]
        progress_QUIET_INIT [of mp T s] progress_QUIET [of mp T s]
        progress_BAD_CAPTURE [of mp T s] progress_EVASION_INIT [of mp T s]
        progress_EVASION [of mp T s] progress_PROBCUT [of mp T s]
        progress_QCAPTURE [of mp T s] progress_QCHECK_INIT [of mp T s]
        progress_QCHECK [of mp T s]
      unfolding stage_defs by (elim disjE) simp_all
  qed
qed

text \<open>
  The caller's loop \<open>while ((move = mp.next_move(skipQuiets)) != MOVE_NONE)\<close>: the run of
  a picker to exhaustion. \<open>skips n\<close> is the argument \<open>skipQuiets\<close> of the \<open>n\<close>-th
  call, so the caller may change it between calls. The run lists every yielded move with
  the value of \<open>stage\<close> at the moment the call returns: \<open>GOOD_CAPTURE\<close>, \<open>QUIET\<close>
  and \<open>BAD_CAPTURE\<close> for a move of those stages, and, because these stages increment
  \<open>stage\<close> before they return, \<open>CAPTURE_INIT\<close> for the hash move, \<open>KILLER1\<close> for the
  first killer, \<open>COUNTERMOVE\<close> for the second killer and \<open>QUIET_INIT\<close> for the counter
  move. The function is total: the loop ends on every picker.
\<close>

function run_picker :: "types_h \<Rightarrow> (nat \<Rightarrow> bool) \<Rightarrow> nat \<Rightarrow> MovePicker \<Rightarrow> (Move \<times> nat) list" where
  "run_picker T skips n mp =
     (let r = next_move T (skips n) mp
      in if fst r = MOVE_NONE then []
         else (fst r, stage (snd r)) # run_picker T skips (n + 1) (snd r))"
  by pat_completeness auto
termination
proof (relation "measures [\<lambda>(T, skips, n, mp). 20 - stage mp,
                           \<lambda>(T, skips, n, mp). endMoves mp - cur mp]", goal_cases)
  case 1
  show ?case by simp
next
  case (2 T skips n mp r)
  then have "progress mp (snd (next_move T (skips n) mp))"
    by (intro next_move_progress) simp
  with 2 show ?case
    by (auto simp: progress_def)
qed

declare run_picker.simps [simp del]

section \<open>The move picker: invariants of the main-search stages\<close>

text \<open>
  \<open>pending\<close> are the moves of the cells still to be visited, \<open>badbuf\<close> the moves
  stored in the bad-capture buffer at the front of the array. \<open>see_good\<close> is the exchange
  check of the good-capture filter on a capture's own score,
  \<open>see_ge(m, -55 * score(m) / 1024)\<close>; it depends on the position and the capture history
  only, which the picker never changes.
\<close>

definition pending :: "MovePicker \<Rightarrow> Move list" where
  "pending mp = map em_move (drop (cur mp) (take (endMoves mp) (moves mp)))"

definition badbuf :: "MovePicker \<Rightarrow> Move list" where
  "badbuf mp = map em_move (take (endBadCaptures mp) (moves mp))"

definition see_good :: "types_h \<Rightarrow> MovePicker \<Rightarrow> Move \<Rightarrow> bool" where
  "see_good T mp m = see_ge (pos mp) m (c_div (- 55 * score_of T mp CAPTURES m) 1024)"

definition bad_ok :: "types_h \<Rightarrow> MovePicker \<Rightarrow> Move list \<Rightarrow> bool" where
  "bad_ok T mp ms \<longleftrightarrow> (\<forall>m \<in> set ms. m \<noteq> MOVE_NONE \<and> m \<noteq> ttMove mp \<and> \<not> see_good T mp m)"

definition good_inv :: "types_h \<Rightarrow> MovePicker \<Rightarrow> bool" where
  "good_inv T mp \<longleftrightarrow>
     endBadCaptures mp \<le> cur mp \<and> cur mp \<le> endMoves mp \<and> endMoves mp \<le> length (moves mp)
     \<and> (\<forall>e \<in> set (drop (cur mp) (take (endMoves mp) (moves mp))).
           em_move e \<noteq> MOVE_NONE \<and> em_value e = score_of T mp CAPTURES (em_move e))
     \<and> bad_ok T mp (badbuf mp)"

definition rem_good :: "MovePicker \<Rightarrow> Move multiset" where
  "rem_good mp = mset (filter (\<lambda>m. m \<noteq> ttMove mp) (pending mp)) + mset (badbuf mp)"

lemma max_element_loop_bounds:
  "lo \<le> largest \<Longrightarrow> largest < first \<Longrightarrow>
   lo \<le> max_element_loop ms largest first lst
   \<and> max_element_loop ms largest first lst < max first lst"
proof (induction ms largest first lst rule: max_element_loop.induct)
  case (1 ms largest first lst)
  show ?case
  proof (cases "first < lst")
    case True
    let ?l = "if em_value (ms ! largest) < em_value (ms ! first) then first else largest"
    have "lo \<le> ?l" and "?l < first + 1" using "1.prems" by auto
    from "1.IH" [OF True this] True show ?thesis
      by (subst (1 2) max_element_loop.simps) (simp add: max_def)
  next
    case False
    with "1.prems" show ?thesis
      by (subst (1 2) max_element_loop.simps) (simp add: max_def)
  qed
qed

lemma max_element_bounds:
  assumes "first < lst"
  shows "first \<le> max_element ms first lst" and "max_element ms first lst < lst"
  using max_element_loop_bounds [of first first "first + 1" ms lst] assms
  by (simp_all add: max_element_def max_def split: if_splits)

lemma swap_cells_length [simp]: "length (swap_cells ms i j) = length ms"
  by (simp add: swap_cells_def)

lemma swap_cells_take:
  assumes "b \<le> i" and "b \<le> j"
  shows "take b (swap_cells ms i j) = take b ms"
  using assms by (simp add: swap_cells_def)

lemma swap_cells_drop:
  assumes "i < e" and "j < e"
  shows "drop e (swap_cells ms i j) = drop e ms"
  using assms by (simp add: swap_cells_def)

lemma swap_cells_range:
  assumes "c \<le> i" "i < e" "c \<le> j" "j < e" "e \<le> length ms"
  shows "mset (drop c (take e (swap_cells ms i j))) = mset (drop c (take e ms))"
proof -
  let ?xs = "drop c (take e ms)"
  have len: "length ?xs = e - c" using assms by simp
  have nth: "?xs ! (k - c) = ms ! k" if "c \<le> k" "k < e" for k
    using that assms by simp
  have "drop c (take e (swap_cells ms i j)) = ?xs[i - c := ms ! j, j - c := ms ! i]"
    using assms by (simp add: swap_cells_def take_update_swap drop_update_swap)
  also have "\<dots> = ?xs[i - c := ?xs ! (j - c), j - c := ?xs ! (i - c)]"
    using assms by (simp only: nth)
  also have "mset \<dots> = mset ?xs"
    using assms len by (intro mset_swap) simp_all
  finally show ?thesis .
qed

lemma swap_cells_nth_first:
  assumes "i < length ms" "j < length ms"
  shows "swap_cells ms i j ! i = ms ! j"
  using assms by (cases "i = j") (simp_all add: swap_cells_def)

text \<open>\<open>fetch\<close> is the part of one iteration of \<open>select_move\<close> before the filter.\<close>

definition fetch :: "PickType \<Rightarrow> MovePicker \<Rightarrow> MovePicker" where
  "fetch pt mp =
     (let mp1 = (if pt = BEST_SCORE
                 then mp \<lparr> moves := swap_cells (moves mp) (cur mp)
                                      (max_element (moves mp) (cur mp) (endMoves mp)) \<rparr>
                 else mp)
      in mp1 \<lparr> move := em_move (moves mp1 ! cur mp1), cur := cur mp1 + 1 \<rparr>)"

lemma select_move_fetch:
  "select_move T pt f mp =
     (if cur mp < endMoves mp
      then (if fst (apply_filter T f (fetch pt mp))
            then (move (snd (apply_filter T f (fetch pt mp))), snd (apply_filter T f (fetch pt mp)))
            else select_move T pt f (snd (apply_filter T f (fetch pt mp))))
      else (MOVE_NONE, mp \<lparr> move := MOVE_NONE \<rparr>))"
  by (subst select_move.simps) (simp add: fetch_def Let_def)

lemma fetch_fields [simp]:
  "cur (fetch pt mp) = cur mp + 1"
  "endMoves (fetch pt mp) = endMoves mp"
  "endBadCaptures (fetch pt mp) = endBadCaptures mp"
  "pos (fetch pt mp) = pos mp"
  "ttMove (fetch pt mp) = ttMove mp"
  "killers (fetch pt mp) = killers mp"
  "countermove (fetch pt mp) = countermove mp"
  "captureHistory (fetch pt mp) = captureHistory mp"
  "stage (fetch pt mp) = stage mp"
  "length (moves (fetch pt mp)) = length (moves mp)"
  by (simp_all add: fetch_def Let_def)

lemma select_move_fetch_induct [consumes 0, case_names stop yield skip]:
  assumes "\<And>mp. \<not> cur mp < endMoves mp \<Longrightarrow> P mp"
    and "\<And>mp. cur mp < endMoves mp \<Longrightarrow> fst (apply_filter T f (fetch pt mp)) \<Longrightarrow> P mp"
    and "\<And>mp. cur mp < endMoves mp \<Longrightarrow> \<not> fst (apply_filter T f (fetch pt mp)) \<Longrightarrow>
            P (snd (apply_filter T f (fetch pt mp))) \<Longrightarrow> P mp"
  shows "P mp"
proof (induction "endMoves mp - cur mp" arbitrary: mp rule: less_induct)
  case less
  show ?case
  proof (cases "cur mp < endMoves mp")
    case False
    then show ?thesis by (rule assms(1))
  next
    case True
    show ?thesis
    proof (cases "fst (apply_filter T f (fetch pt mp))")
      case ok: True
      with True show ?thesis by (rule assms(2))
    next
      case no: False
      have "P (snd (apply_filter T f (fetch pt mp)))"
        using True by (intro less) simp
      with True no show ?thesis by (rule assms(3))
    qed
  qed
qed

lemma score_of_cong:
  "pos a = pos b \<Longrightarrow> captureHistory a = captureHistory b \<Longrightarrow>
   score_of T a CAPTURES m = score_of T b CAPTURES m"
  by (simp add: score_of_def)

lemma see_good_cong:
  "pos a = pos b \<Longrightarrow> captureHistory a = captureHistory b \<Longrightarrow> see_good T a m = see_good T b m"
  by (simp add: see_good_def score_of_cong [of a b])

lemma bad_ok_cong:
  "pos a = pos b \<Longrightarrow> captureHistory a = captureHistory b \<Longrightarrow> ttMove a = ttMove b \<Longrightarrow>
   bad_ok T a ms = bad_ok T b ms"
  by (simp add: bad_ok_def see_good_cong [of a b])

lemma fetch_best:
  assumes "cur mp < endMoves mp" and "endMoves mp \<le> length (moves mp)"
    and "b \<le> cur mp"
  shows "mset (drop (cur mp) (take (endMoves mp) (moves mp)))
           = add_mset (moves (fetch BEST_SCORE mp) ! cur mp)
               (mset (drop (cur mp + 1) (take (endMoves mp) (moves (fetch BEST_SCORE mp)))))"
    and "take b (moves (fetch BEST_SCORE mp)) = take b (moves mp)"
    and "move (fetch BEST_SCORE mp) = em_move (moves (fetch BEST_SCORE mp) ! cur mp)"
proof -
  let ?mx = "max_element (moves mp) (cur mp) (endMoves mp)"
  let ?ms1 = "swap_cells (moves mp) (cur mp) ?mx"
  have ms: "moves (fetch BEST_SCORE mp) = ?ms1" by (simp add: fetch_def Let_def)
  note mb = max_element_bounds [OF assms(1), of "moves mp"]
  have "mset (drop (cur mp) (take (endMoves mp) ?ms1))
      = mset (drop (cur mp) (take (endMoves mp) (moves mp)))"
    using assms mb by (intro swap_cells_range) simp_all
  moreover have "drop (cur mp) (take (endMoves mp) ?ms1)
      = ?ms1 ! cur mp # drop (cur mp + 1) (take (endMoves mp) ?ms1)"
    using assms by (simp add: Cons_nth_drop_Suc [symmetric])
  ultimately show "mset (drop (cur mp) (take (endMoves mp) (moves mp)))
           = add_mset (moves (fetch BEST_SCORE mp) ! cur mp)
               (mset (drop (cur mp + 1) (take (endMoves mp) (moves (fetch BEST_SCORE mp)))))"
    unfolding ms by (metis mset.simps(2))
  show "take b (moves (fetch BEST_SCORE mp)) = take b (moves mp)"
    unfolding ms using assms mb by (intro swap_cells_take) simp_all
  show "move (fetch BEST_SCORE mp) = em_move (moves (fetch BEST_SCORE mp) ! cur mp)"
    by (simp add: fetch_def Let_def)
qed

lemma good_fetch:
  assumes gi: "good_inv T mp" and lt: "cur mp < endMoves mp"
  defines "mp2 \<equiv> fetch BEST_SCORE mp"
  shows "mset (pending mp) = add_mset (move mp2) (mset (pending mp2))"
    and "badbuf mp2 = badbuf mp"
    and "move mp2 \<noteq> MOVE_NONE"
    and "em_value (moves mp2 ! cur mp) = score_of T mp CAPTURES (move mp2)"
    and "good_inv T mp2"
proof -
  from gi have eb: "endBadCaptures mp \<le> cur mp" and le: "endMoves mp \<le> length (moves mp)"
    and cells: "\<forall>e \<in> set (drop (cur mp) (take (endMoves mp) (moves mp))).
           em_move e \<noteq> MOVE_NONE \<and> em_value e = score_of T mp CAPTURES (em_move e)"
    and bad: "bad_ok T mp (badbuf mp)"
    by (simp_all add: good_inv_def)
  note fb = fetch_best [OF lt le eb]
  let ?x = "moves mp2 ! cur mp"
  let ?rest = "drop (cur mp + 1) (take (endMoves mp) (moves mp2))"
  have ms: "mset (drop (cur mp) (take (endMoves mp) (moves mp))) = add_mset ?x (mset ?rest)"
    unfolding mp2_def by (rule fb(1))
  have mv: "move mp2 = em_move ?x" unfolding mp2_def by (rule fb(3))
  have "mset (pending mp) = image_mset em_move (mset (drop (cur mp) (take (endMoves mp) (moves mp))))"
    by (simp add: pending_def)
  also have "\<dots> = add_mset (em_move ?x) (image_mset em_move (mset ?rest))"
    by (simp only: ms image_mset_add_mset)
  also have "\<dots> = add_mset (move mp2) (mset (pending mp2))"
    unfolding mv by (simp add: pending_def mp2_def)
  finally show "mset (pending mp) = add_mset (move mp2) (mset (pending mp2))" .
  show bb: "badbuf mp2 = badbuf mp"
    unfolding badbuf_def mp2_def by (simp add: fb(2))
  have xin: "?x \<in> set (drop (cur mp) (take (endMoves mp) (moves mp)))"
    by (metis ms set_mset_mset union_single_eq_member)
  have rin: "e \<in> set (drop (cur mp) (take (endMoves mp) (moves mp)))" if "e \<in> set ?rest" for e
    by (metis that ms set_mset_mset insert_iff set_mset_add_mset_insert)
  from xin cells show "move mp2 \<noteq> MOVE_NONE" by (simp add: mv)
  from xin cells show "em_value ?x = score_of T mp CAPTURES (move mp2)" by (simp add: mv)
  have sc: "score_of T mp2 CAPTURES m = score_of T mp CAPTURES m" for m
    unfolding mp2_def by (rule score_of_cong) simp_all
  have "\<forall>e \<in> set ?rest. em_move e \<noteq> MOVE_NONE \<and> em_value e = score_of T mp2 CAPTURES (em_move e)"
    using rin cells by (simp add: sc)
  moreover have "bad_ok T mp2 (badbuf mp) = bad_ok T mp (badbuf mp)"
    unfolding mp2_def by (rule bad_ok_cong) simp_all
  with bad bb have "bad_ok T mp2 (badbuf mp2)" by simp
  ultimately show "good_inv T mp2"
    using eb lt le unfolding good_inv_def by (simp add: mp2_def)
qed

lemma rem_good_fetch:
  assumes "mset (pending mp) = add_mset m (mset (pending mp2))"
    and "badbuf mp2 = badbuf mp" and "ttMove mp2 = ttMove mp"
  shows "rem_good mp = (if m = ttMove mp then rem_good mp2 else add_mset m (rem_good mp2))"
proof -
  have "mset (filter (\<lambda>m. m \<noteq> ttMove mp) (pending mp))
      = filter_mset (\<lambda>m. m \<noteq> ttMove mp) (add_mset m (mset (pending mp2)))"
    by (simp only: mset_filter assms(1))
  then show ?thesis
    using assms(2,3) by (simp add: rem_good_def)
qed

lemma good_iter:
  assumes gi: "good_inv T mp" and lt: "cur mp < endMoves mp"
  defines "r \<equiv> apply_filter T F_GOOD_CAPTURE (fetch BEST_SCORE mp)"
  shows "good_inv T (snd r)"
    and "fst r \<Longrightarrow> move (snd r) \<noteq> MOVE_NONE \<and> move (snd r) \<noteq> ttMove mp
                  \<and> see_good T mp (move (snd r))
                  \<and> rem_good mp = add_mset (move (snd r)) (rem_good (snd r))"
    and "\<not> fst r \<Longrightarrow> rem_good (snd r) = rem_good mp"
proof -
  define mp2 where "mp2 = fetch BEST_SCORE mp"
  define m where "m = move mp2"
  note gf = good_fetch [OF gi lt, folded mp2_def, folded m_def]
  from gi have eb: "endBadCaptures mp \<le> cur mp" and le: "endMoves mp \<le> length (moves mp)"
    by (simp_all add: good_inv_def)
  have f2: "cur mp2 = cur mp + 1" "endMoves mp2 = endMoves mp" "endBadCaptures mp2 = endBadCaptures mp"
    "pos mp2 = pos mp" "ttMove mp2 = ttMove mp" "captureHistory mp2 = captureHistory mp"
    "length (moves mp2) = length (moves mp)"
    by (simp_all add: mp2_def)
  have rg: "rem_good mp = (if m = ttMove mp then rem_good mp2 else add_mset m (rem_good mp2))"
    using gf(1,2) f2(5) by (rule rem_good_fetch)
  have sg: "see_ge (pos mp2) m (c_div (- 55 * em_value (moves mp2 ! (cur mp2 - 1))) 1024)
      = see_good T mp m"
    using gf(4) by (simp add: f2 see_good_def)
  have sg2: "see_good T mp2 x = see_good T mp x" for x
    by (rule see_good_cong) (simp_all add: f2)
  consider (tt) "m = ttMove mp" | (good) "m \<noteq> ttMove mp" "see_good T mp m"
    | (bad) "m \<noteq> ttMove mp" "\<not> see_good T mp m" by blast
  then have "good_inv T (snd r)
    \<and> (fst r \<longrightarrow> move (snd r) \<noteq> MOVE_NONE \<and> move (snd r) \<noteq> ttMove mp
                  \<and> see_good T mp (move (snd r))
                  \<and> rem_good mp = add_mset (move (snd r)) (rem_good (snd r)))
    \<and> (\<not> fst r \<longrightarrow> rem_good (snd r) = rem_good mp)"
  proof cases
    case tt
    then have "r = (False, mp2)"
      unfolding r_def mp2_def [symmetric] apply_filter_def by (simp add: m_def f2)
    with gf(5) rg tt show ?thesis by simp
  next
    case good
    then have "r = (True, mp2)"
      unfolding r_def mp2_def [symmetric] apply_filter_def using sg
      by (simp add: m_def [symmetric] f2)
    with gf(3,5) rg good show ?thesis by (simp add: m_def)
  next
    case bad
    let ?eb = "endBadCaptures mp"
    define ms3 where "ms3 = (moves mp2)[?eb := (moves mp2 ! ?eb) \<lparr> em_move := m \<rparr>]"
    define mp3 where "mp3 = mp2 \<lparr> moves := ms3, endBadCaptures := ?eb + 1 \<rparr>"
    from bad have r: "r = (False, mp3)"
      unfolding r_def mp2_def [symmetric] apply_filter_def using sg
      by (simp add: m_def [symmetric] f2 mp3_def ms3_def)
    have ebl: "?eb < length (moves mp2)" using eb lt le by (simp add: f2)
    have dr: "drop (Suc (cur mp)) (take (endMoves mp) ms3)
        = drop (Suc (cur mp)) (take (endMoves mp) (moves mp2))"
      using eb by (simp add: ms3_def take_update_swap)
    have pe: "pending mp3 = pending mp2"
      by (simp add: pending_def mp3_def f2 dr)
    have "take (Suc ?eb) ms3 = take ?eb ms3 @ [ms3 ! ?eb]"
      using ebl by (simp add: take_Suc_conv_app_nth ms3_def)
    then have bb: "badbuf mp3 = badbuf mp2 @ [m]"
      using ebl by (simp add: badbuf_def mp3_def f2 ms3_def)
    have tt3: "ttMove mp3 = ttMove mp2" by (simp add: mp3_def)
    have rg3: "rem_good mp3 = add_mset m (rem_good mp2)"
      by (simp add: rem_good_def pe bb tt3)
    from gf(5) have cells: "\<forall>e \<in> set (drop (cur mp2) (take (endMoves mp2) (moves mp2))).
           em_move e \<noteq> MOVE_NONE \<and> em_value e = score_of T mp2 CAPTURES (em_move e)"
      and bo: "bad_ok T mp2 (badbuf mp2)"
      by (simp_all add: good_inv_def)
    have sc3: "score_of T mp3 CAPTURES x = score_of T mp2 CAPTURES x" for x
      by (rule score_of_cong) (simp_all add: mp3_def)
    have "bad_ok T mp2 (badbuf mp2 @ [m])"
      using bo bad gf(3) by (simp add: bad_ok_def sg2 f2)
    moreover have "bad_ok T mp3 (badbuf mp2 @ [m]) = bad_ok T mp2 (badbuf mp2 @ [m])"
      by (rule bad_ok_cong) (simp_all add: mp3_def)
    ultimately have bo3: "bad_ok T mp3 (badbuf mp3)" by (simp add: bb)
    have f3: "cur mp3 = Suc (cur mp)" "endMoves mp3 = endMoves mp"
      "endBadCaptures mp3 = Suc (endBadCaptures mp)" "moves mp3 = ms3"
      "length ms3 = length (moves mp)"
      by (simp_all add: mp3_def f2 ms3_def)
    have c3: "\<forall>e \<in> set (drop (cur mp3) (take (endMoves mp3) (moves mp3))).
           em_move e \<noteq> MOVE_NONE \<and> em_value e = score_of T mp3 CAPTURES (em_move e)"
      using cells unfolding f3 dr sc3 by (simp add: f2)
    have gi3: "good_inv T mp3"
      unfolding good_inv_def using eb lt le c3 bo3
      by (simp add: f3)
    from r gi3 rg rg3 bad show ?thesis by simp
  qed
  then show "good_inv T (snd r)"
    and "fst r \<Longrightarrow> move (snd r) \<noteq> MOVE_NONE \<and> move (snd r) \<noteq> ttMove mp
                  \<and> see_good T mp (move (snd r))
                  \<and> rem_good mp = add_mset (move (snd r)) (rem_good (snd r))"
    and "\<not> fst r \<Longrightarrow> rem_good (snd r) = rem_good mp"
    by blast+
qed

lemma apply_filter_fields [simp]:
  "pos (snd (apply_filter T f mp)) = pos mp"
  "ttMove (snd (apply_filter T f mp)) = ttMove mp"
  "killers (snd (apply_filter T f mp)) = killers mp"
  "countermove (snd (apply_filter T f mp)) = countermove mp"
  "captureHistory (snd (apply_filter T f mp)) = captureHistory mp"
  using apply_filter_setup [of mp T f] by (simp_all add: same_setup_def)

lemma select_move_captureHistory [simp]:
  "captureHistory (snd (select_move T pt f mp)) = captureHistory mp"
  using select_move_setup [of mp T pt f] by (simp add: same_setup_def)

definition good_post :: "types_h \<Rightarrow> MovePicker \<Rightarrow> Move \<times> MovePicker \<Rightarrow> bool" where
  "good_post T mp r \<longleftrightarrow>
     good_inv T (snd r)
     \<and> (fst r \<noteq> MOVE_NONE \<longrightarrow>
           fst r \<noteq> ttMove mp \<and> see_good T mp (fst r) \<and> move (snd r) = fst r
           \<and> rem_good mp = add_mset (fst r) (rem_good (snd r)))
     \<and> (fst r = MOVE_NONE \<longrightarrow>
           rem_good (snd r) = rem_good mp \<and> cur (snd r) = endMoves (snd r))"

lemma select_good:
  "good_inv T mp \<Longrightarrow> good_post T mp (select_move T BEST_SCORE F_GOOD_CAPTURE mp)"
proof (induction mp rule: select_move_fetch_induct [where T = T and f = F_GOOD_CAPTURE and pt = BEST_SCORE])
  case (stop mp)
  from stop have c: "cur mp = endMoves mp" by (simp add: good_inv_def)
  have eq: "select_move T BEST_SCORE F_GOOD_CAPTURE mp = (MOVE_NONE, mp \<lparr> move := MOVE_NONE \<rparr>)"
    using stop(1) by (subst select_move_fetch) simp
  have "good_inv T (mp \<lparr> move := MOVE_NONE \<rparr>)"
    using stop(2) by (simp add: good_inv_def badbuf_def bad_ok_def see_good_def score_of_def)
  moreover have "rem_good (mp \<lparr> move := MOVE_NONE \<rparr>) = rem_good mp"
    by (simp add: rem_good_def pending_def badbuf_def)
  ultimately show ?case
    unfolding eq good_post_def using c by simp
next
  case (yield mp)
  let ?r = "apply_filter T F_GOOD_CAPTURE (fetch BEST_SCORE mp)"
  have eq: "select_move T BEST_SCORE F_GOOD_CAPTURE mp = (move (snd ?r), snd ?r)"
    using yield(1,2) by (subst select_move_fetch) simp
  note gi = good_iter [OF yield(3) yield(1)]
  from gi(1) gi(2) [OF yield(2)] show ?case
    unfolding eq good_post_def by simp
next
  case (skip mp)
  let ?r = "apply_filter T F_GOOD_CAPTURE (fetch BEST_SCORE mp)"
  have eq: "select_move T BEST_SCORE F_GOOD_CAPTURE mp
      = select_move T BEST_SCORE F_GOOD_CAPTURE (snd ?r)"
    using skip(1,2) by (subst select_move_fetch) simp
  note gi = good_iter [OF skip(4) skip(1)]
  from skip(3) [OF gi(1)]
  have gp: "good_post T (snd ?r) (select_move T BEST_SCORE F_GOOD_CAPTURE (snd ?r))" .
  have tt: "ttMove (snd ?r) = ttMove mp" by simp
  have sg: "see_good T (snd ?r) x = see_good T mp x" for x
    by (rule see_good_cong) simp_all
  from gp gi(3) [OF skip(2)] show ?case
    unfolding eq good_post_def tt sg by simp
qed

lemma fetch_NEXT: "fetch NEXT mp = mp \<lparr> move := em_move (moves mp ! cur mp), cur := cur mp + 1 \<rparr>"
  by (simp add: fetch_def)

lemma apply_filter_plain:
  "f = F_QUIET \<or> f = F_NOT_TT \<Longrightarrow> snd (apply_filter T f mp) = mp"
  by (auto simp: apply_filter_def)

lemma select_next_moves:
  assumes "f = F_QUIET \<or> f = F_NOT_TT"
  shows "moves (snd (select_move T NEXT f mp)) = moves mp
       \<and> endBadCaptures (snd (select_move T NEXT f mp)) = endBadCaptures mp"
proof (induction mp rule: select_move_fetch_induct [where T = T and f = f and pt = NEXT])
  case (stop mp)
  then show ?case by (subst (1 2) select_move_fetch) simp
next
  case (yield mp)
  then show ?case
    by (subst (1 2) select_move_fetch) (simp add: apply_filter_plain [OF assms] fetch_NEXT)
next
  case (skip mp)
  then show ?case
    by (subst (1 2) select_move_fetch) (simp add: apply_filter_plain [OF assms] fetch_NEXT)
qed

lemma pending_Cons:
  assumes "cur mp < endMoves mp" and "endMoves mp \<le> length (moves mp)"
  shows "pending mp = em_move (moves mp ! cur mp) # pending (fetch NEXT mp)"
  using assms by (simp add: pending_def fetch_NEXT Cons_nth_drop_Suc [symmetric])

definition quiet_post :: "MovePicker \<Rightarrow> Move \<times> MovePicker \<Rightarrow> bool" where
  "quiet_post mp r \<longleftrightarrow>
     cur mp \<le> cur (snd r) \<and> cur (snd r) \<le> endMoves mp
     \<and> set (pending (snd r)) \<subseteq> set (pending mp)
     \<and> (fst r \<noteq> MOVE_NONE \<longrightarrow>
           fst r \<in> set (pending mp) \<and> move (snd r) = fst r
           \<and> fst r \<noteq> ttMove mp \<and> fst r \<noteq> killers mp 0 \<and> fst r \<noteq> killers mp 1
           \<and> fst r \<noteq> countermove mp)"

lemma select_quiet:
  "cur mp \<le> endMoves mp \<Longrightarrow> endMoves mp \<le> length (moves mp) \<Longrightarrow>
   quiet_post mp (select_move T NEXT F_QUIET mp)"
proof (induction mp rule: select_move_fetch_induct [where T = T and f = F_QUIET and pt = NEXT])
  case (stop mp)
  have eq: "select_move T NEXT F_QUIET mp = (MOVE_NONE, mp \<lparr> move := MOVE_NONE \<rparr>)"
    using stop(1) by (subst select_move_fetch) simp
  show ?case
    unfolding eq quiet_post_def using stop by (simp add: pending_def)
next
  case (yield mp)
  let ?mp2 = "fetch NEXT mp"
  have sn: "snd (apply_filter T F_QUIET ?mp2) = ?mp2"
    by (rule apply_filter_plain) simp
  have eq: "select_move T NEXT F_QUIET mp = (move ?mp2, ?mp2)"
    using yield(1,2) by (subst select_move_fetch) (simp add: sn)
  note pc = pending_Cons [OF yield(1) yield(4)]
  from yield(2) have flt: "move ?mp2 \<noteq> ttMove mp \<and> move ?mp2 \<noteq> killers mp 0
      \<and> move ?mp2 \<noteq> killers mp 1 \<and> move ?mp2 \<noteq> countermove mp"
    by (simp add: apply_filter_def fetch_NEXT)
  have mv: "move ?mp2 = em_move (moves mp ! cur mp)" by (simp add: fetch_NEXT)
  show ?case
    unfolding eq quiet_post_def using yield(1) flt pc mv by auto
next
  case (skip mp)
  let ?mp2 = "fetch NEXT mp"
  have sn: "snd (apply_filter T F_QUIET ?mp2) = ?mp2"
    by (rule apply_filter_plain) simp
  have eq: "select_move T NEXT F_QUIET mp = select_move T NEXT F_QUIET ?mp2"
    using skip(1,2) by (subst select_move_fetch) (simp add: sn)
  note pc = pending_Cons [OF skip(1) skip(5)]
  have "quiet_post ?mp2 (select_move T NEXT F_QUIET ?mp2)"
    using skip(3) skip(1) skip(5) unfolding sn by (simp add: fetch_NEXT)
  then show ?case
    unfolding eq quiet_post_def using pc skip(1) by (auto simp: fetch_NEXT)
qed

definition bad_inv :: "types_h \<Rightarrow> MovePicker \<Rightarrow> bool" where
  "bad_inv T mp \<longleftrightarrow>
     cur mp \<le> endMoves mp \<and> endMoves mp \<le> length (moves mp) \<and> bad_ok T mp (pending mp)"

definition bad_post :: "types_h \<Rightarrow> MovePicker \<Rightarrow> Move \<times> MovePicker \<Rightarrow> bool" where
  "bad_post T mp r \<longleftrightarrow>
     bad_inv T (snd r)
     \<and> (fst r = MOVE_NONE \<longrightarrow> pending mp = [])
     \<and> (fst r \<noteq> MOVE_NONE \<longrightarrow>
           fst r \<noteq> ttMove mp \<and> \<not> see_good T mp (fst r)
           \<and> mset (pending mp) = add_mset (fst r) (mset (pending (snd r))))"

lemma select_bad:
  assumes "bad_inv T mp"
  shows "bad_post T mp (select_move T NEXT F_NOT_TT mp)"
proof (cases "cur mp < endMoves mp")
  case False
  have eq: "select_move T NEXT F_NOT_TT mp = (MOVE_NONE, mp \<lparr> move := MOVE_NONE \<rparr>)"
    using False by (subst select_move_fetch) simp
  have "pending mp = []" using False by (simp add: pending_def)
  moreover have "bad_inv T (mp \<lparr> move := MOVE_NONE \<rparr>)"
    using assms by (simp add: bad_inv_def pending_def bad_ok_def see_good_def score_of_def)
  ultimately show ?thesis
    unfolding eq bad_post_def by simp
next
  case True
  let ?mp2 = "fetch NEXT mp"
  from assms have le: "endMoves mp \<le> length (moves mp)" and bo: "bad_ok T mp (pending mp)"
    by (simp_all add: bad_inv_def)
  note pc = pending_Cons [OF True le]
  have mv: "move ?mp2 = em_move (moves mp ! cur mp)" by (simp add: fetch_NEXT)
  from bo pc mv have hd: "move ?mp2 \<noteq> MOVE_NONE" "move ?mp2 \<noteq> ttMove mp" "\<not> see_good T mp (move ?mp2)"
    and rest: "bad_ok T mp (pending ?mp2)"
    by (simp_all add: bad_ok_def)
  have sn: "snd (apply_filter T F_NOT_TT ?mp2) = ?mp2"
    by (rule apply_filter_plain) simp
  have ok: "fst (apply_filter T F_NOT_TT ?mp2)"
    using hd(2) by (simp add: apply_filter_def fetch_NEXT)
  have eq: "select_move T NEXT F_NOT_TT mp = (move ?mp2, ?mp2)"
    using True ok by (subst select_move_fetch) (simp add: sn)
  have "bad_ok T ?mp2 (pending ?mp2) = bad_ok T mp (pending ?mp2)"
    by (rule bad_ok_cong) simp_all
  with rest True le have "bad_inv T ?mp2"
    by (simp add: bad_inv_def)
  then show ?thesis
    unfolding eq bad_post_def using hd pc mv by simp
qed

text \<open>
  The invariant of the picker between two calls, by stage, and the captures that the
  picker still owes at that point (\<open>rem_caps\<close>): before generation the generated captures
  other than the hash move, in the good-capture stage the pending captures other than the
  hash move and those stored as bad, later the bad-capture buffer or what is left of it.
  \<open>yield_ok\<close> says what a yielded move is, by the stage at which the call returns.
\<close>

definition mid_inv :: "types_h \<Rightarrow> MovePicker \<Rightarrow> bool" where
  "mid_inv T mp \<longleftrightarrow> endBadCaptures mp \<le> length (moves mp) \<and> bad_ok T mp (badbuf mp)"

definition quiet_inv :: "types_h \<Rightarrow> MovePicker \<Rightarrow> bool" where
  "quiet_inv T mp \<longleftrightarrow>
     endBadCaptures mp \<le> cur mp \<and> cur mp \<le> endMoves mp \<and> endMoves mp \<le> length (moves mp)
     \<and> bad_ok T mp (badbuf mp) \<and> set (pending mp) \<subseteq> set (generate_QUIETS (pos mp))"

definition cap_inv :: "types_h \<Rightarrow> MovePicker \<Rightarrow> bool" where
  "cap_inv T mp \<longleftrightarrow>
     (stage mp \<le> CAPTURE_INIT \<longrightarrow> MOVE_NONE \<notin> set (generate_CAPTURES (pos mp)))
     \<and> (stage mp = MAIN_TT \<longrightarrow> ttMove mp \<noteq> MOVE_NONE)
     \<and> (stage mp = GOOD_CAPTURE \<longrightarrow> good_inv T mp)
     \<and> (KILLER0 \<le> stage mp \<and> stage mp \<le> QUIET_INIT \<longrightarrow> mid_inv T mp)
     \<and> (stage mp = QUIET \<longrightarrow> quiet_inv T mp)
     \<and> (stage mp = BAD_CAPTURE \<longrightarrow> bad_inv T mp)"

definition rem_caps :: "MovePicker \<Rightarrow> Move multiset" where
  "rem_caps mp =
     (if stage mp \<le> CAPTURE_INIT
      then mset (filter (\<lambda>m. m \<noteq> ttMove mp) (generate_CAPTURES (pos mp)))
      else if stage mp = GOOD_CAPTURE then rem_good mp
      else if stage mp = BAD_CAPTURE then mset (pending mp)
      else mset (badbuf mp))"

definition same_search :: "MovePicker \<Rightarrow> MovePicker \<Rightarrow> bool" where
  "same_search a b \<longleftrightarrow>
     pos b = pos a \<and> ttMove b = ttMove a \<and> killers b = killers a
     \<and> countermove b = countermove a \<and> captureHistory b = captureHistory a"

definition eligible :: "MovePicker \<Rightarrow> Move \<Rightarrow> bool" where
  "eligible mp m \<longleftrightarrow>
     m \<noteq> MOVE_NONE \<and> m \<noteq> ttMove mp \<and> pseudo_legal (pos mp) m \<and> \<not> capture (pos mp) m"

definition yield_ok :: "types_h \<Rightarrow> MovePicker \<Rightarrow> Move \<Rightarrow> MovePicker \<Rightarrow> bool" where
  "yield_ok T mp m mp' \<longleftrightarrow>
     stage mp' \<noteq> MAIN_TT \<and> stage mp' \<noteq> KILLER0
     \<and> (stage mp' = CAPTURE_INIT \<longrightarrow>
           stage mp = MAIN_TT \<and> m = ttMove mp \<and> rem_caps mp' = rem_caps mp)
     \<and> (stage mp' = GOOD_CAPTURE \<longrightarrow>
           m \<noteq> ttMove mp \<and> see_good T mp m \<and> rem_caps mp = add_mset m (rem_caps mp'))
     \<and> (stage mp' = KILLER1 \<longrightarrow>
           stage mp \<le> KILLER0 \<and> m = killers mp 0 \<and> eligible mp m
           \<and> rem_caps mp' = rem_caps mp)
     \<and> (stage mp' = COUNTERMOVE \<longrightarrow>
           stage mp \<le> KILLER1 \<and> m = killers mp 1 \<and> eligible mp m
           \<and> rem_caps mp' = rem_caps mp)
     \<and> (stage mp' = QUIET_INIT \<longrightarrow>
           stage mp \<le> COUNTERMOVE \<and> m = countermove mp \<and> eligible mp m
           \<and> m \<noteq> killers mp 0 \<and> m \<noteq> killers mp 1 \<and> rem_caps mp' = rem_caps mp)
     \<and> (stage mp' = QUIET \<longrightarrow>
           m \<in> set (generate_QUIETS (pos mp)) \<and> m \<noteq> ttMove mp \<and> m \<noteq> killers mp 0
           \<and> m \<noteq> killers mp 1 \<and> m \<noteq> countermove mp \<and> rem_caps mp' = rem_caps mp)
     \<and> (stage mp' = BAD_CAPTURE \<longrightarrow>
           m \<noteq> ttMove mp \<and> \<not> see_good T mp m \<and> rem_caps mp = add_mset m (rem_caps mp'))"

definition step_ok :: "types_h \<Rightarrow> MovePicker \<Rightarrow> Move \<times> MovePicker \<Rightarrow> bool" where
  "step_ok T mp r \<longleftrightarrow>
     same_search mp (snd r) \<and> stage mp \<le> stage (snd r) \<and> stage (snd r) \<le> BAD_CAPTURE
     \<and> cap_inv T (snd r)
     \<and> (fst r = MOVE_NONE \<longrightarrow> rem_caps mp = {#})
     \<and> (fst r \<noteq> MOVE_NONE \<longrightarrow> yield_ok T mp (fst r) (snd r))"

lemma same_search_refl [simp]: "same_search a a"
  by (simp add: same_search_def)

lemma same_search_trans: "same_search a b \<Longrightarrow> same_search b c \<Longrightarrow> same_search a c"
  by (simp add: same_search_def)

lemma same_search_see_good: "same_search a b \<Longrightarrow> see_good T b m = see_good T a m"
  by (rule see_good_cong) (simp_all add: same_search_def)

lemma same_search_eligible: "same_search a b \<Longrightarrow> eligible b m = eligible a m"
  by (simp add: same_search_def eligible_def)

lemma same_search_bad_ok: "same_search a b \<Longrightarrow> bad_ok T b ms = bad_ok T a ms"
  by (rule bad_ok_cong) (simp_all add: same_search_def)

lemma select_move_same_search: "same_search mp (snd (select_move T pt f mp))"
  by (simp add: same_search_def)

lemma yield_ok_via:
  assumes ss: "same_search mp mp1" and st: "stage mp \<le> stage mp1"
    and rm: "rem_caps mp1 = rem_caps mp" and ok: "yield_ok T mp1 m mp'"
  shows "yield_ok T mp m mp'"
proof -
  from ss have f: "pos mp1 = pos mp" "ttMove mp1 = ttMove mp" "killers mp1 = killers mp"
    "countermove mp1 = countermove mp"
    by (simp_all add: same_search_def)
  note sg = same_search_see_good [OF ss, of T]
  note el = same_search_eligible [OF ss]
  note ok' = ok [unfolded yield_ok_def rm f sg el]
  have o:
    "stage mp' \<noteq> MAIN_TT" "stage mp' \<noteq> KILLER0"
    "stage mp' = CAPTURE_INIT \<Longrightarrow>
       stage mp1 = MAIN_TT \<and> m = ttMove mp \<and> rem_caps mp' = rem_caps mp"
    "stage mp' = GOOD_CAPTURE \<Longrightarrow>
       m \<noteq> ttMove mp \<and> see_good T mp m \<and> rem_caps mp = add_mset m (rem_caps mp')"
    "stage mp' = KILLER1 \<Longrightarrow>
       stage mp1 \<le> KILLER0 \<and> m = killers mp 0 \<and> eligible mp m \<and> rem_caps mp' = rem_caps mp"
    "stage mp' = COUNTERMOVE \<Longrightarrow>
       stage mp1 \<le> KILLER1 \<and> m = killers mp 1 \<and> eligible mp m \<and> rem_caps mp' = rem_caps mp"
    "stage mp' = QUIET_INIT \<Longrightarrow>
       stage mp1 \<le> COUNTERMOVE \<and> m = countermove mp \<and> eligible mp m
       \<and> m \<noteq> killers mp 0 \<and> m \<noteq> killers mp 1 \<and> rem_caps mp' = rem_caps mp"
    "stage mp' = QUIET \<Longrightarrow>
       m \<in> set (generate_QUIETS (pos mp)) \<and> m \<noteq> ttMove mp \<and> m \<noteq> killers mp 0
       \<and> m \<noteq> killers mp 1 \<and> m \<noteq> countermove mp \<and> rem_caps mp' = rem_caps mp"
    "stage mp' = BAD_CAPTURE \<Longrightarrow>
       m \<noteq> ttMove mp \<and> \<not> see_good T mp m \<and> rem_caps mp = add_mset m (rem_caps mp')"
    using ok' by blast+
  have 3: "stage mp = MAIN_TT" if "stage mp' = CAPTURE_INIT"
    using o(3) [OF that] st by (simp add: stage_defs)
  have 5: "stage mp \<le> KILLER0" if "stage mp' = KILLER1"
    using o(5) [OF that] st by simp
  have 6: "stage mp \<le> KILLER1" if "stage mp' = COUNTERMOVE"
    using o(6) [OF that] st by simp
  have 7: "stage mp \<le> COUNTERMOVE" if "stage mp' = QUIET_INIT"
    using o(7) [OF that] st by simp
  show ?thesis
    unfolding yield_ok_def
    using o(1,2) o(3) 3 o(4) o(5) 5 o(6) 6 o(7) 7 o(8) o(9)
    by (intro conjI impI) blast+
qed

lemma step_ok_via:
  assumes ss: "same_search mp mp1" and st: "stage mp \<le> stage mp1"
    and rm: "rem_caps mp1 = rem_caps mp" and ok: "step_ok T mp1 r"
  shows "step_ok T mp r"
proof -
  from ok have a: "same_search mp1 (snd r)" "stage mp1 \<le> stage (snd r)"
    "stage (snd r) \<le> BAD_CAPTURE" "cap_inv T (snd r)"
    "fst r = MOVE_NONE \<longrightarrow> rem_caps mp = {#}"
    "fst r \<noteq> MOVE_NONE \<longrightarrow> yield_ok T mp1 (fst r) (snd r)"
    by (simp_all add: step_ok_def rm)
  from ss a(1) have 1: "same_search mp (snd r)" by (rule same_search_trans)
  from st a(2) have 2: "stage mp \<le> stage (snd r)" by simp
  from a(6) have 3: "fst r \<noteq> MOVE_NONE \<longrightarrow> yield_ok T mp (fst r) (snd r)"
    using yield_ok_via [OF ss st rm] by blast
  from 1 2 3 a(3,4,5) show ?thesis
    unfolding step_ok_def by simp
qed

lemma cap_inv_stage:
  "stage mp \<le> CAPTURE_INIT \<Longrightarrow>
     cap_inv T mp = (MOVE_NONE \<notin> set (generate_CAPTURES (pos mp))
                     \<and> (stage mp = MAIN_TT \<longrightarrow> ttMove mp \<noteq> MOVE_NONE))"
  "stage mp = GOOD_CAPTURE \<Longrightarrow> cap_inv T mp = good_inv T mp"
  "KILLER0 \<le> stage mp \<Longrightarrow> stage mp \<le> QUIET_INIT \<Longrightarrow> cap_inv T mp = mid_inv T mp"
  "stage mp = QUIET \<Longrightarrow> cap_inv T mp = quiet_inv T mp"
  "stage mp = BAD_CAPTURE \<Longrightarrow> cap_inv T mp = bad_inv T mp"
  by (auto simp: cap_inv_def stage_defs)

lemma rem_caps_stage:
  "stage mp \<le> CAPTURE_INIT \<Longrightarrow>
     rem_caps mp = mset (filter (\<lambda>m. m \<noteq> ttMove mp) (generate_CAPTURES (pos mp)))"
  "stage mp = GOOD_CAPTURE \<Longrightarrow> rem_caps mp = rem_good mp"
  "KILLER0 \<le> stage mp \<Longrightarrow> stage mp \<le> QUIET \<Longrightarrow> rem_caps mp = mset (badbuf mp)"
  "stage mp = BAD_CAPTURE \<Longrightarrow> rem_caps mp = mset (pending mp)"
  by (auto simp: rem_caps_def stage_defs)

lemma yield_ok_intros:
  "stage mp' = CAPTURE_INIT \<Longrightarrow> stage mp = MAIN_TT \<Longrightarrow> m = ttMove mp \<Longrightarrow>
     rem_caps mp' = rem_caps mp \<Longrightarrow> yield_ok T mp m mp'"
  "stage mp' = GOOD_CAPTURE \<Longrightarrow> m \<noteq> ttMove mp \<Longrightarrow> see_good T mp m \<Longrightarrow>
     rem_caps mp = add_mset m (rem_caps mp') \<Longrightarrow> yield_ok T mp m mp'"
  "stage mp' = KILLER1 \<Longrightarrow> stage mp \<le> KILLER0 \<Longrightarrow> m = killers mp 0 \<Longrightarrow> eligible mp m \<Longrightarrow>
     rem_caps mp' = rem_caps mp \<Longrightarrow> yield_ok T mp m mp'"
  "stage mp' = COUNTERMOVE \<Longrightarrow> stage mp \<le> KILLER1 \<Longrightarrow> m = killers mp 1 \<Longrightarrow> eligible mp m \<Longrightarrow>
     rem_caps mp' = rem_caps mp \<Longrightarrow> yield_ok T mp m mp'"
  "stage mp' = QUIET_INIT \<Longrightarrow> stage mp \<le> COUNTERMOVE \<Longrightarrow> m = countermove mp \<Longrightarrow>
     eligible mp m \<Longrightarrow> m \<noteq> killers mp 0 \<Longrightarrow> m \<noteq> killers mp 1 \<Longrightarrow>
     rem_caps mp' = rem_caps mp \<Longrightarrow> yield_ok T mp m mp'"
  "stage mp' = QUIET \<Longrightarrow> m \<in> set (generate_QUIETS (pos mp)) \<Longrightarrow> m \<noteq> ttMove mp \<Longrightarrow>
     m \<noteq> killers mp 0 \<Longrightarrow> m \<noteq> killers mp 1 \<Longrightarrow> m \<noteq> countermove mp \<Longrightarrow>
     rem_caps mp' = rem_caps mp \<Longrightarrow> yield_ok T mp m mp'"
  "stage mp' = BAD_CAPTURE \<Longrightarrow> m \<noteq> ttMove mp \<Longrightarrow> \<not> see_good T mp m \<Longrightarrow>
     rem_caps mp = add_mset m (rem_caps mp') \<Longrightarrow> yield_ok T mp m mp'"
  by (simp_all add: yield_ok_def stage_defs)

lemma step_okI:
  assumes "same_search mp (snd r)" "stage mp \<le> stage (snd r)" "stage (snd r) \<le> BAD_CAPTURE"
    "cap_inv T (snd r)" "fst r = MOVE_NONE \<Longrightarrow> rem_caps mp = {#}"
    "fst r \<noteq> MOVE_NONE \<Longrightarrow> yield_ok T mp (fst r) (snd r)"
  shows "step_ok T mp r"
  using assms by (simp add: step_ok_def)

lemma step_BAD_CAPTURE:
  assumes st: "stage mp = BAD_CAPTURE" and ci: "cap_inv T mp"
  shows "step_ok T mp (next_move T sk mp)"
proof -
  let ?r = "select_move T NEXT F_NOT_TT mp"
  from ci st have "bad_inv T mp" by (simp add: cap_inv_stage)
  then have bp: "bad_post T mp ?r" by (rule select_bad)
  have st': "stage (snd ?r) = BAD_CAPTURE" using st by simp
  have "step_ok T mp ?r"
  proof (rule step_okI)
    show "same_search mp (snd ?r)" by (rule select_move_same_search)
    show "stage mp \<le> stage (snd ?r)" by simp
    show "stage (snd ?r) \<le> BAD_CAPTURE" using st by simp
    show "cap_inv T (snd ?r)" using bp st' by (simp add: cap_inv_stage bad_post_def)
    show "rem_caps mp = {#}" if "fst ?r = MOVE_NONE"
      using bp that st by (simp add: bad_post_def rem_caps_stage)
    show "yield_ok T mp (fst ?r) (snd ?r)" if "fst ?r \<noteq> MOVE_NONE"
      using bp that st st' by (intro yield_ok_intros(7)) (simp_all add: bad_post_def rem_caps_stage)
  qed
  then show ?thesis using st by (simp add: nm_BAD_CAPTURE)
qed

lemma step_QUIET:
  assumes st: "stage mp = QUIET" and ci: "cap_inv T mp"
  shows "step_ok T mp (next_move T sk mp)"
proof -
  let ?s = "select_move T NEXT F_QUIET mp"
  from ci st have qi: "quiet_inv T mp" by (simp add: cap_inv_stage)
  then have b: "endBadCaptures mp \<le> cur mp" "cur mp \<le> endMoves mp" "endMoves mp \<le> length (moves mp)"
    "bad_ok T mp (badbuf mp)" "set (pending mp) \<subseteq> set (generate_QUIETS (pos mp))"
    by (simp_all add: quiet_inv_def)
  have fall: "step_ok T mp (next_move T sk
        (mp0 \<lparr> cur := 0, endMoves := endBadCaptures mp0, stage := stage mp0 + 1 \<rparr>))"
    if ss: "same_search mp mp0" and m0: "moves mp0 = moves mp"
      and e0: "endBadCaptures mp0 = endBadCaptures mp" and s0: "stage mp0 = stage mp"
    for mp0
  proof -
    define mp1 where "mp1 = mp0 \<lparr> cur := 0, endMoves := endBadCaptures mp0, stage := stage mp0 + 1 \<rparr>"
    have f1: "cur mp1 = 0" "endMoves mp1 = endBadCaptures mp" "moves mp1 = moves mp"
      "stage mp1 = stage mp + 1"
      by (simp_all add: mp1_def m0 e0 s0)
    have ss1: "same_search mp mp1" using ss by (simp add: same_search_def mp1_def)
    have st1: "stage mp1 = BAD_CAPTURE" using st f1 by (simp add: stage_defs)
    have pb: "pending mp1 = badbuf mp"
      by (simp add: pending_def badbuf_def f1)
    have "bad_ok T mp1 (badbuf mp)"
      using b(4) same_search_bad_ok [OF ss1, of T] by simp
    then have "bad_inv T mp1"
      using b(1,2,3) by (simp add: bad_inv_def pb f1)
    then have ci1: "cap_inv T mp1" using st1 by (simp add: cap_inv_stage)
    have rm: "rem_caps mp1 = rem_caps mp"
      using st st1 pb by (simp add: rem_caps_stage stage_defs)
    have le: "stage mp \<le> stage mp1" using f1 by simp
    from step_BAD_CAPTURE [OF st1 ci1] show ?thesis
      unfolding mp1_def [symmetric] by (rule step_ok_via [OF ss1 le rm])
  qed
  note unf = nm_QUIET [OF st, of T sk, unfolded Let_def]
  show ?thesis
  proof (cases sk)
    case True
    with unf have "next_move T sk mp = next_move T sk
        (mp \<lparr> cur := 0, endMoves := endBadCaptures mp, stage := stage mp + 1 \<rparr>)"
      by simp
    with fall [of mp] show ?thesis by simp
  next
    case False
    have qp: "quiet_post mp ?s" using b(2,3) by (rule select_quiet)
    note sm = select_next_moves [of F_QUIET T mp, simplified]
    show ?thesis
    proof (cases "fst ?s = MOVE_NONE")
      case True
      with unf False have "next_move T sk mp = next_move T sk
          ((snd ?s) \<lparr> cur := 0, endMoves := endBadCaptures (snd ?s), stage := stage (snd ?s) + 1 \<rparr>)"
        by simp
      with fall [of "snd ?s"] sm show ?thesis
        by (simp add: select_move_same_search)
    next
      case y: False
      with unf False have eq: "next_move T sk mp = (move (snd ?s), snd ?s)" by simp
      from qp y have mv: "move (snd ?s) = fst ?s" by (simp add: quiet_post_def)
      have "step_ok T mp ?s"
      proof (rule step_okI)
        show "same_search mp (snd ?s)" by (rule select_move_same_search)
        show "stage mp \<le> stage (snd ?s)" by simp
        show "stage (snd ?s) \<le> BAD_CAPTURE" using st by (simp add: stage_defs)
        have "bad_ok T (snd ?s) (badbuf mp) = bad_ok T mp (badbuf mp)"
          by (rule same_search_bad_ok) (rule select_move_same_search)
        with b(4) have "bad_ok T (snd ?s) (badbuf mp)" by simp
        moreover have "badbuf (snd ?s) = badbuf mp" using sm by (simp add: badbuf_def)
        ultimately have "quiet_inv T (snd ?s)"
          using qp b sm unfolding quiet_inv_def quiet_post_def by auto
        then show "cap_inv T (snd ?s)" using st by (simp add: cap_inv_stage)
        show "rem_caps mp = {#}" if "fst ?s = MOVE_NONE" using that y by simp
        show "yield_ok T mp (fst ?s) (snd ?s)" if "fst ?s \<noteq> MOVE_NONE"
        proof (rule yield_ok_intros(6))
          show "stage (snd ?s) = QUIET" using st by simp
          show "fst ?s \<in> set (generate_QUIETS (pos mp))"
            using qp that b(5) by (auto simp: quiet_post_def)
          show "fst ?s \<noteq> ttMove mp" "fst ?s \<noteq> killers mp 0" "fst ?s \<noteq> killers mp 1"
            "fst ?s \<noteq> countermove mp"
            using qp that by (simp_all add: quiet_post_def)
          show "rem_caps (snd ?s) = rem_caps mp"
            using st sm by (simp add: rem_caps_stage stage_defs badbuf_def)
        qed
      qed
      then show ?thesis unfolding eq mv by simp
    qed
  qed
qed

lemma length_partial_insertion_sort [simp]:
  "length (partial_insertion_sort a limit) = length a"
  using pis_descending_mset [of limit a] by (metis size_mset)

lemma set_partial_insertion_sort [simp]:
  "set (partial_insertion_sort a limit) = set a"
  using pis_descending_mset [of limit a] by (metis set_mset_mset)

lemma quiet_init_moves:
  fixes T :: types_h
  assumes "endBadCaptures mp \<le> length (moves mp)"
  defines "mp1 \<equiv> sort_quiets T (score T QUIETS (generate QUIETS (mp \<lparr> cur := endBadCaptures mp \<rparr>)))"
  shows "take (endBadCaptures mp) (moves mp1) = take (endBadCaptures mp) (moves mp)"
    and "cur mp1 = endBadCaptures mp"
    and "endMoves mp1 = length (moves mp1)"
    and "endBadCaptures mp1 = endBadCaptures mp"
    and "set (pending mp1) = set (generate_QUIETS (pos mp))"
    and "same_search mp mp1"
    and "stage mp1 = stage mp"
proof -
  let ?eb = "endBadCaptures mp"
  let ?Q = "generate_QUIETS (pos mp)"
  define g where "g = generate QUIETS (mp \<lparr> cur := ?eb \<rparr>)"
  define s where "s = score T QUIETS g"
  have g: "moves g = take ?eb (moves mp) @ map (\<lambda>m. \<lparr> em_move = m, em_value = 0 \<rparr>) ?Q"
    "cur g = ?eb" "endMoves g = ?eb + length ?Q" "endBadCaptures g = ?eb"
    by (simp_all add: g_def generate_def generated_def)
  have lt: "length (take ?eb (moves mp)) = ?eb" using assms(1) by simp
  have s: "moves s = take ?eb (moves mp)
        @ map (\<lambda>e. e \<lparr> em_value := score_of T g QUIETS (em_move e) \<rparr>)
            (map (\<lambda>m. \<lparr> em_move = m, em_value = 0 \<rparr>) ?Q)"
    "cur s = ?eb" "endMoves s = ?eb + length ?Q" "endBadCaptures s = ?eb"
    using lt by (simp_all add: s_def score_def g)
  let ?xs = "map (\<lambda>e. e \<lparr> em_value := score_of T g QUIETS (em_move e) \<rparr>)
            (map (\<lambda>m. \<lparr> em_move = m, em_value = 0 \<rparr>) ?Q)"
  have m1: "moves mp1 = take ?eb (moves mp)
        @ partial_insertion_sort ?xs (c_div (- 4000 * depth s) (ONE_PLY T))"
    using lt unfolding mp1_def g_def [symmetric] s_def [symmetric]
    by (simp add: sort_quiets_def s)
  have f1: "cur mp1 = ?eb" "endMoves mp1 = ?eb + length ?Q" "endBadCaptures mp1 = ?eb"
    unfolding mp1_def g_def [symmetric] s_def [symmetric]
    by (simp_all add: sort_quiets_def s)
  show "take ?eb (moves mp1) = take ?eb (moves mp)"
    using lt by (simp add: m1)
  show "cur mp1 = ?eb" by (rule f1)
  show "endMoves mp1 = length (moves mp1)"
    using lt by (simp add: m1 f1)
  show "endBadCaptures mp1 = ?eb" by (rule f1)
  have "pending mp1 = map em_move (partial_insertion_sort ?xs (c_div (- 4000 * depth s) (ONE_PLY T)))"
    using lt by (simp add: pending_def f1 m1)
  then have "set (pending mp1) = em_move ` set ?xs" by simp
  also have "\<dots> = set ?Q" by (simp add: image_image)
  finally show "set (pending mp1) = set ?Q" .
  show "same_search mp mp1"
    by (simp add: mp1_def same_search_def sort_quiets_def score_def generate_def)
  show "stage mp1 = stage mp"
    by (simp add: mp1_def)
qed

lemma step_QUIET_INIT:
  assumes st: "stage mp = QUIET_INIT" and ci: "cap_inv T mp"
  shows "step_ok T mp (next_move T sk mp)"
proof -
  define mp0 where "mp0 = sort_quiets T (score T QUIETS (generate QUIETS (mp \<lparr> cur := endBadCaptures mp \<rparr>)))"
  define mp1 where "mp1 = mp0 \<lparr> stage := stage mp + 1 \<rparr>"
  from ci st have mi: "mid_inv T mp" by (simp add: cap_inv_stage stage_defs)
  then have eb: "endBadCaptures mp \<le> length (moves mp)" and bo: "bad_ok T mp (badbuf mp)"
    by (simp_all add: mid_inv_def)
  note q = quiet_init_moves [OF eb, where T = T, folded mp0_def]
  have f1: "moves mp1 = moves mp0" "cur mp1 = endBadCaptures mp" "endMoves mp1 = length (moves mp0)"
    "endBadCaptures mp1 = endBadCaptures mp" "pos mp1 = pos mp"
    using q by (simp_all add: mp1_def same_search_def)
  have ss1: "same_search mp mp1" using q(6) by (simp add: mp1_def same_search_def)
  have st1: "stage mp1 = QUIET" using st by (simp add: mp1_def stage_defs)
  have bb: "badbuf mp1 = badbuf mp" by (simp add: badbuf_def f1 q(1))
  have pe: "pending mp1 = pending mp0" by (simp add: pending_def f1 q)
  have len: "endBadCaptures mp \<le> length (moves mp0)"
    using eb q(1) by (metis length_take min.absorb2 nat_le_linear take_all)
  have "bad_ok T mp1 (badbuf mp)"
    using bo same_search_bad_ok [OF ss1, of T] by simp
  then have "quiet_inv T mp1"
    unfolding quiet_inv_def using len q(5) by (simp add: f1 bb pe)
  then have ci1: "cap_inv T mp1" using st1 by (simp add: cap_inv_stage)
  have rm: "rem_caps mp1 = rem_caps mp"
    using st st1 bb by (simp add: rem_caps_stage stage_defs)
  have le: "stage mp \<le> stage mp1" by (simp add: mp1_def)
  have "next_move T sk mp = next_move T sk mp1"
    unfolding mp1_def mp0_def by (rule nm_QUIET_INIT [OF st])
  moreover from step_QUIET [OF st1 ci1] have "step_ok T mp (next_move T sk mp1)"
    by (rule step_ok_via [OF ss1 le rm])
  ultimately show ?thesis by simp
qed

lemma mid_inv_update:
  assumes "mid_inv T mp" and "same_search mp mp'" and "moves mp' = moves mp"
    and "endBadCaptures mp' = endBadCaptures mp"
  shows "mid_inv T mp'" and "badbuf mp' = badbuf mp"
proof -
  show bb: "badbuf mp' = badbuf mp" using assms(3,4) by (simp add: badbuf_def)
  have "bad_ok T mp' (badbuf mp) = bad_ok T mp (badbuf mp)"
    using assms(2) by (rule same_search_bad_ok)
  with assms(1) show "mid_inv T mp'"
    by (simp add: mid_inv_def bb assms(3,4))
qed

lemma step_COUNTERMOVE:
  assumes st: "stage mp = COUNTERMOVE" and ci: "cap_inv T mp"
  shows "step_ok T mp (next_move T sk mp)"
proof -
  define mp2 where "mp2 = mp \<lparr> stage := stage mp + 1, move := countermove mp \<rparr>"
  define c where "c \<longleftrightarrow> move mp2 \<noteq> MOVE_NONE \<and> move mp2 \<noteq> ttMove mp2
            \<and> move mp2 \<noteq> killers mp2 0 \<and> move mp2 \<noteq> killers mp2 1
            \<and> pseudo_legal (pos mp2) (move mp2) \<and> \<not> capture (pos mp2) (move mp2)"
  have unf: "next_move T sk mp = (if c then (move mp2, mp2) else next_move T sk mp2)"
    unfolding c_def mp2_def using nm_COUNTERMOVE [OF st, of T sk] by (simp add: Let_def)
  from ci st have mi: "mid_inv T mp" by (simp add: cap_inv_stage stage_defs)
  have ss: "same_search mp mp2" by (simp add: mp2_def same_search_def)
  have f2: "moves mp2 = moves mp" "endBadCaptures mp2 = endBadCaptures mp"
    "move mp2 = countermove mp" "ttMove mp2 = ttMove mp" "killers mp2 = killers mp"
    "pos mp2 = pos mp"
    by (simp_all add: mp2_def)
  have st2: "stage mp2 = QUIET_INIT" using st by (simp add: mp2_def stage_defs)
  note mu = mid_inv_update [OF mi ss f2(1,2)]
  have ci2: "cap_inv T mp2" using mu(1) st2 by (simp add: cap_inv_stage stage_defs)
  have rm: "rem_caps mp2 = rem_caps mp"
    using st st2 mu(2) by (simp add: rem_caps_stage stage_defs)
  have le: "stage mp \<le> stage mp2" by (simp add: mp2_def)
  show ?thesis
  proof (cases c)
    case True
    have "step_ok T mp (move mp2, mp2)"
    proof (rule step_okI)
      show "same_search mp (snd (move mp2, mp2))" using ss by simp
      show "stage mp \<le> stage (snd (move mp2, mp2))" using le by simp
      show "stage (snd (move mp2, mp2)) \<le> BAD_CAPTURE" using st2 by (simp add: stage_defs)
      show "cap_inv T (snd (move mp2, mp2))" using ci2 by simp
      show "rem_caps mp = {#}" if "fst (move mp2, mp2) = MOVE_NONE"
        using that True by (simp add: c_def)
      show "yield_ok T mp (fst (move mp2, mp2)) (snd (move mp2, mp2))"
        using True st st2 rm unfolding c_def f2
        by (intro yield_ok_intros(5)) (simp_all add: eligible_def f2)
    qed
    with True unf show ?thesis by simp
  next
    case False
    from step_QUIET_INIT [OF st2 ci2] have "step_ok T mp (next_move T sk mp2)"
      by (rule step_ok_via [OF ss le rm])
    with False unf show ?thesis by simp
  qed
qed

lemma step_KILLER1:
  assumes st: "stage mp = KILLER1" and ci: "cap_inv T mp"
  shows "step_ok T mp (next_move T sk mp)"
proof -
  define mp2 where "mp2 = mp \<lparr> stage := stage mp + 1, move := killers mp 1 \<rparr>"
  define c where "c \<longleftrightarrow> move mp2 \<noteq> MOVE_NONE \<and> move mp2 \<noteq> ttMove mp2
            \<and> pseudo_legal (pos mp2) (move mp2) \<and> \<not> capture (pos mp2) (move mp2)"
  have k: "stage mp = KILLER0 \<or> stage mp = KILLER1" using st by simp
  have unf: "next_move T sk mp = (if c then (move mp2, mp2) else next_move T sk mp2)"
    unfolding c_def mp2_def using nm_KILLER [OF k, of T sk] st
    by (simp add: Let_def stage_defs)
  from ci st have mi: "mid_inv T mp" by (simp add: cap_inv_stage stage_defs)
  have ss: "same_search mp mp2" by (simp add: mp2_def same_search_def)
  have f2: "moves mp2 = moves mp" "endBadCaptures mp2 = endBadCaptures mp"
    "move mp2 = killers mp 1" "ttMove mp2 = ttMove mp" "killers mp2 = killers mp"
    "pos mp2 = pos mp"
    by (simp_all add: mp2_def)
  have st2: "stage mp2 = COUNTERMOVE" using st by (simp add: mp2_def stage_defs)
  note mu = mid_inv_update [OF mi ss f2(1,2)]
  have ci2: "cap_inv T mp2" using mu(1) st2 by (simp add: cap_inv_stage stage_defs)
  have rm: "rem_caps mp2 = rem_caps mp"
    using st st2 mu(2) by (simp add: rem_caps_stage stage_defs)
  have le: "stage mp \<le> stage mp2" by (simp add: mp2_def)
  show ?thesis
  proof (cases c)
    case True
    have "step_ok T mp (move mp2, mp2)"
    proof (rule step_okI)
      show "same_search mp (snd (move mp2, mp2))" using ss by simp
      show "stage mp \<le> stage (snd (move mp2, mp2))" using le by simp
      show "stage (snd (move mp2, mp2)) \<le> BAD_CAPTURE" using st2 by (simp add: stage_defs)
      show "cap_inv T (snd (move mp2, mp2))" using ci2 by simp
      show "rem_caps mp = {#}" if "fst (move mp2, mp2) = MOVE_NONE"
        using that True by (simp add: c_def)
      show "yield_ok T mp (fst (move mp2, mp2)) (snd (move mp2, mp2))"
        using True st st2 rm unfolding c_def f2
        by (intro yield_ok_intros(4)) (simp_all add: eligible_def f2)
    qed
    with True unf show ?thesis by simp
  next
    case False
    from step_COUNTERMOVE [OF st2 ci2] have "step_ok T mp (next_move T sk mp2)"
      by (rule step_ok_via [OF ss le rm])
    with False unf show ?thesis by simp
  qed
qed

lemma step_KILLER0:
  assumes st: "stage mp = KILLER0" and ci: "cap_inv T mp"
  shows "step_ok T mp (next_move T sk mp)"
proof -
  define mp2 where "mp2 = mp \<lparr> stage := stage mp + 1, move := killers mp 0 \<rparr>"
  define c where "c \<longleftrightarrow> move mp2 \<noteq> MOVE_NONE \<and> move mp2 \<noteq> ttMove mp2
            \<and> pseudo_legal (pos mp2) (move mp2) \<and> \<not> capture (pos mp2) (move mp2)"
  have k: "stage mp = KILLER0 \<or> stage mp = KILLER1" using st by simp
  have unf: "next_move T sk mp = (if c then (move mp2, mp2) else next_move T sk mp2)"
    unfolding c_def mp2_def using nm_KILLER [OF k, of T sk] st
    by (simp add: Let_def stage_defs)
  from ci st have mi: "mid_inv T mp" by (simp add: cap_inv_stage stage_defs)
  have ss: "same_search mp mp2" by (simp add: mp2_def same_search_def)
  have f2: "moves mp2 = moves mp" "endBadCaptures mp2 = endBadCaptures mp"
    "move mp2 = killers mp 0" "ttMove mp2 = ttMove mp" "killers mp2 = killers mp"
    "pos mp2 = pos mp"
    by (simp_all add: mp2_def)
  have st2: "stage mp2 = KILLER1" using st by (simp add: mp2_def stage_defs)
  note mu = mid_inv_update [OF mi ss f2(1,2)]
  have ci2: "cap_inv T mp2" using mu(1) st2 by (simp add: cap_inv_stage stage_defs)
  have rm: "rem_caps mp2 = rem_caps mp"
    using st st2 mu(2) by (simp add: rem_caps_stage stage_defs)
  have le: "stage mp \<le> stage mp2" by (simp add: mp2_def)
  show ?thesis
  proof (cases c)
    case True
    have "step_ok T mp (move mp2, mp2)"
    proof (rule step_okI)
      show "same_search mp (snd (move mp2, mp2))" using ss by simp
      show "stage mp \<le> stage (snd (move mp2, mp2))" using le by simp
      show "stage (snd (move mp2, mp2)) \<le> BAD_CAPTURE" using st2 by (simp add: stage_defs)
      show "cap_inv T (snd (move mp2, mp2))" using ci2 by simp
      show "rem_caps mp = {#}" if "fst (move mp2, mp2) = MOVE_NONE"
        using that True by (simp add: c_def)
      show "yield_ok T mp (fst (move mp2, mp2)) (snd (move mp2, mp2))"
        using True st st2 rm unfolding c_def f2
        by (intro yield_ok_intros(3)) (simp_all add: eligible_def f2)
    qed
    with True unf show ?thesis by simp
  next
    case False
    from step_KILLER1 [OF st2 ci2] have "step_ok T mp (next_move T sk mp2)"
      by (rule step_ok_via [OF ss le rm])
    with False unf show ?thesis by simp
  qed
qed

lemma step_GOOD_CAPTURE:
  assumes st: "stage mp = GOOD_CAPTURE" and ci: "cap_inv T mp"
  shows "step_ok T mp (next_move T sk mp)"
proof -
  let ?s = "select_move T BEST_SCORE F_GOOD_CAPTURE mp"
  from ci st have "good_inv T mp" by (simp add: cap_inv_stage)
  then have gp: "good_post T mp ?s" by (rule select_good)
  then have gi: "good_inv T (snd ?s)" by (simp add: good_post_def)
  note unf = nm_GOOD_CAPTURE [OF st, of T sk, unfolded Let_def]
  show ?thesis
  proof (cases "fst ?s = MOVE_NONE")
    case False
    with gp have y: "fst ?s \<noteq> ttMove mp" "see_good T mp (fst ?s)" "move (snd ?s) = fst ?s"
      "rem_good mp = add_mset (fst ?s) (rem_good (snd ?s))"
      by (simp_all add: good_post_def)
    have "step_ok T mp ?s"
    proof (rule step_okI)
      show "same_search mp (snd ?s)" by (rule select_move_same_search)
      show "stage mp \<le> stage (snd ?s)" by simp
      show "stage (snd ?s) \<le> BAD_CAPTURE" using st by (simp add: stage_defs)
      show "cap_inv T (snd ?s)" using gi st by (simp add: cap_inv_stage)
      show "rem_caps mp = {#}" if "fst ?s = MOVE_NONE" using that False by simp
      show "yield_ok T mp (fst ?s) (snd ?s)"
        using y st by (intro yield_ok_intros(2)) (simp_all add: rem_caps_stage)
    qed
    with False unf y(3) show ?thesis by simp
  next
    case True
    define mp1 where "mp1 = (snd ?s) \<lparr> stage := stage (snd ?s) + 1 \<rparr>"
    from gp True have ex: "rem_good (snd ?s) = rem_good mp" "cur (snd ?s) = endMoves (snd ?s)"
      by (simp_all add: good_post_def)
    from gi have b: "endBadCaptures (snd ?s) \<le> length (moves (snd ?s))"
      "bad_ok T (snd ?s) (badbuf (snd ?s))"
      by (simp_all add: good_inv_def)
    have ss0: "same_search (snd ?s) mp1" by (simp add: mp1_def same_search_def)
    have ss: "same_search mp mp1"
      using select_move_same_search ss0 by (rule same_search_trans)
    have st1: "stage mp1 = KILLER0" using st by (simp add: mp1_def stage_defs)
    have mi0: "mid_inv T (snd ?s)" using b by (simp add: mid_inv_def)
    have "moves mp1 = moves (snd ?s)" "endBadCaptures mp1 = endBadCaptures (snd ?s)"
      by (simp_all add: mp1_def)
    note mu = mid_inv_update [OF mi0 ss0 this]
    have ci1: "cap_inv T mp1" using mu(1) st1 by (simp add: cap_inv_stage stage_defs)
    have "pending (snd ?s) = []" using ex(2) by (simp add: pending_def)
    then have "rem_good (snd ?s) = mset (badbuf (snd ?s))" by (simp add: rem_good_def)
    then have rm: "rem_caps mp1 = rem_caps mp"
      using st st1 mu(2) ex(1) by (simp add: rem_caps_stage stage_defs)
    have le: "stage mp \<le> stage mp1" by (simp add: mp1_def)
    from step_KILLER0 [OF st1 ci1] have "step_ok T mp (next_move T sk mp1)"
      by (rule step_ok_via [OF ss le rm])
    with True unf show ?thesis by (simp add: mp1_def)
  qed
qed

lemma capture_init_state:
  fixes T :: types_h
  defines "init mp \<equiv> score T CAPTURES (generate CAPTURES (mp \<lparr> cur := 0, endBadCaptures := 0 \<rparr>))"
  assumes "MOVE_NONE \<notin> set (generate_CAPTURES (pos mp))"
  shows "good_inv T (init mp)"
    and "rem_good (init mp) = mset (filter (\<lambda>m. m \<noteq> ttMove mp) (generate_CAPTURES (pos mp)))"
    and "same_search mp (init mp)"
    and "stage (init mp) = stage mp"
proof -
  let ?C = "generate_CAPTURES (pos mp)"
  define g where "g = generate CAPTURES (mp \<lparr> cur := 0, endBadCaptures := 0 \<rparr>)"
  have g: "moves g = map (\<lambda>m. \<lparr> em_move = m, em_value = 0 \<rparr>) ?C"
    "cur g = 0" "endMoves g = length ?C" "endBadCaptures g = 0"
    by (simp_all add: g_def generate_def generated_def)
  have i: "moves (init mp) = map (\<lambda>e. e \<lparr> em_value := score_of T g CAPTURES (em_move e) \<rparr>)
            (map (\<lambda>m. \<lparr> em_move = m, em_value = 0 \<rparr>) ?C)"
    "cur (init mp) = 0" "endMoves (init mp) = length ?C" "endBadCaptures (init mp) = 0"
    unfolding init_def g_def [symmetric] by (simp_all add: score_def g)
  show ss: "same_search mp (init mp)"
    by (simp add: init_def same_search_def score_def generate_def)
  show "stage (init mp) = stage mp" by (simp add: init_def)
  have sc: "score_of T g CAPTURES m = score_of T (init mp) CAPTURES m" for m
    by (rule score_of_cong) (simp_all add: init_def g_def score_def)
  have "bad_ok T (init mp) (badbuf (init mp))"
    by (simp add: badbuf_def i bad_ok_def)
  then show "good_inv T (init mp)"
    unfolding good_inv_def using assms(2) by (auto simp: i sc)
  have "pending (init mp) = ?C"
    by (simp add: pending_def i comp_def)
  moreover have "ttMove (init mp) = ttMove mp" using ss by (simp add: same_search_def)
  ultimately show "rem_good (init mp) = mset (filter (\<lambda>m. m \<noteq> ttMove mp) ?C)"
    by (simp add: rem_good_def badbuf_def i)
qed

lemma step_CAPTURE_INIT:
  assumes st: "stage mp = CAPTURE_INIT" and ci: "cap_inv T mp"
  shows "step_ok T mp (next_move T sk mp)"
proof -
  define mp0 where "mp0 = score T CAPTURES (generate CAPTURES (mp \<lparr> cur := 0, endBadCaptures := 0 \<rparr>))"
  define mp1 where "mp1 = mp0 \<lparr> stage := stage mp + 1 \<rparr>"
  from ci st have nz: "MOVE_NONE \<notin> set (generate_CAPTURES (pos mp))"
    by (simp add: cap_inv_stage)
  note cs = capture_init_state [OF nz, of T, folded mp0_def]
  have ss1: "same_search mp mp1" using cs(3) by (simp add: mp1_def same_search_def)
  have st1: "stage mp1 = GOOD_CAPTURE" using st by (simp add: mp1_def stage_defs)
  have "good_inv T mp1"
    using cs(1) unfolding good_inv_def
    by (simp add: mp1_def badbuf_def bad_ok_def see_good_def score_of_def)
  then have ci1: "cap_inv T mp1" using st1 by (simp add: cap_inv_stage)
  have "rem_good mp1 = rem_good mp0"
    by (simp add: mp1_def rem_good_def pending_def badbuf_def)
  then have rm: "rem_caps mp1 = rem_caps mp"
    using st st1 cs(2) by (simp add: rem_caps_stage)
  have le: "stage mp \<le> stage mp1" by (simp add: mp1_def)
  have "next_move T sk mp = next_move T sk mp1"
    unfolding mp1_def mp0_def using st by (intro nm_CAPTURE_INIT) simp
  moreover from step_GOOD_CAPTURE [OF st1 ci1] have "step_ok T mp (next_move T sk mp1)"
    by (rule step_ok_via [OF ss1 le rm])
  ultimately show ?thesis by simp
qed

lemma step_MAIN_TT:
  assumes st: "stage mp = MAIN_TT" and ci: "cap_inv T mp"
  shows "step_ok T mp (next_move T sk mp)"
proof -
  define mp1 where "mp1 = mp \<lparr> stage := stage mp + 1 \<rparr>"
  from ci st have nz: "MOVE_NONE \<notin> set (generate_CAPTURES (pos mp))" and tt: "ttMove mp \<noteq> MOVE_NONE"
    by (simp_all add: cap_inv_stage stage_defs)
  have eq: "next_move T sk mp = (ttMove mp, mp1)"
    unfolding mp1_def using st by (intro nm_TT) simp
  have st1: "stage mp1 = CAPTURE_INIT" using st by (simp add: mp1_def stage_defs)
  have "step_ok T mp (ttMove mp, mp1)"
  proof (rule step_okI)
    show "same_search mp (snd (ttMove mp, mp1))" by (simp add: mp1_def same_search_def)
    show "stage mp \<le> stage (snd (ttMove mp, mp1))" by (simp add: mp1_def)
    show "stage (snd (ttMove mp, mp1)) \<le> BAD_CAPTURE" using st1 by (simp add: stage_defs)
    show "cap_inv T (snd (ttMove mp, mp1))"
      using st1 nz by (simp add: cap_inv_stage stage_defs) (simp add: mp1_def)
    show "rem_caps mp = {#}" if "fst (ttMove mp, mp1) = MOVE_NONE" using that tt by simp
    have "rem_caps mp1 = rem_caps mp"
      using st st1 by (simp add: rem_caps_stage stage_defs) (simp add: mp1_def)
    then show "yield_ok T mp (fst (ttMove mp, mp1)) (snd (ttMove mp, mp1))"
      using st st1 by (intro yield_ok_intros(1)) simp_all
  qed
  then show ?thesis by (simp add: eq)
qed

lemma step_main:
  assumes "stage mp \<le> BAD_CAPTURE" and "cap_inv T mp"
  shows "step_ok T mp (next_move T sk mp)"
proof -
  from assms(1) have "stage mp = MAIN_TT \<or> stage mp = CAPTURE_INIT \<or> stage mp = GOOD_CAPTURE
      \<or> stage mp = KILLER0 \<or> stage mp = KILLER1 \<or> stage mp = COUNTERMOVE
      \<or> stage mp = QUIET_INIT \<or> stage mp = QUIET \<or> stage mp = BAD_CAPTURE"
    unfolding stage_defs by arith
  then show ?thesis
    using step_MAIN_TT [OF _ assms(2)] step_CAPTURE_INIT [OF _ assms(2)]
      step_GOOD_CAPTURE [OF _ assms(2)] step_KILLER0 [OF _ assms(2)]
      step_KILLER1 [OF _ assms(2)] step_COUNTERMOVE [OF _ assms(2)]
      step_QUIET_INIT [OF _ assms(2)] step_QUIET [OF _ assms(2)]
      step_BAD_CAPTURE [OF _ assms(2)]
    by (elim disjE) simp_all
qed

section \<open>The move picker: what a run yields\<close>

text \<open>The moves of a run that were yielded with the given stage, in order.\<close>

definition yielded_in :: "nat \<Rightarrow> (Move \<times> nat) list \<Rightarrow> Move list" where
  "yielded_in st run = map fst (filter (\<lambda>y. snd y = st) run)"

lemma yielded_in_simps [simp]:
  "yielded_in st [] = []"
  "yielded_in st ((m, st') # run) = (if st' = st then m # yielded_in st run else yielded_in st run)"
  by (simp_all add: yielded_in_def)

lemma run_picker_step:
  "run_picker T skips n mp =
     (if fst (next_move T (skips n) mp) = MOVE_NONE then []
      else (fst (next_move T (skips n) mp), stage (snd (next_move T (skips n) mp)))
           # run_picker T skips (n + 1) (snd (next_move T (skips n) mp)))"
  by (subst run_picker.simps) (simp add: Let_def)

lemma step_ok_dest:
  assumes "step_ok T mp r"
  shows "same_search mp (snd r)" "stage mp \<le> stage (snd r)" "stage (snd r) \<le> BAD_CAPTURE"
    "cap_inv T (snd r)" "fst r = MOVE_NONE \<Longrightarrow> rem_caps mp = {#}"
    "fst r \<noteq> MOVE_NONE \<Longrightarrow> yield_ok T mp (fst r) (snd r)"
  using assms by (simp_all add: step_ok_def)

lemma yield_ok_stage:
  assumes "yield_ok T mp m mp'" and "stage mp' \<le> BAD_CAPTURE"
  shows "stage mp' = CAPTURE_INIT \<or> stage mp' = GOOD_CAPTURE \<or> stage mp' = KILLER1
       \<or> stage mp' = COUNTERMOVE \<or> stage mp' = QUIET_INIT \<or> stage mp' = QUIET
       \<or> stage mp' = BAD_CAPTURE"
proof -
  from assms(1) have "stage mp' \<noteq> MAIN_TT" "stage mp' \<noteq> KILLER0"
    by (simp_all add: yield_ok_def)
  with assms(2) show ?thesis unfolding stage_defs by arith
qed

lemma yield_ok_rem:
  assumes "yield_ok T mp m mp'" and "stage mp' \<le> BAD_CAPTURE"
  shows "rem_caps mp =
           (if stage mp' = GOOD_CAPTURE \<or> stage mp' = BAD_CAPTURE
            then add_mset m (rem_caps mp') else rem_caps mp')"
  using yield_ok_stage [OF assms] assms(1)
  by (elim disjE) (simp_all add: yield_ok_def stage_defs)

lemma yield_ok_see:
  assumes "yield_ok T mp m mp'"
  shows "stage mp' = GOOD_CAPTURE \<Longrightarrow> see_good T mp m"
    and "stage mp' = BAD_CAPTURE \<Longrightarrow> \<not> see_good T mp m"
  using assms by (simp_all add: yield_ok_def)

lemma run_captures:
  "stage mp \<le> BAD_CAPTURE \<Longrightarrow> cap_inv T mp \<Longrightarrow>
   mset (yielded_in GOOD_CAPTURE (run_picker T skips n mp))
     + mset (yielded_in BAD_CAPTURE (run_picker T skips n mp)) = rem_caps mp
   \<and> (\<forall>m \<in> set (yielded_in GOOD_CAPTURE (run_picker T skips n mp)). see_good T mp m)
   \<and> (\<forall>m \<in> set (yielded_in BAD_CAPTURE (run_picker T skips n mp)). \<not> see_good T mp m)"
proof (induction T skips n mp rule: run_picker.induct)
  case (1 T skips n mp)
  let ?r = "next_move T (skips n) mp"
  note so = step_ok_dest [OF step_main [OF "1.prems", of "skips n"]]
  show ?case
  proof (cases "fst ?r = MOVE_NONE")
    case True
    with so(5) show ?thesis
      by (subst (1 2 3 4) run_picker_step) simp
  next
    case False
    let ?run = "run_picker T skips (n + 1) (snd ?r)"
    note yo = so(6) [OF False]
    note ih = "1.IH" [OF refl False so(3) so(4)]
    note sg = same_search_see_good [OF so(1), of T]
    have unf: "run_picker T skips n mp = (fst ?r, stage (snd ?r)) # ?run"
      using False by (subst run_picker_step) simp
    have gb: "GOOD_CAPTURE \<noteq> BAD_CAPTURE" by (simp add: stage_defs)
    from ih have a: "mset (yielded_in GOOD_CAPTURE ?run) + mset (yielded_in BAD_CAPTURE ?run)
        = rem_caps (snd ?r)"
      and g: "\<forall>m \<in> set (yielded_in GOOD_CAPTURE ?run). see_good T mp m"
      and b: "\<forall>m \<in> set (yielded_in BAD_CAPTURE ?run). \<not> see_good T mp m"
      by (simp_all add: sg)
    have 1: "mset (yielded_in GOOD_CAPTURE (run_picker T skips n mp))
        + mset (yielded_in BAD_CAPTURE (run_picker T skips n mp)) = rem_caps mp"
      unfolding unf yield_ok_rem [OF yo so(3)] using a gb by auto
    have 2: "\<forall>m \<in> set (yielded_in GOOD_CAPTURE (run_picker T skips n mp)). see_good T mp m"
      unfolding unf using g yield_ok_see(1) [OF yo] by simp
    have 3: "\<forall>m \<in> set (yielded_in BAD_CAPTURE (run_picker T skips n mp)). \<not> see_good T mp m"
      unfolding unf using b yield_ok_see(2) [OF yo] by simp
    from 1 2 3 show ?thesis by blast
  qed
qed






text \<open>
  Concrete pickers. In \<open>test_position\<close> the captures are 3, 4 and 5, of which only 3
  passes the exchange check, the quiet moves are 6 to 10; \<open>test_picker\<close> has the hash
  move 4, the killers 7 and 11 and the counter move 8. The other pickers have the counter
  move or the killers 5 and at most the generated capture 5.
\<close>

definition raw_picker :: MovePicker where
  "raw_picker =
     \<lparr> pos = witness_position, mainHistory = (\<lambda>_ _. 0), captureHistory = (\<lambda>_ _ _. 0),
       contHistory = (\<lambda>_ _ _. 0), countermove = 0, killers = (\<lambda>_. 0), depth = 0, ttMove = 0,
       recaptureSquare = 0, threshold = 0, stage = 99, cur = 7, endMoves = 3,
       endBadCaptures = 5, moves = [], move = 0 \<rparr>"

definition test_position :: Position where
  "test_position = witness_position
     \<lparr> capture := (\<lambda>m. m \<in> {3, 4, 5}), see_ge := (\<lambda>m v. m = 3),
       generate_CAPTURES := [3, 4, 5], generate_QUIETS := [6, 7, 8, 9, 10] \<rparr>"

definition test_picker :: MovePicker where
  "test_picker = MovePicker_main raw_picker test_position 4 30
      (\<lambda>c ft. int ft) (\<lambda>pc sq t. int sq) (\<lambda>i pc sq. 0) 8 (\<lambda>i. if i = 0 then 7 else 11)"


definition hash_capture_position :: Position where
  "hash_capture_position = witness_position
     \<lparr> capture := (\<lambda>m. m = 5), generate_CAPTURES := [5] \<rparr>"

definition hash_capture_picker :: MovePicker where
  "hash_capture_picker = MovePicker_main raw_picker hash_capture_position 5 1
      (\<lambda>c ft. 0) (\<lambda>pc sq t. 0) (\<lambda>i pc sq. 0) 0 (\<lambda>i. 0)"





lemma MovePicker_main_fields:
  "pos (MovePicker_main raw p ttm d mh cph ch cm ks) = p"
  "captureHistory (MovePicker_main raw p ttm d mh cph ch cm ks) = cph"
  "countermove (MovePicker_main raw p ttm d mh cph ch cm ks) = cm"
  "killers (MovePicker_main raw p ttm d mh cph ch cm ks) 0 = ks 0"
  "killers (MovePicker_main raw p ttm d mh cph ch cm ks) 1 = ks 1"
  "killers (MovePicker_main raw p ttm d mh cph ch cm ks) (Suc 0) = ks (Suc 0)"
  "depth (MovePicker_main raw p ttm d mh cph ch cm ks) = d"
  "ttMove (MovePicker_main raw p ttm d mh cph ch cm ks)
     = (if ttm \<noteq> MOVE_NONE \<and> pseudo_legal p ttm then ttm else MOVE_NONE)"
  by (simp_all add: MovePicker_main_def Let_def MOVE_NONE_def)

lemma MovePicker_main_stage:
  "\<not> checkers p \<Longrightarrow>
   stage (MovePicker_main raw p ttm d mh cph ch cm ks)
     = (if ttMove (MovePicker_main raw p ttm d mh cph ch cm ks) = MOVE_NONE
        then CAPTURE_INIT else MAIN_TT)"
  by (simp add: MovePicker_main_def Let_def stage_defs)

lemma MovePicker_main_cap_inv:
  assumes "\<not> checkers p" and "MOVE_NONE \<notin> set (generate_CAPTURES p)"
  shows "stage (MovePicker_main raw p ttm d mh cph ch cm ks) \<le> BAD_CAPTURE"
    and "cap_inv T (MovePicker_main raw p ttm d mh cph ch cm ks)"
    and "rem_caps (MovePicker_main raw p ttm d mh cph ch cm ks)
          = mset (filter (\<lambda>m. m \<noteq> ttMove (MovePicker_main raw p ttm d mh cph ch cm ks))
                    (generate_CAPTURES p))"
  using assms
  by (simp_all add: MovePicker_main_stage cap_inv_def rem_caps_def MovePicker_main_fields(1)
        stage_defs)


text \<open>
  C4 (as amended). For every main-search picker on a position that is not in check, run to
  exhaustion with any skip-quiets arguments, the captures yielded in the good-capture stage
  and the captures yielded in the bad-capture stage together are exactly the generated
  captures other than the hash move, each as often as the generator produced it: none is
  lost and none is duplicated. A capture of the first kind passes the exchange check
  against the threshold \<open>-55 * score / 1024\<close> of its own score, a capture of the second
  kind fails it. The generated captures are assumed not to contain \<open>MOVE_NONE\<close>.
\<close>

theorem captures_partition:
  assumes "\<not> checkers p" and "MOVE_NONE \<notin> set (generate_CAPTURES p)"
  shows "let mp = MovePicker_main raw p ttm d mh cph ch cm ks;
             run = run_picker T skips 0 mp;
             good = yielded_in GOOD_CAPTURE run;
             bad = yielded_in BAD_CAPTURE run
         in mset good + mset bad = mset (filter (\<lambda>m. m \<noteq> ttMove mp) (generate_CAPTURES p))
            \<and> (\<forall>m \<in> set good. see_good T mp m)
            \<and> (\<forall>m \<in> set bad. \<not> see_good T mp m)"
proof -
  define mp where "mp = MovePicker_main raw p ttm d mh cph ch cm ks"
  note i = MovePicker_main_cap_inv(1) [OF assms, where raw = raw and ttm = ttm and d = d
      and mh = mh and cph = cph and ch = ch and cm = cm and ks = ks, folded mp_def]
    MovePicker_main_cap_inv(2) [OF assms, where raw = raw and ttm = ttm and d = d
      and mh = mh and cph = cph and ch = ch and cm = cm and ks = ks and T = T, folded mp_def]
    MovePicker_main_cap_inv(3) [OF assms, where raw = raw and ttm = ttm and d = d
      and mh = mh and cph = cph and ch = ch and cm = cm and ks = ks, folded mp_def]
  from run_captures [OF i(1,2), where skips = skips and n = 0] show ?thesis
    unfolding i(3) Let_def mp_def [symmetric] .
qed

lemma test_run:
  "run_picker witness_types (\<lambda>_. False) 0 test_picker
     = [(4, CAPTURE_INIT), (3, GOOD_CAPTURE), (7, KILLER1), (11, COUNTERMOVE), (8, QUIET_INIT),
        (10, QUIET), (9, QUIET), (6, QUIET), (5, BAD_CAPTURE)]"
  by code_simp

theorem captures_partition_witness:
  "\<not> checkers test_position \<and> MOVE_NONE \<notin> set (generate_CAPTURES test_position)
   \<and> ttMove test_picker = 4
   \<and> yielded_in GOOD_CAPTURE (run_picker witness_types (\<lambda>_. False) 0 test_picker) = [3]
   \<and> yielded_in BAD_CAPTURE (run_picker witness_types (\<lambda>_. False) 0 test_picker) = [5]
   \<and> mset [3] + mset [5] = mset (filter (\<lambda>m. m \<noteq> 4) (generate_CAPTURES test_position))
   \<and> see_good witness_types test_picker 3 \<and> \<not> see_good witness_types test_picker 5"
proof -
  have h: "\<not> checkers test_position" "MOVE_NONE \<notin> set (generate_CAPTURES test_position)"
    by (simp_all add: test_position_def witness_position_def MOVE_NONE_def)
  have tt: "ttMove test_picker = 4"
    by (simp add: test_picker_def MovePicker_main_fields test_position_def
          witness_position_def MOVE_NONE_def)
  have g: "yielded_in GOOD_CAPTURE (run_picker witness_types (\<lambda>_. False) 0 test_picker) = [3]"
    and b: "yielded_in BAD_CAPTURE (run_picker witness_types (\<lambda>_. False) 0 test_picker) = [5]"
    unfolding test_run by (simp_all add: stage_defs)
  note p = captures_partition [OF h, where raw = raw_picker and ttm = 4 and d = 30
      and mh = "\<lambda>c ft. int ft" and cph = "\<lambda>pc sq t. int sq" and ch = "\<lambda>i pc sq. 0" and cm = 8
      and ks = "\<lambda>i. if i = 0 then 7 else 11" and T = witness_types and skips = "\<lambda>_. False",
      folded test_picker_def, unfolded Let_def g b tt]
  from p h tt g b show ?thesis by simp
qed

text \<open>
  The claim as stated counts every generated capture. A generated capture that is the
  hash move is filtered out by the good-capture stage before the exchange check, so it is
  yielded in neither stage: with the single capture 5 as hash move the run yields it once,
  as the hash move, and both capture stages yield nothing.
\<close>

theorem captures_partition_claim_counterexample:
  "generate_CAPTURES hash_capture_position = [5]
   \<and> yielded_in GOOD_CAPTURE (run_picker witness_types (\<lambda>_. False) 0 hash_capture_picker) = []
   \<and> yielded_in BAD_CAPTURE (run_picker witness_types (\<lambda>_. False) 0 hash_capture_picker) = []"
proof -
  have "run_picker witness_types (\<lambda>_. False) 0 hash_capture_picker = [(5, CAPTURE_INIT)]"
    by code_simp
  then show ?thesis
    by (simp add: hash_capture_position_def stage_defs)
qed




section \<open>The tree search\<close>

text \<open>
  A frame of the search stack, with the fields that \<open>montecarlo.cpp\<close> reads and writes.
  The pointer \<open>contHistory\<close> of a frame is modelled by the table it points to; the
  tables are not written during the search.
\<close>

record Stack =
  ss_ply :: int
  currentMove :: Move
  excludedMove :: Move
  ss_killers :: "nat \<Rightarrow> Move"
  moveCount :: int
  ss_contHistory :: "Piece \<Rightarrow> Square \<Rightarrow> int"

text \<open>
  What the search uses from files that are not among the sources, and from the
  platform: the position's \<open>do_move\<close>, the evaluation \<open>minimax_value\<close>, the tables
  of the thread, two constants of \<open>types.h\<close>, the content of the memory in which
  \<open>generate_moves\<close> constructs its picker, and the double arithmetic. They are
  parameters of the model.
\<close>

record Services =
  pos_do_move :: "Position \<Rightarrow> Move \<Rightarrow> Position"
  minimax_value :: "Position \<Rightarrow> int \<Rightarrow> int"
  counterMoves :: "Piece \<Rightarrow> Square \<Rightarrow> Move"
  th_mainHistory :: "nat \<Rightarrow> nat \<Rightarrow> int"
  th_captureHistory :: "Piece \<Rightarrow> Square \<Rightarrow> int \<Rightarrow> int"
  th_contHistory :: "Piece \<Rightarrow> Square \<Rightarrow> Piece \<Rightarrow> Square \<Rightarrow> int"
  NO_PIECE :: Piece
  DEPTH_ZERO :: int
  picker_storage :: MovePicker
  arith :: double_arith

text \<open>
  The state of the search. \<open>uct_pos\<close> is the live position \<open>pos\<close>, which the search
  advances and retracts in place. \<open>st_chain\<close> is the position's chain of earlier states
  (the \<open>StateInfo\<close> records linked by \<open>do_move\<close>): the positions before each advance
  that has not been retracted, the latest first. \<open>table\<close> is the global \<open>UCTTable\<close>.
  The arrays \<open>stack\<close> and \<open>nodes\<close> are total functions of the index, which may be
  negative for the stack; an entry of \<open>nodes\<close> is a pointer to a cell of the table or the
  null pointer. \<open>root_node\<close> is the field \<open>root\<close>. A function that dereferences a
  null node has no result (\<open>None\<close>).
\<close>

record UCT =
  uct_pos :: Position
  st_chain :: "Position list"
  rootPosition :: Position
  table :: UCTHashTable
  ply :: int
  stack :: "int \<Rightarrow> Stack"
  nodes :: "int \<Rightarrow> Node option"
  root_node :: "Node option"
  doMoveCnt :: int
  descentCnt :: int
  playoutCnt :: int
  priorCnt :: int
  explorationConstant :: real

definition current_node :: "UCT \<Rightarrow> Node option" where
  "current_node s = nodes s (ply s)"

text \<open>
  \<open>do_move\<close> and \<open>undo_move\<close>. Modelled from the contract of the position class, which is
  not among the sources: \<open>pos.do_move\<close> links the state it leaves into the chain, and
  \<open>pos.undo_move\<close> of the move just made returns to that state.
\<close>

definition do_move :: "Services \<Rightarrow> types_h \<Rightarrow> UCT \<Rightarrow> Move \<Rightarrow> UCT" where
  "do_move E T s m =
     s \<lparr> doMoveCnt := doMoveCnt s + 1,
         stack := (stack s)
           (ply s := (stack s (ply s))
              \<lparr> ss_ply := ply s, currentMove := m,
                ss_contHistory := th_contHistory E (moved_piece (uct_pos s) m) (to_sq T m) \<rparr>),
         st_chain := uct_pos s # st_chain s,
         uct_pos := pos_do_move E (uct_pos s) m,
         ply := ply s + 1 \<rparr>"

definition undo_move :: "UCT \<Rightarrow> UCT" where
  "undo_move s =
     (let s1 = s \<lparr> ply := ply s - 1 \<rparr>
      in case st_chain s1 of
           [] \<Rightarrow> s1
         | p # ps \<Rightarrow> s1 \<lparr> uct_pos := p, st_chain := ps \<rparr>)"

definition evaluate_with_minimax :: "Services \<Rightarrow> UCT \<Rightarrow> int \<Rightarrow> int \<times> UCT" where
  "evaluate_with_minimax E s d =
     (let s1 = s \<lparr> stack := (stack s)
                   (ply s := (stack s (ply s))
                      \<lparr> ss_ply := ply s, currentMove := MOVE_NONE,
                        excludedMove := MOVE_NONE \<rparr>) \<rparr>
      in (minimax_value E (uct_pos s1) d, s1))"

definition calculate_prior :: "Services \<Rightarrow> types_h \<Rightarrow> UCT \<Rightarrow> Move \<Rightarrow> int \<Rightarrow> Reward \<times> UCT" where
  "calculate_prior E T s m n =
     (let s1 = s \<lparr> priorCnt := priorCnt s + 1 \<rparr>;
          s2 = do_move E T s1 m;
          r = evaluate_with_minimax E s2 (DEPTH_ZERO E);
          pr = value_to_reward (arith E) (fst r);
          s3 = undo_move (snd r)
      in (pr, s3))"

text \<open>
  \<open>std::sort(edges, edges + n, ComparePrior)\<close>. Modelled from the spec: the comparison is
  declared in a header that is not among the sources; the edges are put in descending order
  of prior.
\<close>

definition sort_edges :: "NodeInfo \<Rightarrow> NodeInfo" where
  "sort_edges node =
     node \<lparr> edges := (\<lambda>i. if i < sons node
                            then sort_key (\<lambda>e. - prior e) (map (edges node) [0 ..< sons node]) ! i
                            else edges node i) \<rparr>"

text \<open>
  \<open>generate_moves\<close>. Its loop calls \<open>next_move()\<close> (without skipping quiets) until the
  picker is exhausted. The picker holds a reference to the live position, which
  \<open>calculate_prior\<close> advances and retracts between two calls: each call reads the
  position as it is then. The hash move given to the picker is \<open>MOVE_NONE\<close>, and the
  third continuation table is a null pointer, which the picker never reads.
\<close>

function generate_moves_loop ::
  "Services \<Rightarrow> types_h \<Rightarrow> MovePicker \<Rightarrow> int \<Rightarrow> UCT \<Rightarrow> UCT option" where
  "generate_moves_loop E T mp cnt s =
     (let r = next_move T False (mp \<lparr> pos := uct_pos s \<rparr>)
      in if fst r \<noteq> MOVE_NONE
         then (if legal (uct_pos s) (fst r)
               then (let s1 = s \<lparr> stack := (stack s)
                                   (ply s := (stack s (ply s)) \<lparr> moveCount := cnt + 1 \<rparr>) \<rparr>;
                         p = calculate_prior E T s1 (fst r) (cnt + 1)
                     in case current_node (snd p) of
                          None \<Rightarrow> None
                        | Some node \<Rightarrow>
                            generate_moves_loop E T (snd r) (cnt + 1)
                              ((snd p) \<lparr> table := (table (snd p))
                                 [node := add_prior_to_node T (table (snd p) ! node)
                                            (fst r) (fst p) (nat (cnt + 1))] \<rparr>))
               else generate_moves_loop E T (snd r) cnt s)
         else Some s)"
  by pat_completeness auto
termination
proof (relation "measures [\<lambda>(E, T, mp, cnt, s). 20 - stage mp,
                           \<lambda>(E, T, mp, cnt, s). endMoves mp - cur mp]", goal_cases)
  case 1
  show ?case by simp
next
  case (2 E T mp cnt s r s1 p node)
  then have "progress (mp \<lparr> pos := uct_pos s \<rparr>) (snd (next_move T False (mp \<lparr> pos := uct_pos s \<rparr>)))"
    by (intro next_move_progress) simp
  with 2 show ?case
    by (auto simp: progress_def)
next
  case (3 E T mp cnt s r)
  then have "progress (mp \<lparr> pos := uct_pos s \<rparr>) (snd (next_move T False (mp \<lparr> pos := uct_pos s \<rparr>)))"
    by (intro next_move_progress) simp
  with 3 show ?case
    by (auto simp: progress_def)
qed

declare generate_moves_loop.simps [simp del]

definition generate_moves :: "Services \<Rightarrow> types_h \<Rightarrow> UCT \<Rightarrow> UCT option" where
  "generate_moves E T s =
     (let prevSq = to_sq T (currentMove (stack s (ply s - 1)));
          cm = counterMoves E (piece_on (uct_pos s) prevSq) prevSq;
          ttm = MOVE_NONE;
          ks = ss_killers (stack s (ply s));
          d = 30 * ONE_PLY T;
          cph = th_captureHistory E;
          mh = th_mainHistory E;
          contHist = (\<lambda>i. if i = 0 then ss_contHistory (stack s (ply s - 1))
                          else if i = 1 then ss_contHistory (stack s (ply s - 2))
                          else if i = 3 then ss_contHistory (stack s (ply s - 4))
                          else (\<lambda>_ _. 0));
          mp = MovePicker_main (picker_storage E) (uct_pos s) ttm d mh cph contHist cm ks
      in case generate_moves_loop E T mp 0 s of
           None \<Rightarrow> None
         | Some s1 \<Rightarrow>
             (case current_node s1 of
                None \<Rightarrow> None
              | Some node \<Rightarrow>
                  (let t1 = (if sons (table s1 ! node) > 0
                             then (table s1)[node := sort_edges (table s1 ! node)]
                             else table s1);
                       t2 = t1[node := (t1 ! node) \<lparr> visits := 1, expandedSons := 0 \<rparr>]
                   in Some (s1 \<lparr> table := t2 \<rparr>))))"

text \<open>
  \<open>create_root\<close>. The two \<open>memset\<close> calls zero the stack and the node pointers; the
  loop over the frames then gives every frame the sentinel table. The copy of the root
  position is taken from the live position.
\<close>

definition zero_frame :: Stack where
  "zero_frame = \<lparr> ss_ply = 0, currentMove = 0, excludedMove = 0, ss_killers = (\<lambda>_. 0),
                  moveCount = 0, ss_contHistory = (\<lambda>_ _. 0) \<rparr>"

definition create_root :: "Services \<Rightarrow> types_h \<Rightarrow> UCT \<Rightarrow> UCT option" where
  "create_root E T s =
     (let s1 = s \<lparr> doMoveCnt := 0, descentCnt := 0, playoutCnt := 0, priorCnt := 0,
                   ply := 1,
                   stack := (\<lambda>i. zero_frame \<lparr> ss_contHistory := th_contHistory E (NO_PIECE E) 0 \<rparr>),
                   rootPosition := uct_pos s,
                   nodes := (\<lambda>_. None) \<rparr>;
          g = get_node (table s1) (uct_pos s1);
          s2 = s1 \<lparr> table := snd g, nodes := (nodes s1)(ply s1 := Some (fst g)),
                    root_node := Some (fst g) \<rparr>
      in if visits (table s2 ! fst g) = 0 then generate_moves E T s2 else Some s2)"

text \<open>
  The functions of the search loop, as compiled without assertions. \<open>at_root\<close> is the
  assertion \<open>current_node() == root\<close> that \<open>computational_budget\<close>, \<open>tree_policy\<close>
  and \<open>backup\<close> make. The loop of \<open>tree_policy\<close> has no bound in the source, so it is
  a partial function: \<open>None\<close> also stands for a descent that never ends. \<open>descend\<close> is
  the body of that loop. The body of \<open>backup\<close> in the source consists of its assertion
  only.
\<close>

definition computational_budget :: "UCT \<Rightarrow> bool" where
  "computational_budget s \<longleftrightarrow> descentCnt s < 5"

definition at_root :: "UCT \<Rightarrow> bool" where
  "at_root s \<longleftrightarrow> current_node s = root_node s"

definition descend :: "Services \<Rightarrow> types_h \<Rightarrow> Node \<Rightarrow> UCT \<Rightarrow> UCT" where
  "descend E T node s =
     (let C = explorationConstant s;
          m = best_move (arith E) (table s ! node) C;
          s1 = do_move E T s m;
          g = get_node (table s1) (uct_pos s1)
      in s1 \<lparr> table := snd g, nodes := (nodes s1)(ply s1 := Some (fst g)) \<rparr>)"

partial_function (option) tree_policy_loop :: "Services \<Rightarrow> types_h \<Rightarrow> UCT \<Rightarrow> UCT option" where
  "tree_policy_loop E T s =
     (case current_node s of
        None \<Rightarrow> None
      | Some node \<Rightarrow>
          if visits (table s ! node) > 0
          then tree_policy_loop E T (descend E T node s)
          else Some s)"

definition tree_policy :: "Services \<Rightarrow> types_h \<Rightarrow> UCT \<Rightarrow> (Node \<times> UCT) option" where
  "tree_policy E T s =
     (case tree_policy_loop E T (s \<lparr> descentCnt := descentCnt s + 1 \<rparr>) of
        None \<Rightarrow> None
      | Some s1 \<Rightarrow> (case current_node s1 of None \<Rightarrow> None | Some node \<Rightarrow> Some (node, s1)))"

definition playout_policy :: "Services \<Rightarrow> types_h \<Rightarrow> Node \<Rightarrow> UCT \<Rightarrow> (Reward \<times> UCT) option" where
  "playout_policy E T node s =
     (case generate_moves E T (s \<lparr> playoutCnt := playoutCnt s + 1 \<rparr>) of
        None \<Rightarrow> None
      | Some s1 \<Rightarrow>
          (case current_node s1 of
             None \<Rightarrow> None
           | Some n \<Rightarrow> Some (prior (get_list_of_edges (table s1) n 0), s1)))"

definition backup :: "UCT \<Rightarrow> Node \<Rightarrow> Reward \<Rightarrow> UCT" where
  "backup s node r = s"

definition iteration :: "Services \<Rightarrow> types_h \<Rightarrow> UCT \<Rightarrow> UCT option" where
  "iteration E T s =
     (case tree_policy E T s of
        None \<Rightarrow> None
      | Some n \<Rightarrow>
          (case playout_policy E T (fst n) (snd n) of
             None \<Rightarrow> None
           | Some r \<Rightarrow> Some (backup (snd r) (fst n) (fst r))))"

partial_function (option) search_loop :: "Services \<Rightarrow> types_h \<Rightarrow> UCT \<Rightarrow> UCT option" where
  "search_loop E T s =
     (if computational_budget s
      then (case iteration E T s of None \<Rightarrow> None | Some s1 \<Rightarrow> search_loop E T s1)
      else Some s)"

definition search :: "Services \<Rightarrow> types_h \<Rightarrow> UCT \<Rightarrow> (Move \<times> UCT) option" where
  "search E T s =
     (case create_root E T s of
        None \<Rightarrow> None
      | Some s1 \<Rightarrow>
          (case search_loop E T s1 of
             None \<Rightarrow> None
           | Some s2 \<Rightarrow>
               (case root_node s2 of
                  None \<Rightarrow> None
                | Some r \<Rightarrow> Some (best_move (arith E) (table s2 ! r) 0, s2))))"

text \<open>\<open>iterations n\<close>: \<open>n\<close> completed passes of the body of the search loop.\<close>

primrec iterations :: "Services \<Rightarrow> types_h \<Rightarrow> nat \<Rightarrow> UCT \<Rightarrow> UCT option" where
  "iterations E T 0 s = Some s"
| "iterations E T (Suc n) s =
     (case iteration E T s of None \<Rightarrow> None | Some s1 \<Rightarrow> iterations E T n s1)"

section \<open>The tree search: where an iteration leaves the position\<close>

text \<open>
  \<open>same_walk s s'\<close>: the two states are at the same place of the walk. \<open>advanced s s'\<close>:
  from \<open>s\<close> to \<open>s'\<close> the ply has not decreased, and the chain of the live position has
  grown by the same number of states.
\<close>

definition same_walk :: "UCT \<Rightarrow> UCT \<Rightarrow> bool" where
  "same_walk s s' \<longleftrightarrow>
     ply s' = ply s \<and> uct_pos s' = uct_pos s \<and> st_chain s' = st_chain s
     \<and> nodes s' = nodes s \<and> root_node s' = root_node s \<and> rootPosition s' = rootPosition s
     \<and> descentCnt s' = descentCnt s \<and> length (table s') = length (table s)"

lemma same_walk_refl [simp]: "same_walk s s"
  by (simp add: same_walk_def)

lemma same_walk_trans: "same_walk a b \<Longrightarrow> same_walk b c \<Longrightarrow> same_walk a c"
  by (simp add: same_walk_def)

lemma calculate_prior_walk: "same_walk s (snd (calculate_prior E T s m n))"
  by (simp add: same_walk_def calculate_prior_def do_move_def undo_move_def
        evaluate_with_minimax_def Let_def)

lemma generate_moves_loop_walk:
  "generate_moves_loop E T mp cnt s = Some s' \<Longrightarrow> same_walk s s'"
proof (induction E T mp cnt s rule: generate_moves_loop.induct)
  case (1 E T mp cnt s)
  let ?r = "next_move T False (mp \<lparr> pos := uct_pos s \<rparr>)"
  let ?s1 = "s \<lparr> stack := (stack s) (ply s := (stack s (ply s)) \<lparr> moveCount := cnt + 1 \<rparr>) \<rparr>"
  let ?p = "calculate_prior E T ?s1 (fst ?r) (cnt + 1)"
  show ?case
  proof (cases "fst ?r \<noteq> MOVE_NONE")
    case False
    with "1.prems" show ?thesis
      by (subst (asm) generate_moves_loop.simps) (simp add: Let_def)
  next
    case mv: True
    show ?thesis
    proof (cases "legal (uct_pos s) (fst ?r)")
      case False
      with mv "1.prems" have "generate_moves_loop E T (snd ?r) cnt s = Some s'"
        by (subst (asm) generate_moves_loop.simps) (simp add: Let_def)
      from "1.IH"(2) [OF refl mv False this] show ?thesis .
    next
      case lg: True
      have w1: "same_walk s (snd ?p)"
        using calculate_prior_walk [of ?s1 E T "fst ?r" "cnt + 1"]
        by (simp add: same_walk_def)
      show ?thesis
      proof (cases "current_node (snd ?p)")
        case None
        with mv lg "1.prems" show ?thesis
          by (subst (asm) generate_moves_loop.simps) (simp add: Let_def)
      next
        case (Some node)
        let ?s2 = "(snd ?p) \<lparr> table := (table (snd ?p))
                      [node := add_prior_to_node T (table (snd ?p) ! node)
                                 (fst ?r) (fst ?p) (nat (cnt + 1))] \<rparr>"
        from mv lg Some "1.prems"
        have "generate_moves_loop E T (snd ?r) (cnt + 1) ?s2 = Some s'"
          by (subst (asm) generate_moves_loop.simps) (simp add: Let_def)
        from "1.IH"(1) [OF refl mv lg refl refl Some this] have "same_walk ?s2 s'" .
        moreover have "same_walk (snd ?p) ?s2"
          by (simp add: same_walk_def)
        ultimately show ?thesis
          using w1 by (blast intro: same_walk_trans)
      qed
    qed
  qed
qed

lemma generate_moves_walk:
  assumes "generate_moves E T s = Some s'"
  shows "same_walk s s'"
    and "\<exists>node. current_node s = Some node
            \<and> (node < length (table s) \<longrightarrow> visits (table s' ! node) = 1)"
proof -
  let ?mp = "MovePicker_main (picker_storage E) (uct_pos s) MOVE_NONE (30 * ONE_PLY T)
      (th_mainHistory E) (th_captureHistory E)
      (\<lambda>i. if i = 0 then ss_contHistory (stack s (ply s - 1))
           else if i = 1 then ss_contHistory (stack s (ply s - 2))
           else if i = 3 then ss_contHistory (stack s (ply s - 4))
           else (\<lambda>_ _. 0))
      (counterMoves E (piece_on (uct_pos s) (to_sq T (currentMove (stack s (ply s - 1)))))
         (to_sq T (currentMove (stack s (ply s - 1)))))
      (ss_killers (stack s (ply s)))"
  from assms obtain s1 node where
    l: "generate_moves_loop E T ?mp 0 s = Some s1" and c: "current_node s1 = Some node"
    and s': "s' = s1 \<lparr> table :=
        (if sons (table s1 ! node) > 0
         then (table s1)[node := sort_edges (table s1 ! node)] else table s1)
        [node := ((if sons (table s1 ! node) > 0
                   then (table s1)[node := sort_edges (table s1 ! node)] else table s1) ! node)
                 \<lparr> visits := 1, expandedSons := 0 \<rparr>] \<rparr>"
    by (auto simp: generate_moves_def Let_def split: option.splits)
  note w = generate_moves_loop_walk [OF l]
  from w show "same_walk s s'"
    by (simp add: s' same_walk_def)
  from w c have "current_node s = Some node"
    by (simp add: same_walk_def current_node_def)
  moreover have "node < length (table s) \<longrightarrow> visits (table s' ! node) = 1"
    using w by (simp add: s' same_walk_def)
  ultimately show "\<exists>node. current_node s = Some node
            \<and> (node < length (table s) \<longrightarrow> visits (table s' ! node) = 1)"
    by blast
qed

definition advanced :: "UCT \<Rightarrow> UCT \<Rightarrow> bool" where
  "advanced s s' \<longleftrightarrow>
     ply s \<le> ply s'
     \<and> int (length (st_chain s')) - int (length (st_chain s)) = ply s' - ply s"

lemma advanced_refl [simp]: "advanced s s"
  by (simp add: advanced_def)

lemma advanced_trans: "advanced a b \<Longrightarrow> advanced b c \<Longrightarrow> advanced a c"
  by (simp add: advanced_def)

lemma same_walk_advanced: "same_walk s s' \<Longrightarrow> advanced s s'"
  by (simp add: same_walk_def advanced_def)

lemma descend_ply:
  "ply (descend E T node s) = ply s + 1"
  "length (st_chain (descend E T node s)) = length (st_chain s) + 1"
  "descentCnt (descend E T node s) = descentCnt s"
  by (simp_all add: descend_def do_move_def Let_def)

lemma tree_policy_loop_advanced:
  assumes "tree_policy_loop E T s = Some s'"
  shows "advanced s s' \<and> descentCnt s' = descentCnt s"
  using assms
proof (induction E T s s' rule: tree_policy_loop.raw_induct [rotated 1, consumes 1, case_names step])
  case (step loop E T s s')
  note IH = step(1) and eq = step(2)
  show ?case
  proof (cases "current_node s")
    case None
    with eq show ?thesis by simp
  next
    case (Some node)
    show ?thesis
    proof (cases "visits (table s ! node) > 0")
      case True
      with Some eq have "loop E T (descend E T node s) = Some s'"
        by simp
      from IH [OF this] show ?thesis
        by (simp add: advanced_def descend_ply)
    next
      case False
      with Some eq show ?thesis by simp
    qed
  qed
qed

lemma tree_policy_loop_descends:
  assumes "tree_policy_loop E T s = Some s'" and "current_node s = Some node"
    and "visits (table s ! node) > 0"
  shows "ply s < ply s'"
proof -
  from assms have "tree_policy_loop E T (descend E T node s) = Some s'"
    by (subst (asm) tree_policy_loop.simps) simp
  from tree_policy_loop_advanced [OF this] show ?thesis
    by (simp add: advanced_def descend_ply)
qed

lemma iteration_advanced:
  assumes "iteration E T s = Some s'"
  shows "advanced s s'"
    and "current_node s = Some node \<Longrightarrow> visits (table s ! node) > 0 \<Longrightarrow> ply s < ply s'"
proof -
  from assms obtain s1 node1 r s2 where
    tp: "tree_policy_loop E T (s \<lparr> descentCnt := descentCnt s + 1 \<rparr>) = Some s1"
    and gm: "generate_moves E T (s1 \<lparr> playoutCnt := playoutCnt s1 + 1 \<rparr>) = Some s2"
    and s': "s' = s2"
    by (auto simp: iteration_def tree_policy_def playout_policy_def backup_def
          split: option.splits)
  from tree_policy_loop_advanced [OF tp] have a1: "advanced s s1"
    by (simp add: advanced_def)
  from generate_moves_walk(1) [OF gm] have a2: "advanced s1 s2"
    by (simp add: same_walk_def advanced_def)
  from a1 a2 show "advanced s s'"
    unfolding s' by (rule advanced_trans)
  assume "current_node s = Some node" and "visits (table s ! node) > 0"
  then have "ply s < ply s1"
    using tree_policy_loop_descends [OF tp, of node] by (simp add: current_node_def)
  with a2 show "ply s < ply s'"
    by (simp add: s' advanced_def)
qed

lemma iterations_advanced:
  "iterations E T n s = Some s' \<Longrightarrow> advanced s s'"
proof (induction n arbitrary: s)
  case 0
  then show ?case by simp
next
  case (Suc n)
  then obtain s1 where i: "iteration E T s = Some s1" and r: "iterations E T n s1 = Some s'"
    by (auto split: option.splits)
  from iteration_advanced(1) [OF i] Suc.IH [OF r] show ?case
    by (rule advanced_trans)
qed

lemma create_root_state:
  assumes "table s0 \<noteq> []" and "create_root E T s0 = Some s"
  shows "ply s = 1" and "st_chain s = st_chain s0" and "descentCnt s = 0"
    and "rootPosition s = uct_pos s0" and "uct_pos s = uct_pos s0"
    and "\<exists>node. current_node s = Some node \<and> root_node s = Some node
            \<and> visits (table s ! node) > 0"
proof -
  let ?s1 = "s0 \<lparr> doMoveCnt := 0, descentCnt := 0, playoutCnt := 0, priorCnt := 0,
                   ply := 1,
                   stack := (\<lambda>i. zero_frame \<lparr> ss_contHistory := th_contHistory E (NO_PIECE E) 0 \<rparr>),
                   rootPosition := uct_pos s0,
                   nodes := (\<lambda>_. None) \<rparr>"
  let ?g = "get_node (table s0) (uct_pos s0)"
  let ?s2 = "?s1 \<lparr> table := snd ?g, nodes := (nodes ?s1)(ply ?s1 := Some (fst ?g)),
                    root_node := Some (fst ?g) \<rparr>"
  have lt: "fst ?g < length (table s0)" and len: "length (snd ?g) = length (table s0)"
    using assms(1) by (simp_all add: get_node_def table_index_def Let_def)
  have cn: "current_node ?s2 = Some (fst ?g)"
    by (simp add: current_node_def)
  have cr: "create_root E T s0
      = (if visits (table ?s2 ! fst ?g) = 0 then generate_moves E T ?s2 else Some ?s2)"
    by (simp add: create_root_def Let_def)
  have w: "same_walk ?s2 s \<and> visits (table s ! fst ?g) > 0"
  proof (cases "visits (table ?s2 ! fst ?g) = 0")
    case True
    with cr assms(2) have gm: "generate_moves E T ?s2 = Some s" by simp
    from generate_moves_walk(2) [OF gm] cn lt len
    have "visits (table s ! fst ?g) = 1" by simp
    with generate_moves_walk(1) [OF gm] show ?thesis by simp
  next
    case False
    with cr assms(2) have "s = ?s2" by simp
    with False show ?thesis by simp
  qed
  from w show "ply s = 1" "st_chain s = st_chain s0" "descentCnt s = 0"
    "rootPosition s = uct_pos s0" "uct_pos s = uct_pos s0"
    by (simp_all add: same_walk_def)
  from w cn have "current_node s = Some (fst ?g)" "root_node s = Some (fst ?g)"
    by (simp_all add: same_walk_def current_node_def)
  with w show "\<exists>node. current_node s = Some node \<and> root_node s = Some node
            \<and> visits (table s ! node) > 0"
    by blast
qed

text \<open>\<open>create_root\<close> followed by \<open>n\<close> completed iterations of the search loop.\<close>

definition run_iterations :: "Services \<Rightarrow> types_h \<Rightarrow> nat \<Rightarrow> UCT \<Rightarrow> UCT option" where
  "run_iterations E T n s = Option.bind (create_root E T s) (iterations E T n)"

text \<open>
  C1. The code does not keep the root-restoration invariant. For every search on a
  non-empty table and every number \<open>n + 1\<close> of completed iterations, when control is
  back at the top of the search loop the ply is at least 2, not 1, and the live position
  is \<open>ply - 1\<close> advances away from the position at construction: none of the advances
  of the selection has been retracted. The selection advances at least once, because the
  root has been visited, the expansion retracts exactly what it advances, and \<open>backup\<close>
  retracts nothing.
\<close>

theorem search_iterations_leave_root:
  assumes "table s0 \<noteq> []" and "run_iterations E T (Suc n) s0 = Some s'"
  shows "2 \<le> ply s' \<and> int (length (st_chain s')) = int (length (st_chain s0)) + (ply s' - 1)"
proof -
  from assms(2) obtain s s1 where cr: "create_root E T s0 = Some s"
    and i: "iteration E T s = Some s1" and r: "iterations E T n s1 = Some s'"
    by (auto simp: run_iterations_def split: option.splits Option.bind_splits)
  note c = create_root_state [OF assms(1) cr]
  from c(6) obtain node where "current_node s = Some node" "visits (table s ! node) > 0"
    by blast
  from iteration_advanced(2) [OF i this] have "ply s < ply s1" .
  moreover note a1 = iteration_advanced(1) [OF i] and a2 = iterations_advanced [OF r]
  ultimately show ?thesis
    using c(1,2) by (simp add: advanced_def)
qed

text \<open>
  C2. The code does not propagate the reward. For every state, node and reward,
  \<open>backup\<close> returns the state unchanged: no visit count is incremented, no reward is
  accumulated and the position is not retracted.
\<close>

theorem backup_changes_nothing:
  "backup s node r = s"
  by (simp add: backup_def)

text \<open>
  The same holds when \<open>search\<close> returns: it has made at least one iteration, and it
  leaves the position advanced.
\<close>

lemma search_loop_iterations:
  assumes "search_loop E T s = Some s'"
  shows "\<exists>n. iterations E T n s = Some s' \<and> (computational_budget s \<longrightarrow> 0 < n)"
  using assms
proof (induction E T s s' rule: search_loop.raw_induct [rotated 1, consumes 1, case_names step])
  case (step loop E T s s')
  note IH = step(1) and eq = step(2)
  show ?case
  proof (cases "computational_budget s")
    case False
    with eq have "iterations E T 0 s = Some s'" by simp
    with False show ?thesis by blast
  next
    case True
    with eq obtain s1 where i: "iteration E T s = Some s1" and l: "loop E T s1 = Some s'"
      by (auto split: option.splits)
    from IH [OF l] obtain n where "iterations E T n s1 = Some s'" by blast
    with i have "iterations E T (Suc n) s = Some s'" by simp
    then show ?thesis by blast
  qed
qed

lemma search_returns_below_root:
  assumes "table s0 \<noteq> []" and "search E T s0 = Some (m, s')"
  shows "2 \<le> ply s' \<and> int (length (st_chain s')) = int (length (st_chain s0)) + (ply s' - 1)"
proof -
  from assms(2) obtain s where cr: "create_root E T s0 = Some s"
    and l: "search_loop E T s = Some s'"
    by (auto simp: search_def split: option.splits)
  from create_root_state(3) [OF assms(1) cr] have "computational_budget s"
    by (simp add: computational_budget_def)
  with search_loop_iterations [OF l] obtain n where "iterations E T n s = Some s'" "0 < n"
    by blast
  then obtain k where "iterations E T (Suc k) s = Some s'"
    by (cases n) auto
  with cr have "run_iterations E T (Suc k) s0 = Some s'"
    by (simp add: run_iterations_def)
  from search_iterations_leave_root [OF assms(1) this] show ?thesis .
qed

text \<open>
  A concrete search. Every position of the game has the single legal move 7, a quiet
  move, and a move leads from the position with key \<open>k\<close> to the one with key \<open>k + 1\<close>.
  Every position evaluates to 0, so every prior is \<open>1 / 2\<close>. The table has eight empty
  cells, and the search starts at the position with key 1. The arithmetic does not
  round; every operation of this search is exact in doubles as well.
\<close>

definition chain_position :: "Key \<Rightarrow> Position" where
  "chain_position k = witness_position \<lparr> key := k, pawn_key := k, generate_QUIETS := [7] \<rparr>"

definition chain_services :: Services where
  "chain_services =
     \<lparr> pos_do_move = (\<lambda>p m. chain_position (key p + 1)),
       minimax_value = (\<lambda>_ _. 0), counterMoves = (\<lambda>_ _. 0),
       th_mainHistory = (\<lambda>_ _. 0), th_captureHistory = (\<lambda>_ _ _. 0),
       th_contHistory = (\<lambda>_ _ _ _. 0), NO_PIECE = 0, DEPTH_ZERO = 0,
       picker_storage = raw_picker, arith = exact_arith \<rparr>"

definition empty_node :: NodeInfo where
  "empty_node =
     \<lparr> key1 = 0, key2 = 0, visits = 0, sons = 0, expandedSons = 0, lastMove = 0,
       edges = (\<lambda>_. \<lparr> edge_move = 0, edge_visits = 0, prior = 0, actionValue = 0,
                       meanActionValue = 0 \<rparr>) \<rparr>"

definition chain_start :: UCT where
  "chain_start =
     \<lparr> uct_pos = chain_position 1, st_chain = [], rootPosition = witness_position,
       table = [empty_node, empty_node, empty_node, empty_node,
                empty_node, empty_node, empty_node, empty_node], ply = 0,
       stack = (\<lambda>_. zero_frame), nodes = (\<lambda>_. None), root_node = None,
       doMoveCnt = 0, descentCnt = 0, playoutCnt = 0, priorCnt = 0,
       explorationConstant = 10 \<rparr>"

definition first_root_edge :: "UCT \<Rightarrow> Edge" where
  "first_root_edge s = edges (table s ! the (root_node s)) 0"

definition root_visits :: "UCT \<Rightarrow> nat" where
  "root_visits s = visits (table s ! the (root_node s))"

definition first_reward :: "Services \<Rightarrow> types_h \<Rightarrow> UCT \<Rightarrow> Reward option" where
  "first_reward E T s0 =
     Option.bind (create_root E T s0)
       (\<lambda>s. Option.bind (tree_policy E T s)
          (\<lambda>n. map_option fst (playout_policy E T (fst n) (snd n))))"

lemmas chain_eval =
  run_iterations_def iteration_def tree_policy_def playout_policy_def backup_def
  tree_policy_loop.simps descend_def best_move_def best_move_loop.simps UCB_def
  create_root_def chain_start_def chain_services_def chain_position_def
  witness_position_def witness_types_def get_node_def table_index_def empty_node_def
  generate_moves_def Let_def MOVE_NONE_def zero_frame_def MovePicker_main_def raw_picker_def
  stage_defs generate_moves_loop.simps next_move.simps select_move.simps
  generate_def generated_def score_def score_of_def apply_filter_def sort_quiets_def
  partial_insertion_sort_def pis_loop.simps pis_shift.simps c_div_def
  calculate_prior_def do_move_def undo_move_def evaluate_with_minimax_def value_to_reward_def
  current_node_def add_prior_to_node_def sort_edges_def get_list_of_edges_def
  exact_arith_def at_root_def first_root_edge_def root_visits_def first_reward_def

lemma chain_first_iteration:
  "\<exists>s. run_iterations chain_services witness_types (Suc 0) chain_start = Some s
       \<and> ply s = 2 \<and> length (st_chain s) = 1
       \<and> key (uct_pos s) = 2 \<and> key (rootPosition s) = 1 \<and> \<not> at_root s
       \<and> edge_move (first_root_edge s) = 7 \<and> edge_visits (first_root_edge s) = 0
       \<and> actionValue (first_root_edge s) = 0 \<and> meanActionValue (first_root_edge s) = 0
       \<and> root_visits s = 1"
  by (simp add: chain_eval)

lemma chain_first_reward:
  "first_reward chain_services witness_types chain_start = Some (1 / 2)"
  by (simp add: chain_eval)

theorem search_iterations_leave_root_witness:
  "table chain_start \<noteq> []
   \<and> run_iterations chain_services witness_types (Suc 0) chain_start \<noteq> None
   \<and> 2 \<le> ply (the (run_iterations chain_services witness_types (Suc 0) chain_start))"
proof -
  have ne: "table chain_start \<noteq> []"
    by (simp add: chain_start_def)
  from chain_first_iteration obtain s' where
    s': "run_iterations chain_services witness_types (Suc 0) chain_start = Some s'"
    by blast
  from search_iterations_leave_root [OF ne s'] have "2 \<le> ply s'"
    by blast
  with ne s' show ?thesis
    by simp
qed

text \<open>
  C1, on the concrete search: after \<open>create_root\<close> and one iteration the ply is 2, one
  advance is not retracted, the live position has key 2 while the root position has key 1,
  and the assertion \<open>current_node() == root\<close> is false.
\<close>

theorem root_restoration_failing_run:
  "map_option ply (run_iterations chain_services witness_types (Suc 0) chain_start) = Some 2
   \<and> map_option (length \<circ> st_chain)
       (run_iterations chain_services witness_types (Suc 0) chain_start) = Some 1
   \<and> map_option (key \<circ> uct_pos)
       (run_iterations chain_services witness_types (Suc 0) chain_start) = Some 2
   \<and> map_option (key \<circ> rootPosition)
       (run_iterations chain_services witness_types (Suc 0) chain_start) = Some 1
   \<and> map_option at_root
       (run_iterations chain_services witness_types (Suc 0) chain_start) = Some False"
proof -
  from chain_first_iteration obtain s where
    "run_iterations chain_services witness_types (Suc 0) chain_start = Some s"
    "ply s = 2" "length (st_chain s) = 1" "key (uct_pos s) = 2" "key (rootPosition s) = 1"
    "\<not> at_root s"
    by blast
  then show ?thesis by simp
qed

text \<open>
  C2, on the concrete search: the first playout obtains the reward \<open>1 / 2\<close>, and after
  the iteration the edge of the root that the selection went through (move 7) still has
  visit count 0 and accumulated and mean value 0, the root still has visit count 1, and the
  ply is still 2.
\<close>

theorem backup_failing_run:
  "first_reward chain_services witness_types chain_start = Some (1 / 2)
   \<and> map_option (edge_move \<circ> first_root_edge)
       (run_iterations chain_services witness_types (Suc 0) chain_start) = Some 7
   \<and> map_option (edge_visits \<circ> first_root_edge)
       (run_iterations chain_services witness_types (Suc 0) chain_start) = Some 0
   \<and> map_option (actionValue \<circ> first_root_edge)
       (run_iterations chain_services witness_types (Suc 0) chain_start) = Some 0
   \<and> map_option (meanActionValue \<circ> first_root_edge)
       (run_iterations chain_services witness_types (Suc 0) chain_start) = Some 0
   \<and> map_option root_visits
       (run_iterations chain_services witness_types (Suc 0) chain_start) = Some 1
   \<and> map_option ply
       (run_iterations chain_services witness_types (Suc 0) chain_start) = Some 2"
proof -
  from chain_first_iteration obtain s where
    "run_iterations chain_services witness_types (Suc 0) chain_start = Some s"
    "ply s = 2" "edge_move (first_root_edge s) = 7" "edge_visits (first_root_edge s) = 0"
    "actionValue (first_root_edge s) = 0" "meanActionValue (first_root_edge s) = 0"
    "root_visits s = 1"
    by blast
  with chain_first_reward show ?thesis by simp
qed

text \<open>The whole \<open>search\<close> on the concrete game returns the move 7 at ply 6.\<close>

lemma chain_search:
  "\<exists>s. search chain_services witness_types chain_start = Some (7, s) \<and> ply s = 6"
  by (simp add: chain_eval search_def search_loop.simps computational_budget_def)

text \<open>
  A search that starts at a position without a legal move: \<open>create_root\<close> leaves a root
  node with one visit and no edge, and \<open>best_move\<close> on it is \<open>MOVE_NONE\<close>.
\<close>

definition dead_end_start :: UCT where
  "dead_end_start = chain_start \<lparr> uct_pos := witness_position \<lparr> key := 1, pawn_key := 1 \<rparr> \<rparr>"

lemma dead_end_root:
  "\<exists>s. create_root chain_services witness_types dead_end_start = Some s
       \<and> root_visits s = 1 \<and> sons (table s ! the (root_node s)) = 0
       \<and> best_move (arith chain_services) (table s ! the (root_node s)) (explorationConstant s)
           = MOVE_NONE"
  by (simp add: chain_eval dead_end_start_def)

end
